(* ===== verification/BrainPrelude.thy ===== *)
theory BrainPrelude
  imports Main "HOL-Library.List_Lexorder" "HOL-Library.Product_Lexorder"
    "HOL-Library.Char_ord" "HOL-Library.Sublist"
begin

text \<open>
  Shared ground of the development.

  Strings. A Rust \<open>str\<close> is UTF-8 text that the code reads both as characters
  (\<open>chars\<close>, \<open>char_indices\<close>) and as bytes (\<open>len\<close>, slicing). Here it is the list of
  its Unicode code points, \<open>rstr\<close>; \<open>len_utf8\<close> is the width of one code point and
  \<open>blen\<close> the byte length Rust's \<open>len\<close> returns. A byte slice \<open>&s[..n]\<close> panics in Rust when
  \<open>n\<close> is past the end or inside a code point: \<open>split_bytes\<close> returns \<open>None\<close> there,
  so no panic is modelled away. Comparing two strings by bytes is comparing their
  code points, which is what the list order of HOL-Library does.

  Tables. The SQLite index is a record of tables, a table a list of records in rowid
  order; \<open>sel\<close>, \<open>upd\<close> and \<open>del\<close> are \<open>SELECT\<close>, \<open>UPDATE\<close> and
  \<open>DELETE\<close> with the \<open>WHERE\<close> condition as a predicate.
\<close>

named_theorems text_simps \<open>byte lengths and slices\<close>
named_theorems table_simps \<open>selection, update and deletion on tables\<close>

section \<open>Text\<close>

type_synonym rstr = "nat list"

definition lit :: "string \<Rightarrow> rstr" where
  "lit s = map of_char s"

lemma lit_inject [simp]: "lit a = lit b \<longleftrightarrow> a = b"
  by (simp add: lit_def inj_map_eq_map inj_def)

lemma lit_Nil [simp]: "lit [] = []" "lit a = [] \<longleftrightarrow> a = []" "[] = lit a \<longleftrightarrow> a = []"
  by (simp_all add: lit_def)

lemma length_lit [simp]: "length (lit s) = length s"
  by (simp add: lit_def)

lemma lit_append: "lit (a @ b) = lit a @ lit b"
  by (simp add: lit_def)

definition len_utf8 :: "nat \<Rightarrow> nat" where
  "len_utf8 c = (if c < 128 then 1 else if c < 2048 then 2 else if c < 65536 then 3 else 4)"

definition blen :: "rstr \<Rightarrow> nat" where
  "blen s = sum_list (map len_utf8 s)"

lemma len_utf8_bounds: "1 \<le> len_utf8 c" "len_utf8 c \<le> 4"
  by (auto simp: len_utf8_def)

lemma len_utf8_pos [simp]: "0 < len_utf8 c" "len_utf8 c \<noteq> 0"
  using len_utf8_bounds(1) [of c] by auto

lemma blen_simps [simp, text_simps]:
  "blen [] = 0" "blen (c # s) = len_utf8 c + blen s" "blen (a @ b) = blen a + blen b"
  by (simp_all add: blen_def)

lemma blen_0_iff [simp]: "blen s = 0 \<longleftrightarrow> s = []"
  by (cases s) auto

lemma blen_concat_mono:
  "(\<And>x. x \<in> set xs \<Longrightarrow> blen (f x) \<le> blen (g x)) \<Longrightarrow> blen (concat (map f xs)) \<le> blen (concat (map g xs))"
  by (induction xs) (auto intro!: add_mono)

lemma blen_concat_mem: "x \<in> set xs \<Longrightarrow> blen (g x) \<le> blen (concat (map g xs))"
  by (induction xs) auto

lemma length_le_blen: "length s \<le> blen s"
proof (induction s)
  case (Cons c s)
  then show ?case using len_utf8_bounds(1) [of c] by simp
qed simp

lemma blen_take_le: "blen (take n s) \<le> blen s"
  by (metis append_take_drop_id blen_simps(3) le_add1)

definition ascii_text :: "rstr \<Rightarrow> bool" where
  "ascii_text s = list_all (\<lambda>c. c < 128) s"

lemma blen_ascii: "ascii_text s \<Longrightarrow> blen s = length s"
  by (induction s) (auto simp: ascii_text_def len_utf8_def)

lemma ascii_text_append [simp]: "ascii_text (a @ b) \<longleftrightarrow> ascii_text a \<and> ascii_text b"
  by (simp add: ascii_text_def)

subsection \<open>Byte slices\<close>

text \<open>\<open>split_bytes n s\<close> is \<open>(&s[..n], &s[n..])\<close>; \<open>None\<close> is Rust's panic.\<close>

fun split_bytes :: "nat \<Rightarrow> rstr \<Rightarrow> (rstr \<times> rstr) option" where
  "split_bytes 0 s = Some ([], s)"
| "split_bytes (Suc n) [] = None"
| "split_bytes (Suc n) (c # s) =
     (if len_utf8 c \<le> Suc n
      then map_option (\<lambda>(a, b). (c # a, b)) (split_bytes (Suc n - len_utf8 c) s)
      else None)"

lemma split_bytes_blen: "split_bytes (blen a) (a @ b) = Some (a, b)"
proof (induction a)
  case Nil
  then show ?case by (cases b) simp_all
next
  case (Cons c a)
  obtain n where n: "len_utf8 c + blen a = Suc n"
    by (metis add_eq_0_iff_both_eq_0 len_utf8_pos(2) not0_implies_Suc)
  then have "Suc n - len_utf8 c = blen a" "len_utf8 c \<le> Suc n" by auto
  with Cons n show ?case by simp
qed

lemma split_bytes_SomeD: "split_bytes n s = Some (a, b) \<Longrightarrow> s = a @ b \<and> n = blen a"
  by (induction n s arbitrary: a b rule: split_bytes.induct) (auto split: if_splits)

lemma split_bytes_iff: "split_bytes n s = Some (a, b) \<longleftrightarrow> s = a @ b \<and> n = blen a"
  using split_bytes_SomeD split_bytes_blen by blast

text \<open>The byte offsets of a text at which a character starts (Rust's \<open>char_indices\<close>).\<close>

fun char_starts :: "nat \<Rightarrow> rstr \<Rightarrow> nat list" where
  "char_starts i [] = []"
| "char_starts i (c # s) = i # char_starts (i + len_utf8 c) s"

lemma char_starts_append:
  "char_starts i (a @ b) = char_starts i a @ char_starts (i + blen a) b"
  by (induction a arbitrary: i) (auto simp: add.assoc)

lemma char_starts_mem: "k \<in> set (char_starts i s) \<longleftrightarrow> (\<exists>a c b. s = a @ c # b \<and> k = i + blen a)"
proof (induction s arbitrary: i)
  case (Cons d s)
  note IH = Cons.IH
  show ?case
  proof
    assume "k \<in> set (char_starts i (d # s))"
    then consider "k = i" | "k \<in> set (char_starts (i + len_utf8 d) s)" by auto
    then show "\<exists>a c b. d # s = a @ c # b \<and> k = i + blen a"
    proof cases
      case 1
      then show ?thesis by (intro exI [of _ "[]"]) auto
    next
      case 2
      then obtain a c b where "s = a @ c # b" "k = i + len_utf8 d + blen a"
        using Cons.IH by blast
      then show ?thesis by (intro exI [of _ "d # a"]) auto
    qed
  next
    assume "\<exists>a c b. d # s = a @ c # b \<and> k = i + blen a"
    then obtain a c b where ab: "d # s = a @ c # b" "k = i + blen a" by blast
    show "k \<in> set (char_starts i (d # s))"
    proof (cases a)
      case (Cons e a')
      with ab have "s = a' @ c # b" "k = (i + len_utf8 d) + blen a'" by auto
      then show ?thesis using IH [of "i + len_utf8 d"] by auto
    qed (use ab in simp)
  qed
qed simp

subsection \<open>ASCII classes, case and trimming\<close>

definition is_ascii_lower :: "nat \<Rightarrow> bool" where
  "is_ascii_lower c = (97 \<le> c \<and> c \<le> 122)"
definition is_ascii_upper :: "nat \<Rightarrow> bool" where
  "is_ascii_upper c = (65 \<le> c \<and> c \<le> 90)"
definition is_ascii_digit :: "nat \<Rightarrow> bool" where
  "is_ascii_digit c = (48 \<le> c \<and> c \<le> 57)"
definition is_ascii_alpha :: "nat \<Rightarrow> bool" where
  "is_ascii_alpha c = (is_ascii_lower c \<or> is_ascii_upper c)"
definition is_ascii_alnum :: "nat \<Rightarrow> bool" where
  "is_ascii_alnum c = (is_ascii_alpha c \<or> is_ascii_digit c)"
definition is_ascii_hexdigit :: "nat \<Rightarrow> bool" where
  "is_ascii_hexdigit c = (is_ascii_digit c \<or> (97 \<le> c \<and> c \<le> 102) \<or> (65 \<le> c \<and> c \<le> 70))"
definition is_ascii_punct :: "nat \<Rightarrow> bool" where
  "is_ascii_punct c = ((33 \<le> c \<and> c \<le> 47) \<or> (58 \<le> c \<and> c \<le> 64) \<or> (91 \<le> c \<and> c \<le> 96) \<or> (123 \<le> c \<and> c \<le> 126))"

lemmas ascii_class_defs = is_ascii_lower_def is_ascii_upper_def is_ascii_digit_def
  is_ascii_alpha_def is_ascii_alnum_def is_ascii_hexdigit_def is_ascii_punct_def

definition ascii_lower :: "nat \<Rightarrow> nat" where
  "ascii_lower c = (if is_ascii_upper c then c + 32 else c)"

definition eq_ignore_case :: "rstr \<Rightarrow> rstr \<Rightarrow> bool" where
  "eq_ignore_case a b = (map ascii_lower a = map ascii_lower b)"

text \<open>\<open>char::is_whitespace\<close>: the code points of the Unicode \<open>White_Space\<close> property.\<close>

definition is_ws :: "nat \<Rightarrow> bool" where
  "is_ws c = ((9 \<le> c \<and> c \<le> 13) \<or> c = 32 \<or> c = 133 \<or> c = 160 \<or> c = 5760 \<or>
     (8192 \<le> c \<and> c \<le> 8202) \<or> c = 8232 \<or> c = 8233 \<or> c = 8239 \<or> c = 8287 \<or> c = 12288)"

definition trim_start_by :: "(nat \<Rightarrow> bool) \<Rightarrow> rstr \<Rightarrow> rstr" where
  "trim_start_by p s = dropWhile p s"
definition trim_end_by :: "(nat \<Rightarrow> bool) \<Rightarrow> rstr \<Rightarrow> rstr" where
  "trim_end_by p s = rev (dropWhile p (rev s))"
definition trim_by :: "(nat \<Rightarrow> bool) \<Rightarrow> rstr \<Rightarrow> rstr" where
  "trim_by p s = trim_end_by p (trim_start_by p s)"
definition trim :: "rstr \<Rightarrow> rstr" where
  "trim s = trim_by is_ws s"

lemmas trim_defs = trim_def trim_by_def trim_start_by_def trim_end_by_def

text \<open>\<open>split_whitespace\<close>: the maximal runs of other characters.\<close>

fun split_acc :: "(nat \<Rightarrow> bool) \<Rightarrow> rstr \<Rightarrow> rstr \<Rightarrow> rstr list" where
  "split_acc p w [] = [rev w]"
| "split_acc p w (c # s) = (if p c then rev w # split_acc p [] s else split_acc p (c # w) s)"

definition split_on :: "(nat \<Rightarrow> bool) \<Rightarrow> rstr \<Rightarrow> rstr list" where
  "split_on p s = split_acc p [] s"

definition split_whitespace :: "rstr \<Rightarrow> rstr list" where
  "split_whitespace s = filter (\<lambda>w. w \<noteq> []) (split_on is_ws s)"

text \<open>\<open>join(" ")\<close>.\<close>

fun join_spaces :: "rstr list \<Rightarrow> rstr" where
  "join_spaces [] = []"
| "join_spaces [w] = w"
| "join_spaces (w # v # ws) = w @ [32] @ join_spaces (v # ws)"

lemma split_acc_no_sep: "w' \<in> set (split_acc p w s) \<Longrightarrow> c \<in> set w' \<Longrightarrow> p c \<Longrightarrow> c \<in> set w"
proof (induction s arbitrary: w)
  case (Cons d s)
  then have IH: "\<And>w. w' \<in> set (split_acc p w s) \<Longrightarrow> c \<in> set w" by blast
  show ?case using Cons.prems IH [of "[]"] IH [of "d # w"] by (auto split: if_splits)
qed simp

lemma split_on_no_sep: "w \<in> set (split_on p s) \<Longrightarrow> c \<in> set w \<Longrightarrow> \<not> p c"
  using split_acc_no_sep [of w p "[]" s c] by (auto simp: split_on_def)

subsection \<open>Prefixes and substrings\<close>

definition starts_with :: "rstr \<Rightarrow> rstr \<Rightarrow> bool" where
  "starts_with s p = (take (length p) s = p)"

definition strip_pre :: "rstr \<Rightarrow> rstr \<Rightarrow> rstr option" where
  "strip_pre s p = (if starts_with s p then Some (drop (length p) s) else None)"

lemma starts_with_iff: "starts_with s p \<longleftrightarrow> (\<exists>t. s = p @ t)"
  by (auto simp: starts_with_def) (metis append_take_drop_id)

lemma strip_pre_Some: "strip_pre s p = Some t \<longleftrightarrow> s = p @ t"
  using append_take_drop_id [of "length p" s]
  by (auto simp: strip_pre_def starts_with_def simp del: append_take_drop_id)

fun contains :: "rstr \<Rightarrow> rstr \<Rightarrow> bool" where
  "contains [] p = (p = [])"
| "contains (c # s) p = (starts_with (c # s) p \<or> contains s p)"

lemma contains_iff: "contains s p \<longleftrightarrow> (\<exists>a b. s = a @ p @ b)"
proof (induction s)
  case (Cons c s)
  have "(\<exists>a b. c # s = a @ p @ b) \<longleftrightarrow> (\<exists>b. c # s = p @ b) \<or> (\<exists>a b. s = a @ p @ b)"
  proof (intro iffI)
    assume "\<exists>a b. c # s = a @ p @ b"
    then obtain a b where "c # s = a @ p @ b" by blast
    then show "(\<exists>b. c # s = p @ b) \<or> (\<exists>a b. s = a @ p @ b)" by (cases a) auto
  qed (metis append_Cons append_Nil)
  then show ?case using Cons by (simp add: starts_with_iff)
qed simp

subsection \<open>Decimal numerals, as \<open>format!\<close> prints them\<close>

fun dec :: "nat \<Rightarrow> rstr" where
  "dec n = (if n < 10 then [48 + n] else dec (n div 10) @ [48 + n mod 10])"

declare dec.simps [simp del]

lemma ascii_dec: "ascii_text (dec n)"
proof (induction n rule: dec.induct)
  case (1 n)
  show ?case
  proof (cases "n < 10")
    case True
    then show ?thesis by (subst dec.simps) (simp add: ascii_text_def)
  next
    case False
    moreover have "n mod 10 < 80" using pos_mod_bound [of 10 "int n"] by (simp add: order.strict_trans [OF mod_less_divisor])
    ultimately show ?thesis using 1 by (subst dec.simps) (simp add: ascii_text_def)
  qed
qed

lemma length_dec: "n < 10 ^ k \<Longrightarrow> 0 < k \<Longrightarrow> length (dec n) \<le> k"
proof (induction k arbitrary: n)
  case (Suc k)
  show ?case
  proof (cases "n < 10")
    case True
    then show ?thesis by (subst dec.simps) simp
  next
    case False
    then have "0 < k" using Suc.prems by (cases k) auto
    moreover have "n div 10 < 10 ^ k" using Suc.prems by (simp add: less_mult_imp_div_less mult.commute)
    ultimately have "length (dec (n div 10)) \<le> k" by (rule Suc.IH [rotated])
    then show ?thesis using False by (subst dec.simps) simp
  qed
qed simp

lemma map_filter_app: "List.map_filter f (xs @ ys) = List.map_filter f xs @ List.map_filter f ys"
  by (simp add: List.map_filter_def)

section \<open>Tables\<close>

definition sel :: "('r \<Rightarrow> bool) \<Rightarrow> 'r list \<Rightarrow> 'r list" where
  "sel P t = filter P t"
definition upd :: "('r \<Rightarrow> bool) \<Rightarrow> ('r \<Rightarrow> 'r) \<Rightarrow> 'r list \<Rightarrow> 'r list" where
  "upd P f t = map (\<lambda>r. if P r then f r else r) t"
definition del :: "('r \<Rightarrow> bool) \<Rightarrow> 'r list \<Rightarrow> 'r list" where
  "del P t = filter (\<lambda>r. \<not> P r) t"

lemma length_upd [simp]: "length (upd P f t) = length t"
  by (simp add: upd_def)

lemma upd_Nil [simp]: "upd P f [] = []"
  by (simp add: upd_def)

lemma map_upd [table_simps]: "(\<And>r. P r \<Longrightarrow> g (f r) = g r) \<Longrightarrow> map g (upd P f t) = map g t"
  by (simp add: upd_def)

lemma mem_upd [table_simps]:
  "r' \<in> set (upd P f t) \<longleftrightarrow> (\<exists>r \<in> set t. r' = (if P r then f r else r))"
  by (auto simp: upd_def)

lemma mem_sel [simp]: "r \<in> set (sel P t) \<longleftrightarrow> r \<in> set t \<and> P r"
  by (simp add: sel_def)

lemma mem_del [simp]: "r \<in> set (del P t) \<longleftrightarrow> r \<in> set t \<and> \<not> P r"
  by (simp add: del_def)

lemma upd_upd_same:
  "(\<And>r. P r \<Longrightarrow> P (f r)) \<Longrightarrow> upd P g (upd P f t) = upd P (\<lambda>r. g (f r)) t"
  by (simp add: upd_def)

lemma upd_none: "(\<And>r. r \<in> set t \<Longrightarrow> \<not> P r) \<Longrightarrow> upd P f t = t"
  by (induction t) (auto simp: upd_def)

text \<open>The row of a key, in a table whose key column is \<open>k\<close>.\<close>

definition row_of :: "('r \<Rightarrow> 'k) \<Rightarrow> 'k \<Rightarrow> 'r list \<Rightarrow> 'r option" where
  "row_of k x t = find (\<lambda>r. k r = x) t"

lemma row_of_Some: "row_of k x t = Some r \<Longrightarrow> r \<in> set t \<and> k r = x"
  by (auto simp: row_of_def find_Some_iff in_set_conv_nth)

lemma row_of_None: "row_of k x t = None \<longleftrightarrow> x \<notin> k ` set t"
  by (auto simp: row_of_def find_None_iff)

lemma row_of_mem: "distinct (map k t) \<Longrightarrow> r \<in> set t \<Longrightarrow> row_of k (k r) t = Some r"
  by (induction t) (auto simp: row_of_def rev_image_eqI)

lemma row_of_append:
  "row_of k x (t @ u) = (case row_of k x t of None \<Rightarrow> row_of k x u | Some r \<Rightarrow> Some r)"
  by (induction t) (auto simp: row_of_def)

lemma row_of_upd:
  "(\<And>r. P r \<Longrightarrow> k (f r) = k r) \<Longrightarrow>
   row_of k x (upd P f t) = map_option (\<lambda>r. if P r then f r else r) (row_of k x t)"
  by (induction t) (auto simp: row_of_def upd_def)

lemma row_of_Cons: "row_of k x (r # t) = (if k r = x then Some r else row_of k x t)"
  by (simp add: row_of_def)

lemma row_of_Nil [simp]: "row_of k x [] = None"
  by (simp add: row_of_def)

lemma row_of_ex: "x \<in> k ` set t \<longleftrightarrow> (\<exists>r. row_of k x t = Some r)"
  using row_of_None [of k x t] by auto

lemma row_of_upd_key:
  "(\<And>r. k r = x \<Longrightarrow> k (f r) = x) \<Longrightarrow>
   row_of k y (upd (\<lambda>r. k r = x) f t) = (if y = x then map_option f (row_of k y t) else row_of k y t)"
  by (induction t) (auto simp: row_of_Cons upd_def)

lemma keys_upd: "(\<And>r. P r \<Longrightarrow> k (f r) = k r) \<Longrightarrow> k ` set (upd P f t) = k ` set t"
  using map_upd [of P k f t] by (metis list.set_map)

lemma upd_all: "(\<And>r. P r \<Longrightarrow> Q (f r)) \<Longrightarrow> \<forall>r\<in>set (upd P f t). P r \<longrightarrow> Q r"
  by (auto simp: upd_def)

text \<open>\<open>INSERT ... ON CONFLICT(key) DO UPDATE\<close>.\<close>

definition put_row :: "('r \<Rightarrow> 'k) \<Rightarrow> 'k \<Rightarrow> 'r \<Rightarrow> ('r \<Rightarrow> 'r) \<Rightarrow> 'r list \<Rightarrow> 'r list" where
  "put_row k x new f t = (if row_of k x t = None then t @ [new] else upd (\<lambda>r. k r = x) f t)"

lemma row_of_put:
  assumes "k new = x" "\<And>r. k r = x \<Longrightarrow> k (f r) = x"
  shows "row_of k y (put_row k x new f t) =
    (if y = x then Some (case row_of k x t of None \<Rightarrow> new | Some r \<Rightarrow> f r) else row_of k y t)"
  using assms by (auto simp: put_row_def row_of_append row_of_Cons row_of_upd_key split: option.split)

end
