(* ===== verification/Events.thy ===== *)
theory Events
  imports BrainPrelude "HOL-Library.Multiset"
begin

text \<open>
  The observation log, \<open>src/src/event.rs\<close>: the event schema, the tests replay makes on an
  event, and the monthly append-only files with \<open>append\<close> and \<open>read_all\<close>.

  A UUID and a ULID are their printed text. \<open>serde_json\<close> is not under \<open>src/\<close>: printing and
  parsing one line are parameters (\<open>ser\<close>, \<open>parse\<close>), and a JSON value is the datatype
  \<open>json\<close>, in which a number is its printed token. \<open>str::to_lowercase\<close> needs the Unicode tables, so it is a parameter too.
\<close>

section \<open>The schema\<close>

datatype event_kind = Observation | SessionSummary | PageUpdate | Note | Knowledge
  | Tombstone | Retire | SourceDoc

fun kind_as_str :: "event_kind \<Rightarrow> rstr" where
  "kind_as_str Observation = lit ''observation''"
| "kind_as_str SessionSummary = lit ''session_summary''"
| "kind_as_str PageUpdate = lit ''page_update''"
| "kind_as_str Note = lit ''note''"
| "kind_as_str Knowledge = lit ''knowledge''"
| "kind_as_str Tombstone = lit ''tombstone''"
| "kind_as_str Retire = lit ''retire''"
| "kind_as_str SourceDoc = lit ''source''"

definition parse_kind :: "rstr \<Rightarrow> event_kind" where
  "parse_kind raw =
     (if raw = lit ''session_summary'' then SessionSummary
      else if raw = lit ''page_update'' then PageUpdate
      else if raw = lit ''note'' then Note
      else if raw = lit ''knowledge'' then Knowledge
      else if raw = lit ''tombstone'' then Tombstone
      else if raw = lit ''retire'' then Retire
      else if raw = lit ''source'' then SourceDoc
      else Observation)"

lemma parse_kind_as_str: "parse_kind (kind_as_str k) = k"
  by (cases k) (simp_all add: parse_kind_def)

datatype json = JNull | JBool bool | JNum rstr | JStr rstr | JArr "json list" | JObj "(rstr \<times> json) list"

fun as_str :: "json \<Rightarrow> rstr option" where
  "as_str (JStr s) = Some s"
| "as_str _ = None"

record source =
  src_cli :: rstr
  src_hook :: rstr

record event =
  ev_v :: nat
  ev_id :: rstr
  ev_ts :: rstr
  ev_workspace :: rstr
  ev_project :: rstr
  ev_session :: rstr
  ev_source :: source
  ev_kind :: event_kind
  ev_title :: rstr
  ev_body :: rstr
  ev_files :: "rstr list"
  ev_links :: "rstr list"
  ev_topic :: "rstr option"
  ev_agent :: "rstr option"
  ev_origin :: "rstr option"
  ev_class :: "rstr option"
  ev_expires :: "rstr option"
  ev_cites :: "rstr list"
  ev_scope :: "rstr option"
  ev_commands :: "rstr list"
  ev_consolidated :: bool
  ev_extra :: "(rstr \<times> json) list"

definition SCHEMA_VERSION :: nat where "SCHEMA_VERSION = 1"

text \<open>\<open>Event::new\<close>; the fresh ULID and the clock reading are arguments.\<close>

definition new_event :: "rstr \<Rightarrow> rstr \<Rightarrow> rstr \<Rightarrow> rstr \<Rightarrow> rstr \<Rightarrow> source \<Rightarrow> event_kind \<Rightarrow> rstr \<Rightarrow> rstr \<Rightarrow> event" where
  "new_event ulid now workspace project session src kind title body =
     \<lparr>ev_v = SCHEMA_VERSION, ev_id = ulid, ev_ts = now, ev_workspace = workspace,
      ev_project = project, ev_session = session, ev_source = src, ev_kind = kind,
      ev_title = title, ev_body = body, ev_files = [], ev_links = [], ev_topic = None,
      ev_agent = None, ev_origin = None, ev_class = None, ev_expires = None, ev_cites = [],
      ev_scope = None, ev_commands = [], ev_consolidated = False, ev_extra = []\<rparr>"

definition is_user_prompt :: "rstr \<Rightarrow> bool" where
  "is_user_prompt hook =
     (hook = lit ''user_prompt_submit'' \<or> hook = lit ''before_submit_prompt'' \<or> hook = lit ''before_agent'')"

definition MEMORY_PHRASES :: "rstr list" where
  "MEMORY_PHRASES =
     [lit ''remember that'', lit ''remember this'', lit ''don'' @ [39] @ lit ''t forget'', lit ''from now on'',
      lit ''always use'', lit ''never use'', lit ''make it a rule'',
      [0xe08, 0xe33, 0xe44, 0xe27, 0xe49], [0xe2d, 0xe22, 0xe48, 0xe32, 0xe25, 0xe37, 0xe21],
      [0xe2b, 0xe49, 0xe32, 0xe21, 0xe43, 0xe0a, 0xe49], [0xe15, 0xe49, 0xe2d, 0xe07, 0xe43, 0xe0a, 0xe49],
      [0xe17, 0xe38, 0xe01, 0xe04, 0xe23, 0xe31, 0xe49, 0xe07, 0xe17, 0xe35, 0xe48],
      [0xe15, 0xe48, 0xe2d, 0xe44, 0xe1b, 0xe19, 0xe35, 0xe49, 0xe43, 0xe2b, 0xe49]]"

definition carries_memory_intent :: "(rstr \<Rightarrow> rstr) \<Rightarrow> rstr \<Rightarrow> bool" where
  "carries_memory_intent to_lowercase t = list_ex (contains (to_lowercase t)) MEMORY_PHRASES"

definition TOPICS :: "rstr list" where
  "TOPICS = map lit [''decision'', ''bugfix'', ''feature'', ''discovery'', ''config'', ''test'']"

definition normalize_topic :: "rstr \<Rightarrow> rstr option" where
  "normalize_topic raw =
     (let cleaned = trim_by (\<lambda>c. \<not> is_ascii_alpha c) (map ascii_lower (trim raw)) in
      if cleaned \<in> set (map lit [''decision'', ''decide'', ''choice'', ''rationale'']) then Some (lit ''decision'')
      else if cleaned \<in> set (map lit [''bugfix'', ''bug'', ''fix'', ''bugfixes'', ''defect'']) then Some (lit ''bugfix'')
      else if cleaned \<in> set (map lit [''feature'', ''feat'', ''implementation'', ''enhancement'']) then Some (lit ''feature'')
      else if cleaned \<in> set (map lit [''discovery'', ''finding'', ''gotcha'', ''insight'', ''learning'']) then Some (lit ''discovery'')
      else if cleaned \<in> set (map lit [''config'', ''configuration'', ''setup'', ''chore'', ''infra'']) then Some (lit ''config'')
      else if cleaned \<in> set (map lit [''test'', ''tests'', ''testing'']) then Some (lit ''test'')
      else None)"

lemma normalize_topic_range: "normalize_topic raw = Some t \<Longrightarrow> t \<in> set TOPICS"
  by (auto simp: normalize_topic_def TOPICS_def Let_def split: if_splits)

lemma normalize_topic_fixed: "t \<in> set TOPICS \<Longrightarrow> normalize_topic t = Some t"
proof -
  assume "t \<in> set TOPICS"
  moreover have "list_all (\<lambda>t. normalize_topic t = Some t) TOPICS"
    by (simp add: TOPICS_def normalize_topic_def Let_def trim_defs lit_def is_ws_def ascii_lower_def
        ascii_class_defs)
  ultimately show ?thesis by (simp add: list_all_iff)
qed

definition is_revision :: "event \<Rightarrow> bool" where
  "is_revision e =
     (ev_kind e = Tombstone \<or> ev_kind e = Retire
      \<or> (ev_kind e = Note
         \<and> src_hook (ev_source e) \<in> set (map lit [''correct'', ''feedback'', ''supersede'', ''classify'', ''restore''])))"

definition month :: "event \<Rightarrow> rstr" where
  "month e = (case split_bytes 7 (ev_ts e) of Some (m, _) \<Rightarrow> m | None \<Rightarrow> lit ''unknown'')"

section \<open>The log files\<close>

text \<open>The events directory: its files by name, each with its text.\<close>

type_synonym log_dir = "(rstr \<times> rstr) list"

definition file_for :: "rstr \<Rightarrow> rstr" where
  "file_for m = m @ lit ''.jsonl''"

text \<open>
  \<open>str::lines\<close>: cut at newlines, no last empty line, and a carriage return goes with the newline
  after it (a last line without a newline keeps its own).
\<close>

definition strip_cr :: "rstr \<Rightarrow> rstr" where
  "strip_cr l = (if l \<noteq> [] \<and> last l = 13 then butlast l else l)"

definition text_lines :: "rstr \<Rightarrow> rstr list" where
  "text_lines s =
     (let ls = split_on (\<lambda>c. c = 10) s in
      map strip_cr (butlast ls) @ (if last ls = [] then [] else [last ls]))"

text \<open>\<open>Path::extension\<close> is \<open>jsonl\<close>: what follows the last dot, when something precedes it.\<close>

definition is_jsonl :: "rstr \<Rightarrow> bool" where
  "is_jsonl name =
     (let ext = takeWhile (\<lambda>c. c \<noteq> 46) (rev name) in
      rev ext = lit ''jsonl'' \<and> length ext + 1 < length name)"

definition log_files :: "log_dir \<Rightarrow> log_dir" where
  "log_files d = sort_key fst (filter (\<lambda>f. is_jsonl (fst f)) d)"

fun read_lines :: "(rstr \<Rightarrow> event option) \<Rightarrow> rstr list \<Rightarrow> event list \<times> nat \<Rightarrow> event list \<times> nat" where
  "read_lines parse [] acc = acc"
| "read_lines parse (l # ls) (events, skipped) =
     (if trim l = [] then read_lines parse ls (events, skipped)
      else case parse l of
             Some e \<Rightarrow> read_lines parse ls (events @ [e], skipped)
           | None \<Rightarrow> read_lines parse ls (events, Suc skipped))"

definition replay_order :: "event list \<Rightarrow> event list" where
  "replay_order events = sort_key (\<lambda>e. (is_revision e, ev_id e)) events"

definition read_all :: "(rstr \<Rightarrow> event option) \<Rightarrow> log_dir \<Rightarrow> event list \<times> nat" where
  "read_all parse d =
     (let (events, skipped) =
        foldl (\<lambda>acc (_, contents). read_lines parse (text_lines contents) acc) ([], 0) (log_files d)
      in (replay_order events, skipped))"

fun first_parsed :: "(rstr \<Rightarrow> event option) \<Rightarrow> rstr list \<Rightarrow> event option" where
  "first_parsed parse [] = None"
| "first_parsed parse (l # ls) = (case parse l of Some e \<Rightarrow> Some e | None \<Rightarrow> first_parsed parse ls)"

text \<open>The scan reads raw \<open>\n\<close>-separated lines; a file that fails to parse throughout yields to the next.\<close>

definition first_event :: "(rstr \<Rightarrow> event option) \<Rightarrow> log_dir \<Rightarrow> event option" where
  "first_event parse d =
     foldl (\<lambda>found (_, contents).
         (case found of Some e \<Rightarrow> Some e
          | None \<Rightarrow> first_parsed parse (split_on (\<lambda>c. c = 10) contents))) None (log_files d)"

definition stamp :: "rstr option \<Rightarrow> event \<Rightarrow> event" where
  "stamp origin e = (if ev_origin e = None then e\<lparr>ev_origin := origin\<rparr> else e)"

fun append_file :: "rstr \<Rightarrow> rstr \<Rightarrow> log_dir \<Rightarrow> log_dir" where
  "append_file name line [] = [(name, line)]"
| "append_file name line ((n, c) # d) =
     (if n = name then (n, c @ line) # d else (n, c) # append_file name line d)"

definition append_event :: "(event \<Rightarrow> rstr) \<Rightarrow> rstr option \<Rightarrow> event \<Rightarrow> log_dir \<Rightarrow> log_dir" where
  "append_event ser origin e d =
     append_file (file_for (month e)) (ser (stamp origin e) @ [10]) d"

section \<open>What the log promises\<close>

definition file_events :: "(rstr \<Rightarrow> event option) \<Rightarrow> rstr \<Rightarrow> event list" where
  "file_events parse c = List.map_filter parse (filter (\<lambda>l. trim l \<noteq> []) (text_lines c))"

definition file_bad :: "(rstr \<Rightarrow> event option) \<Rightarrow> rstr \<Rightarrow> nat" where
  "file_bad parse c = length (filter (\<lambda>l. trim l \<noteq> [] \<and> parse l = None) (text_lines c))"

lemma read_lines_eq:
  "read_lines parse ls (es, k) =
     (es @ List.map_filter parse (filter (\<lambda>l. trim l \<noteq> []) ls),
      k + length (filter (\<lambda>l. trim l \<noteq> [] \<and> parse l = None) ls))"
  by (induction ls arbitrary: es k) (auto simp: map_filter_simps split: option.splits)

lemma read_all_eq:
  "read_all parse d =
     (replay_order (concat (map (file_events parse \<circ> snd) (log_files d))),
      sum_list (map (file_bad parse \<circ> snd) (log_files d)))"
proof -
  have "foldl (\<lambda>acc (_, contents). read_lines parse (text_lines contents) acc) (es, k) fs =
      (es @ concat (map (file_events parse \<circ> snd) fs), k + sum_list (map (file_bad parse \<circ> snd) fs))"
    for es k and fs :: log_dir
    by (induction fs arbitrary: es k) (auto simp: read_lines_eq file_events_def file_bad_def)
  then show ?thesis by (simp add: read_all_def)
qed

text \<open>The events of a log directory as a multiset: file order and file split do not matter.\<close>

definition log_events :: "(rstr \<Rightarrow> event option) \<Rightarrow> log_dir \<Rightarrow> event multiset" where
  "log_events parse d = (\<Sum>f\<in>#filter_mset (\<lambda>f. is_jsonl (fst f)) (mset d). mset (file_events parse (snd f)))"

lemma mset_read_all: "mset (fst (read_all parse d)) = log_events parse d"
  by (simp add: read_all_eq replay_order_def log_events_def log_files_def mset_concat comp_def
      flip: sum_mset_sum_list)

lemma replay_order_sorted: "sorted (map (\<lambda>e. (is_revision e, ev_id e)) (replay_order es))"
  by (simp add: replay_order_def)

lemma replay_order_mset [simp]: "mset (replay_order es) = mset es" "set (replay_order es) = set es"
  by (simp_all add: replay_order_def)

lemma split_acc_append:
  "p x \<Longrightarrow> split_acc p w (a @ x # b) = split_acc p w a @ split_acc p [] b"
  by (induction a arbitrary: w) auto

lemma split_acc_plain: "\<forall>c\<in>set s. \<not> p c \<Longrightarrow> split_acc p w s = [rev w @ s]"
  by (induction s arbitrary: w) auto

lemma split_acc_ne: "split_acc p w s \<noteq> []"
  by (induction s arbitrary: w) auto

lemma text_lines_append:
  assumes "c = [] \<or> last c = 10" "10 \<notin> set l"
  shows "text_lines (c @ l @ [10]) = text_lines c @ [strip_cr l]"
proof (cases "c = []")
  case True
  have "\<forall>x\<in>set l. x \<noteq> 10" using assms(2) by auto
  with True show ?thesis
    by (simp add: text_lines_def split_on_def split_acc_append split_acc_plain)
next
  case False
  then obtain c' where c: "c = c' @ [10]" using assms(1) by (metis append_butlast_last_id)
  have "\<forall>x\<in>set l. x \<noteq> 10" using assms(2) by auto
  then have "split_on (\<lambda>c. c = 10) (c' @ 10 # l @ [10]) = split_on (\<lambda>c. c = 10) c' @ [l, []]"
    by (simp add: split_on_def split_acc_append split_acc_plain)
  moreover have "split_on (\<lambda>c. c = 10) (c' @ [10]) = split_on (\<lambda>c. c = 10) c' @ [[]]"
    by (simp add: split_on_def split_acc_append)
  ultimately show ?thesis by (simp add: c text_lines_def butlast_append)
qed

lemma text_lines_unterminated:
  assumes "c = [] \<or> last c = 10" "l \<noteq> []" "10 \<notin> set l"
  shows "text_lines (c @ l) = text_lines c @ [l]"
proof (cases "c = []")
  case True
  have "\<forall>x\<in>set l. x \<noteq> 10" using assms(3) by auto
  with True assms(2) show ?thesis by (simp add: text_lines_def split_on_def split_acc_plain)
next
  case False
  then obtain c' where c: "c = c' @ [10]" using assms(1) by (metis append_butlast_last_id)
  have "\<forall>x\<in>set l. x \<noteq> 10" using assms(3) by auto
  then have "split_on (\<lambda>c. c = 10) (c' @ 10 # l) = split_on (\<lambda>c. c = 10) c' @ [l]"
    by (simp add: split_on_def split_acc_append split_acc_plain)
  moreover have "split_on (\<lambda>c. c = 10) (c' @ [10]) = split_on (\<lambda>c. c = 10) c' @ [[]]"
    by (simp add: split_on_def split_acc_append)
  ultimately show ?thesis using assms(2) by (simp add: c text_lines_def)
qed

lemma is_jsonl_file_for: "m \<noteq> [] \<Longrightarrow> is_jsonl (file_for m)"
  by (simp add: is_jsonl_def file_for_def lit_def)

lemma month_nonempty: "month e \<noteq> []"
proof (cases "split_bytes 7 (ev_ts e)")
  case (Some ab)
  then have "split_bytes 7 (ev_ts e) = Some (fst ab, snd ab)" by simp
  then have "7 = blen (fst ab)" using split_bytes_iff by blast
  then show ?thesis using Some by (auto simp: month_def split: prod.splits)
qed (simp add: month_def)

definition log_sound :: "log_dir \<Rightarrow> bool" where
  "log_sound d = (\<forall>(n, c) \<in> set d. c = [] \<or> last c = 10)"

lemma append_file_events:
  assumes "log_sound d" "is_jsonl name" "10 \<notin> set l" "trim l \<noteq> []" "strip_cr l = l" "parse l = Some e"
  shows "log_events parse (append_file name (l @ [10]) d) = log_events parse d + {#e#}
    \<and> log_sound (append_file name (l @ [10]) d)"
  using assms(1)
proof (induction d)
  case Nil
  have "text_lines (l @ [10]) = [l]" using text_lines_append [of "[]" l] assms
    by (simp add: text_lines_def split_on_def)
  then show ?case using assms by (simp add: log_events_def log_sound_def file_events_def map_filter_simps)
next
  case (Cons nc d)
  obtain n c where nc: "nc = (n, c)" by fastforce
  show ?case
  proof (cases "n = name")
    case True
    have "text_lines (c @ l @ [10]) = text_lines c @ [l]"
      using text_lines_append [of c l] Cons.prems assms nc by (auto simp: log_sound_def)
    then show ?thesis using True Cons.prems assms nc
      by (simp add: log_events_def log_sound_def file_events_def map_filter_simps map_filter_app)
  next
    case False
    then show ?thesis using Cons nc by (auto simp: log_events_def log_sound_def)
  qed
qed

lemma sorted_revision_split:
  assumes "sorted (map (\<lambda>e. (is_revision e, ev_id e)) es)"
  shows "es = filter (\<lambda>e. \<not> is_revision e) es @ filter is_revision es"
  using assms
proof (induction es)
  case (Cons e es)
  show ?case
  proof (cases "is_revision e")
    case True
    then have "\<forall>x\<in>set es. is_revision x" using Cons.prems by (auto simp: less_eq_prod_def)
    then show ?thesis using True by (simp add: filter_empty_conv filter_id_conv)
  qed (use Cons in auto)
qed simp

lemma sorted_ids_filter:
  assumes "sorted (map (\<lambda>e. (is_revision e, ev_id e)) es)"
  shows "sorted (map ev_id (filter (\<lambda>e. is_revision e = b) es))"
  using assms by (induction es) (auto simp: less_eq_prod_def)

text \<open>
  whatever files the log is spread over and in whatever order they were written, a replay
  sees every event once, everything a revision could target before every revision, and each
  half in id order.
\<close>
theorem read_all_revisions_last:
  "\<exists>facts revs. fst (read_all parse d) = facts @ revs \<and>
     (\<forall>e\<in>set facts. \<not> is_revision e) \<and> (\<forall>e\<in>set revs. is_revision e) \<and>
     sorted (map ev_id facts) \<and> sorted (map ev_id revs) \<and>
     mset (facts @ revs) = log_events parse d"
proof -
  let ?es = "fst (read_all parse d)"
  have s: "sorted (map (\<lambda>e. (is_revision e, ev_id e)) ?es)"
    by (simp add: read_all_eq replay_order_sorted)
  have "sorted (map ev_id (filter (\<lambda>e. \<not> is_revision e) ?es))" "sorted (map ev_id (filter is_revision ?es))"
    using sorted_ids_filter [OF s, of False] sorted_ids_filter [OF s, of True] by simp_all
  then show ?thesis
    using sorted_revision_split [OF s] mset_read_all [of parse d]
    by (intro exI [of _ "filter (\<lambda>e. \<not> is_revision e) ?es"] exI [of _ "filter is_revision ?es"]) auto
qed

lemma replay_order_unique:
  "mset es = mset es' \<Longrightarrow> inj_on ev_id (set es) \<Longrightarrow> replay_order es = replay_order es'"
  unfolding replay_order_def
  by (rule sort_key_inj_key_eq) (auto simp: inj_on_def)

text \<open>
  two logs that hold the same events, however a merge, a copy or a sync interleaved their
  lines and files, are read back as the same list.
\<close>
theorem read_all_merge_independent:
  assumes "log_events parse d1 = log_events parse d2" "inj_on ev_id (set_mset (log_events parse d1))"
  shows "fst (read_all parse d1) = fst (read_all parse d2)"
proof -
  have "\<exists>es. fst (read_all parse d) = replay_order es \<and> mset es = log_events parse d" for d
    using mset_read_all [of parse d] by (auto simp: read_all_eq)
  then obtain es1 es2 where "fst (read_all parse d1) = replay_order es1" "mset es1 = log_events parse d1"
    "fst (read_all parse d2) = replay_order es2" "mset es2 = log_events parse d2"
    by metis
  then show ?thesis using assms replay_order_unique [of es1 es2] by (metis set_mset_mset)
qed

definition sample_event :: event where
  "sample_event = new_event (lit ''01'') (lit ''2026-01-02T00:00:00Z'') [] [] [] \<lparr>src_cli = [], src_hook = []\<rparr> Note [] []"

definition sample_parse :: "rstr \<Rightarrow> event option" where
  "sample_parse l = (if l = lit ''1'' then Some sample_event
     else if l = lit ''2'' then Some (sample_event\<lparr>ev_id := lit ''02''\<rparr>) else None)"

lemma sample_lines:
  "text_lines (lit ''1'' @ [10] @ lit ''2'' @ [10]) = [lit ''1'', lit ''2'']"
  "text_lines (lit ''2'' @ [10] @ lit ''1'' @ [10]) = [lit ''2'', lit ''1'']"
  "text_lines (lit ''2'' @ [10]) = [lit ''2'']"
  by (simp_all add: text_lines_def split_on_def lit_def strip_cr_def)

lemma sample_trim: "trim (lit ''1'') = lit ''1''" "trim (lit ''2'') = lit ''2''"
  by (simp_all add: trim_defs lit_def is_ws_def)

theorem read_all_revisions_last_witness:
  "\<exists>facts revs. fst (read_all sample_parse [(lit ''2026-01.jsonl'', lit ''2'' @ [10] @ lit ''1'' @ [10])]) = facts @ revs \<and>
     sorted (map ev_id facts) \<and> sorted (map ev_id revs)"
  using read_all_revisions_last [of sample_parse "[(lit ''2026-01.jsonl'', lit ''2'' @ [10] @ lit ''1'' @ [10])]"] by blast

theorem read_all_merge_independent_witness:
  "fst (read_all sample_parse [(lit ''2026-01.jsonl'', lit ''1'' @ [10] @ lit ''2'' @ [10])])
   = fst (read_all sample_parse [(lit ''2026-01.jsonl'', lit ''2'' @ [10] @ lit ''1'' @ [10])])"
proof (rule read_all_merge_independent)
  have j: "is_jsonl (lit ''2026-01.jsonl'')" by (simp add: is_jsonl_def lit_def)
  have p: "sample_parse (lit ''1'') = Some sample_event"
    "sample_parse (lit ''2'') = Some (sample_event\<lparr>ev_id := lit ''02''\<rparr>)"
    by (simp_all add: sample_parse_def)
  show "log_events sample_parse [(lit ''2026-01.jsonl'', lit ''1'' @ [10] @ lit ''2'' @ [10])] =
      log_events sample_parse [(lit ''2026-01.jsonl'', lit ''2'' @ [10] @ lit ''1'' @ [10])]"
    using j p by (simp add: log_events_def file_events_def sample_lines sample_trim map_filter_simps del: append.simps)
  show "inj_on ev_id (set_mset (log_events sample_parse [(lit ''2026-01.jsonl'', lit ''1'' @ [10] @ lit ''2'' @ [10])]))"
    using j p by (simp add: log_events_def file_events_def sample_lines sample_trim map_filter_simps
        sample_event_def new_event_def del: append.simps)
qed

text \<open>
  C12: an appended event is read back. The log gains exactly this event, stamped with the store
  that wrote it unless it already names one, no line is lost, and every file again ends in a
  newline; \<open>serde_json\<close> is relied on to print one non-blank line that it parses back.
\<close>
theorem append_event_read_back:
  assumes "log_sound d" "parse (ser (stamp origin e)) = Some (stamp origin e)"
    "10 \<notin> set (ser (stamp origin e))" "trim (ser (stamp origin e)) \<noteq> []"
    "strip_cr (ser (stamp origin e)) = ser (stamp origin e)"
  shows "mset (fst (read_all parse (append_event ser origin e d)))
      = add_mset (stamp origin e) (mset (fst (read_all parse d)))
    \<and> log_sound (append_event ser origin e d)"
  using append_file_events [of d "file_for (month e)" "ser (stamp origin e)" parse "stamp origin e"] assms
    is_jsonl_file_for [OF month_nonempty]
  by (simp add: mset_read_all append_event_def)

theorem append_event_read_back_witness:
  "mset (fst (read_all sample_parse (append_event (\<lambda>_. lit ''1'') None sample_event [(lit ''2026-01.jsonl'', lit ''2'' @ [10])])))
   = add_mset sample_event (mset (fst (read_all sample_parse [(lit ''2026-01.jsonl'', lit ''2'' @ [10])])))"
proof -
  have st: "stamp None sample_event = sample_event"
    by (simp add: stamp_def sample_event_def new_event_def)
  have h: "log_sound [(lit ''2026-01.jsonl'', lit ''2'' @ [10])]"
    "sample_parse ((\<lambda>_. lit ''1'') (stamp None sample_event)) = Some (stamp None sample_event)"
    "10 \<notin> set ((\<lambda>_. lit ''1'') (stamp None sample_event))"
    "trim ((\<lambda>_. lit ''1'') (stamp None sample_event)) \<noteq> []"
    "strip_cr ((\<lambda>_. lit ''1'') (stamp None sample_event)) = (\<lambda>_. lit ''1'') (stamp None sample_event)"
    using st sample_trim(1) by (simp_all add: log_sound_def sample_parse_def lit_def strip_cr_def)
  from append_event_read_back [where ser = "\<lambda>_. lit ''1''" and parse = sample_parse and origin = None
      and e = sample_event, OF h] st show ?thesis by simp
qed

text \<open>
  a line torn by a crash takes the next appended event with it. \<open>append\<close> does not look at
  how the file ends, so the new line continues the torn one; the two together do not parse,
  and the event whose append returned without an error is not in the log that is read back.
\<close>
theorem append_after_torn_line_is_lost:
  assumes "torn \<noteq> []" "10 \<notin> set torn" "10 \<notin> set (ser (stamp origin e))"
    "parse (strip_cr (torn @ ser (stamp origin e))) = None" "parse torn = None"
    "c = [] \<or> last c = 10" "name = file_for (month e)"
  shows "fst (read_all parse (append_event ser origin e [(name, c @ torn)])) = fst (read_all parse [(name, c @ torn)])"
proof -
  let ?l = "ser (stamp origin e)"
  have j: "is_jsonl name" using assms(7) is_jsonl_file_for [OF month_nonempty] by simp
  have "text_lines (c @ (torn @ ?l) @ [10]) = text_lines c @ [strip_cr (torn @ ?l)]"
    using assms by (intro text_lines_append) auto
  moreover have "text_lines (c @ torn) = text_lines c @ [torn]"
    using text_lines_unterminated [OF assms(6,1,2)] .
  ultimately have "file_events parse (c @ torn @ ?l @ [10]) = file_events parse (c @ torn)"
    using assms by (simp add: file_events_def map_filter_app map_filter_simps)
  then show ?thesis using j assms(7) by (simp add: read_all_eq append_event_def log_files_def)
qed

theorem append_after_torn_line_is_lost_witness:
  "fst (read_all sample_parse (append_event (\<lambda>_. lit ''1'') None sample_event
       [(file_for (month sample_event), lit ''2'' @ [10] @ lit ''to'')]))
   = fst (read_all sample_parse [(file_for (month sample_event), lit ''2'' @ [10] @ lit ''to'')])"
  using append_after_torn_line_is_lost [of "lit ''to''" "\<lambda>_. lit ''1''" None sample_event sample_parse
      "lit ''2'' @ [10]" "file_for (month sample_event)"]
  by (simp add: lit_def strip_cr_def sample_parse_def)

end
