(* ===== verification/Sanitize.thy ===== *)
theory Sanitize
  imports BrainPrelude
begin

text \<open>
  The privacy strip, \<open>src/src/sanitize.rs\<close>: the removal of \<open><private>\<close> regions
  (\<open>next_tag\<close>, \<open>strip_private_state\<close>), the redaction loop (\<open>scrub\<close>) and the
  byte-bounded truncations.

  Regular expressions belong to the \<open>regex\<close> crate. A compiled pattern is a function from the
  text to its segments in order, \<open>Plain\<close> between matches and \<open>Hit\<close> for a match; the two
  fixed shapes the code compiles on first use (\<open>REFERENCE\<close>, \<open>BASE64\<close>) are parameters.

  Both tags are ASCII, so searching for them in the code points finds them where the code
  finds them in the bytes; positions here count code points.
\<close>

section \<open>Private regions: the code\<close>

definition PRIVATE_OPEN :: rstr where "PRIVATE_OPEN = lit ''<private>''"
definition PRIVATE_CLOSE :: rstr where "PRIVATE_CLOSE = lit ''</private>''"

function next_tag :: "rstr \<Rightarrow> nat \<Rightarrow> (nat \<times> bool) option" where
  "next_tag haystack index =
     (if index < length haystack then
        (if haystack ! index = 60 then
           (let rest = drop index haystack in
            if length rest \<ge> length PRIVATE_CLOSE
               \<and> eq_ignore_case (take (length PRIVATE_CLOSE) rest) PRIVATE_CLOSE
            then Some (index, True)
            else if length rest \<ge> length PRIVATE_OPEN
               \<and> eq_ignore_case (take (length PRIVATE_OPEN) rest) PRIVATE_OPEN
            then Some (index, False)
            else next_tag haystack (Suc index))
         else next_tag haystack (Suc index))
      else None)"
  by pat_completeness auto
termination
  by (relation "measure (\<lambda>(h, i). length h - i)") auto

declare next_tag.simps [simp del]

text \<open>The two comparisons of the loop body, on the rest of the text.\<close>

definition close_at :: "rstr \<Rightarrow> bool" where
  "close_at s = (length s \<ge> 10 \<and> eq_ignore_case (take 10 s) PRIVATE_CLOSE)"
definition open_at :: "rstr \<Rightarrow> bool" where
  "open_at s = (length s \<ge> 9 \<and> eq_ignore_case (take 9 s) PRIVATE_OPEN)"

lemma length_tags [simp]: "length PRIVATE_OPEN = 9" "length PRIVATE_CLOSE = 10"
  by (simp_all add: PRIVATE_OPEN_def PRIVATE_CLOSE_def)

lemma tag_codes:
  "PRIVATE_OPEN = [60, 112, 114, 105, 118, 97, 116, 101, 62]"
  "PRIVATE_CLOSE = [60, 47, 112, 114, 105, 118, 97, 116, 101, 62]"
  by (simp_all add: PRIVATE_OPEN_def PRIVATE_CLOSE_def lit_def)

lemma ascii_lower_60: "ascii_lower c = 60 \<longleftrightarrow> c = 60"
  by (auto simp: ascii_lower_def is_ascii_upper_def)

lemma tag_head: "close_at s \<or> open_at s \<Longrightarrow> \<exists>t. s = 60 # t"
  by (cases s) (auto simp: close_at_def open_at_def eq_ignore_case_def tag_codes ascii_lower_def
      is_ascii_upper_def split: if_splits)

lemma next_tag_step:
  "next_tag h i =
     (if i < length h then
        (if close_at (drop i h) then Some (i, True)
         else if open_at (drop i h) then Some (i, False) else next_tag h (Suc i))
      else None)"
proof -
  have "h ! i = 60" if "i < length h" "close_at (drop i h) \<or> open_at (drop i h)"
    using tag_head [OF that(2)] that(1) by (metis hd_drop_conv_nth list.sel(1))
  then show ?thesis
    by (auto simp: next_tag.simps [of h i] Let_def close_at_def open_at_def)
qed

lemma next_tag_bounds: "next_tag h i = Some (k, b) \<Longrightarrow> i \<le> k \<and> k < length h"
proof (induction "length h - i" arbitrary: i rule: less_induct)
  case less
  show ?case
  proof (cases "i < length h \<and> \<not> close_at (drop i h) \<and> \<not> open_at (drop i h)")
    case True
    then have lt: "length h - Suc i < length h - i" by auto
    from True have "next_tag h (Suc i) = Some (k, b)" using less.prems next_tag_step [of h i] by simp
    then have "Suc i \<le> k \<and> k < length h" using less.hyps [OF lt] by simp
    then show ?thesis by simp
  next
    case False
    then show ?thesis using less.prems next_tag_step [of h i] by (auto split: if_splits)
  qed
qed

text \<open>The inner walk to the close that balances an open; \<open>None\<close> when there is none.\<close>

function private_end :: "rstr \<Rightarrow> nat \<Rightarrow> nat \<Rightarrow> nat option" where
  "private_end input scan depth =
     (case next_tag input scan of
        Some (at, False) \<Rightarrow> private_end input (at + length PRIVATE_OPEN) (depth + 1)
      | Some (at, True) \<Rightarrow>
          (let depth' = depth - 1; scan' = at + length PRIVATE_CLOSE in
           if depth' = 0 then Some scan' else private_end input scan' depth')
      | None \<Rightarrow> None)"
  by pat_completeness auto
termination
  by (relation "measure (\<lambda>(h, i, d). length h - i)")
     (auto dest!: next_tag_bounds)

declare private_end.simps [simp del]

lemma private_end_bound: "private_end h i d = Some e \<Longrightarrow> i < e"
proof (induction h i d rule: private_end.induct)
  case (1 h i d)
  show ?case
  proof (cases "next_tag h i")
    case (Some kb)
    obtain k b where kb: "kb = (k, b)" by fastforce
    then have "i \<le> k" using Some next_tag_bounds by blast
    then show ?thesis
      using "1.prems" "1.IH" Some kb
      by (cases b) (fastforce simp: private_end.simps [of h i d] Let_def split: if_splits)+
  qed (use "1.prems" in \<open>simp add: private_end.simps\<close>)
qed

function strip_go :: "rstr \<Rightarrow> nat \<Rightarrow> rstr \<Rightarrow> rstr \<times> bool" where
  "strip_go input cursor out =
     (case next_tag input cursor of
        Some (start, is_close) \<Rightarrow>
          (if is_close
           then strip_go input (start + length PRIVATE_CLOSE)
                  (out @ take (start + length PRIVATE_CLOSE - cursor) (drop cursor input))
           else (let out' = out @ take (start - cursor) (drop cursor input) @ lit ''[PRIVATE]'' in
                 case private_end input (start + length PRIVATE_OPEN) 1 of
                   None \<Rightarrow> (out', True)
                 | Some scan \<Rightarrow> strip_go input scan out'))
      | None \<Rightarrow> (out @ drop cursor input, False))"
  by pat_completeness auto
termination
  by (relation "measure (\<lambda>(h, i, d). length h - i)")
     (auto dest!: next_tag_bounds private_end_bound)

declare strip_go.simps [simp del]

definition strip_private_state :: "rstr \<Rightarrow> rstr \<times> bool" where
  "strip_private_state input = strip_go input 0 []"

definition strip_private :: "rstr \<Rightarrow> rstr" where
  "strip_private input = fst (strip_private_state input)"

definition leaves_private_open :: "rstr \<Rightarrow> bool" where
  "leaves_private_open input = snd (strip_private_state input)"

section \<open>Private regions: the specification\<close>

text \<open>
  The text as a stream of characters and tags, and a machine that walks it with the nesting
  depth: at depth 0 it copies, at any other depth it is silent.
\<close>

datatype token = Chr nat | Open rstr | Close rstr

function lex :: "rstr \<Rightarrow> token list" where
  "lex [] = []"
| "lex (c # s) =
     (if close_at (c # s) then Close (take 10 (c # s)) # lex (drop 10 (c # s))
      else if open_at (c # s) then Open (take 9 (c # s)) # lex (drop 9 (c # s))
      else Chr c # lex s)"
  by pat_completeness auto
termination
  by (relation "measure length") auto

declare lex.simps(2) [simp del]

fun render1 :: "token \<Rightarrow> rstr" where
  "render1 (Chr c) = [c]" | "render1 (Open r) = r" | "render1 (Close r) = r"

definition render :: "token list \<Rightarrow> rstr" where
  "render ts = concat (map render1 ts)"

fun redact :: "nat \<Rightarrow> token list \<Rightarrow> token list \<times> bool" where
  "redact d [] = ([], 0 < d)"
| "redact 0 (Chr c # ts) = (case redact 0 ts of (out, open_) \<Rightarrow> (Chr c # out, open_))"
| "redact 0 (Close r # ts) = (case redact 0 ts of (out, open_) \<Rightarrow> (Close r # out, open_))"
| "redact 0 (Open r # ts) =
     (case redact 1 ts of (out, open_) \<Rightarrow> (map Chr (lit ''[PRIVATE]'') @ out, open_))"
| "redact (Suc d) (Chr c # ts) = redact (Suc d) ts"
| "redact (Suc d) (Open r # ts) = redact (Suc (Suc d)) ts"
| "redact (Suc d) (Close r # ts) = redact d ts"

lemma render_simps [simp]:
  "render [] = []" "render (t # ts) = render1 t @ render ts"
  "render (ts @ us) = render ts @ render us" "render (map Chr s) = s"
  by (simp_all add: render_def comp_def)

lemma render_lex: "render (lex s) = s"
proof (induction s rule: lex.induct)
  case (2 c s)
  show ?case
    by (subst lex.simps) (use 2 in \<open>auto simp del: take_Suc_Cons drop_Suc_Cons simp: append_take_drop_id\<close>)
qed simp

lemma lex_step:
  "i < length h \<Longrightarrow> lex (drop i h) =
     (if close_at (drop i h) then Close (take 10 (drop i h)) # lex (drop (i + 10) h)
      else if open_at (drop i h) then Open (take 9 (drop i h)) # lex (drop (i + 9) h)
      else Chr (h ! i) # lex (drop (Suc i) h))"
  by (simp add: Cons_nth_drop_Suc [symmetric] lex.simps(2)) (simp add: Cons_nth_drop_Suc add.commute)

subsection \<open>The code refines the machine\<close>

text \<open>The next tag is the end of a run of characters of the stream.\<close>

lemma lex_next_tag:
  "i \<le> length h \<Longrightarrow> lex (drop i h) =
     (case next_tag h i of
        None \<Rightarrow> map Chr (drop i h)
      | Some (k, True) \<Rightarrow> map Chr (take (k - i) (drop i h)) @ Close (take 10 (drop k h)) # lex (drop (k + 10) h)
      | Some (k, False) \<Rightarrow> map Chr (take (k - i) (drop i h)) @ Open (take 9 (drop k h)) # lex (drop (k + 9) h))"
proof (induction "length h - i" arbitrary: i rule: less_induct)
  case less
  show ?case
  proof (cases "i < length h \<and> \<not> close_at (drop i h) \<and> \<not> open_at (drop i h)")
    case True
    then have lt: "length h - Suc i < length h - i" "Suc i \<le> length h" by auto
    from True have nt: "next_tag h i = next_tag h (Suc i)" and lx: "lex (drop i h) = Chr (h ! i) # lex (drop (Suc i) h)"
      using next_tag_step [of h i] lex_step [of i h] by simp_all
    have tk: "take (k - i) (drop i h) = h ! i # take (k - Suc i) (drop (Suc i) h)" if "i < k" for k
    proof -
      have "k - i = Suc (k - Suc i)" using that by simp
      then show ?thesis using True by (simp add: Cons_nth_drop_Suc [symmetric])
    qed
    have dr: "drop i h = h ! i # drop (Suc i) h" using True by (simp add: Cons_nth_drop_Suc)
    show ?thesis
    proof (cases "next_tag h (Suc i)")
      case None
      then show ?thesis using less.hyps [OF lt] True nt lx dr by simp
    next
      case (Some kb)
      obtain k b where kb: "kb = (k, b)" by fastforce
      then have "i < k" using Some next_tag_bounds by fastforce
      then show ?thesis using less.hyps [OF lt] True nt lx Some kb tk by (cases b) simp_all
    qed
  next
    case False
    then show ?thesis using less.prems next_tag_step [of h i] lex_step [of i h] by (auto split: if_splits)
  qed
qed

lemma redact_run_hidden: "redact (Suc d) (map Chr s @ ts) = redact (Suc d) ts"
  by (induction s) auto

lemma redact_run_visible:
  "redact 0 (map Chr s @ ts) = (case redact 0 ts of (out, open_) \<Rightarrow> (map Chr s @ out, open_))"
  by (induction s) (auto split: prod.splits)

lemma next_tag_fits:
  "next_tag h i = Some (k, b) \<Longrightarrow> k + (if b then 10 else 9) \<le> length h"
proof (induction "length h - i" arbitrary: i rule: less_induct)
  case less
  show ?case
  proof (cases "i < length h \<and> \<not> close_at (drop i h) \<and> \<not> open_at (drop i h)")
    case True
    then have lt: "length h - Suc i < length h - i" by auto
    from True have "next_tag h (Suc i) = Some (k, b)" using less.prems next_tag_step [of h i] by simp
    then show ?thesis using less.hyps [OF lt] by simp
  next
    case False
    then show ?thesis using less.prems next_tag_step [of h i]
      by (auto simp: close_at_def open_at_def split: if_splits)
  qed
qed

lemma private_end_redact:
  "i \<le> length h \<Longrightarrow> redact (Suc d) (lex (drop i h)) =
     (case private_end h i (Suc d) of None \<Rightarrow> ([], True) | Some e \<Rightarrow> redact 0 (lex (drop e h)))
   \<and> (\<forall>e. private_end h i (Suc d) = Some e \<longrightarrow> e \<le> length h)"
proof (induction "length h - i" arbitrary: i d rule: less_induct)
  case less
  note lx = lex_next_tag [OF less.prems]
  show ?case
  proof (cases "next_tag h i")
    case None
    then show ?thesis
      using lx redact_run_hidden [of d "drop i h" "[]"] by (simp add: private_end.simps [of h i])
  next
    case (Some kb)
    obtain k b where kb: "kb = (k, b)" by fastforce
    have fits: "k + (if b then 10 else 9) \<le> length h" "i \<le> k"
      using Some kb next_tag_fits next_tag_bounds by blast+
    show ?thesis
    proof (cases b)
      case True
      show ?thesis
        using lx Some kb True fits less.hyps [of "k + 10" "d - 1"]
        by (cases d) (simp_all add: private_end.simps [of h i] redact_run_hidden Let_def)
    next
      case False
      show ?thesis
        using lx Some kb False fits less.hyps [of "k + 9" "Suc d"]
        by (simp add: private_end.simps [of h i] redact_run_hidden)
    qed
  qed
qed

lemma strip_go_redact:
  "i \<le> length h \<Longrightarrow>
   strip_go h i out = (case redact 0 (lex (drop i h)) of (ts, open_) \<Rightarrow> (out @ render ts, open_))"
proof (induction "length h - i" arbitrary: i out rule: less_induct)
  case less
  note lx = lex_next_tag [OF less.prems]
  show ?case
  proof (cases "next_tag h i")
    case None
    then show ?thesis
      using lx redact_run_visible [of "drop i h" "[]"] by (simp add: strip_go.simps [of h i])
  next
    case (Some kb)
    obtain k b where kb: "kb = (k, b)" by fastforce
    have fits: "k + (if b then 10 else 9) \<le> length h" "i \<le> k"
      using Some kb next_tag_fits next_tag_bounds by blast+
    have tk: "take (k + 10 - i) (drop i h) = take (k - i) (drop i h) @ take 10 (drop k h)"
      using fits take_add [of "k - i" 10 "drop i h"] by simp
    show ?thesis
    proof (cases b)
      case True
      show ?thesis
        using lx Some kb True fits tk less.hyps [of "k + 10"]
        by (simp add: strip_go.simps [of h i] redact_run_visible split: prod.splits)
    next
      case False
      have pe: "redact 1 (lex (drop (k + 9) h)) =
          (case private_end h (k + 9) 1 of None \<Rightarrow> ([], True) | Some e \<Rightarrow> redact 0 (lex (drop e h)))"
        and pb: "\<And>e. private_end h (k + 9) 1 = Some e \<Longrightarrow> e \<le> length h"
        using private_end_redact [of "k + 9" h 0] fits False by simp_all
      show ?thesis
      proof (cases "private_end h (k + 9) 1")
        case None
        then show ?thesis using lx Some kb False pe
          by (simp add: strip_go.simps [of h i] redact_run_visible Let_def)
      next
        case (Some e)
        then have "k + 9 < e" "e \<le> length h" using pb private_end_bound by blast+
        then show ?thesis using lx \<open>next_tag h i = Some kb\<close> kb False pe Some fits less.hyps [of e]
          by (simp add: strip_go.simps [of h i] redact_run_visible Let_def split: prod.splits)
      qed
    qed
  qed
qed

lemma strip_private_state_redact:
  "strip_private_state s = (case redact 0 (lex s) of (ts, open_) \<Rightarrow> (render ts, open_))"
  using strip_go_redact [of 0 s "[]"] by (simp add: strip_private_state_def)

subsection \<open>Lexing a concatenation\<close>

lemma close_at_nth:
  assumes "close_at s" "i < 10"
  shows "s ! i \<noteq> 91" and "0 < i \<Longrightarrow> s ! i \<noteq> 60"
proof -
  have "map ascii_lower (take 10 s) = map ascii_lower PRIVATE_CLOSE" "10 \<le> length s"
    using assms(1) by (simp_all add: close_at_def eq_ignore_case_def)
  then have n: "ascii_lower (s ! i) = ascii_lower (PRIVATE_CLOSE ! i)"
    using assms(2) by (metis length_tags(2) length_take min.absorb2 nth_map nth_take)
  have "\<forall>i\<in>{0..<10}. ascii_lower (PRIVATE_CLOSE ! i) \<noteq> 91 \<and> (0 < i \<longrightarrow> ascii_lower (PRIVATE_CLOSE ! i) \<noteq> 60)"
    by (simp add: tag_codes ascii_lower_def is_ascii_upper_def atLeastLessThan_nat_numeral flip: One_nat_def)
  with n assms(2) show "s ! i \<noteq> 91" and "0 < i \<Longrightarrow> s ! i \<noteq> 60"
    by (auto simp: ascii_lower_def is_ascii_upper_def split: if_splits)
qed

lemma open_at_nth:
  assumes "open_at s" "i < 9"
  shows "s ! i \<noteq> 91" and "0 < i \<Longrightarrow> s ! i \<noteq> 60"
proof -
  have "map ascii_lower (take 9 s) = map ascii_lower PRIVATE_OPEN" "9 \<le> length s"
    using assms(1) by (simp_all add: open_at_def eq_ignore_case_def)
  then have n: "ascii_lower (s ! i) = ascii_lower (PRIVATE_OPEN ! i)"
    using assms(2) by (metis length_tags(1) length_take min.absorb2 nth_map nth_take)
  have "\<forall>i\<in>{0..<9}. ascii_lower (PRIVATE_OPEN ! i) \<noteq> 91 \<and> (0 < i \<longrightarrow> ascii_lower (PRIVATE_OPEN ! i) \<noteq> 60)"
    by (simp add: tag_codes ascii_lower_def is_ascii_upper_def atLeastLessThan_nat_numeral flip: One_nat_def)
  with n assms(2) show "s ! i \<noteq> 91" and "0 < i \<Longrightarrow> s ! i \<noteq> 60"
    by (auto simp: ascii_lower_def is_ascii_upper_def split: if_splits)
qed

lemma tag_at_append:
  assumes "s \<noteq> []" "t = [] \<or> hd t \<in> {60, 91}"
  shows "close_at (s @ t) = close_at s" "open_at (s @ t) = open_at s"
proof -
  have hd_t: "(s @ t) ! length s = hd t" if "t \<noteq> []"
    using that by (cases t) (simp_all add: nth_append)
  have pos: "0 < length s" using assms(1) by simp
  have long: "length s \<ge> 10" if "close_at (s @ t)"
  proof (rule ccontr)
    assume "\<not> length s \<ge> 10"
    moreover have "t \<noteq> []" using that calculation by (auto simp: close_at_def)
    ultimately show False
      using close_at_nth [OF that, of "length s"] hd_t assms(2) pos by auto
  qed
  show "close_at (s @ t) = close_at s"
  proof (cases "10 \<le> length s")
    case False
    then have "\<not> close_at (s @ t)" using long by blast
    moreover have "\<not> close_at s" using False by (simp add: close_at_def)
    ultimately show ?thesis by simp
  qed (simp add: close_at_def)
  have long': "length s \<ge> 9" if "open_at (s @ t)"
  proof (rule ccontr)
    assume "\<not> length s \<ge> 9"
    moreover have "t \<noteq> []" using that calculation by (auto simp: open_at_def)
    ultimately show False
      using open_at_nth [OF that, of "length s"] hd_t assms(2) pos by auto
  qed
  show "open_at (s @ t) = open_at s"
  proof (cases "9 \<le> length s")
    case False
    then have "\<not> open_at (s @ t)" using long' by blast
    moreover have "\<not> open_at s" using False by (simp add: open_at_def)
    ultimately show ?thesis by simp
  qed (simp add: open_at_def)
qed

lemma lex_append: "t = [] \<or> hd t \<in> {60, 91} \<Longrightarrow> lex (s @ t) = lex s @ lex t"
proof (induction s rule: lex.induct)
  case (2 c s)
  have tag: "close_at ((c # s) @ t) = close_at (c # s)" "open_at ((c # s) @ t) = open_at (c # s)"
    using tag_at_append [of "c # s", OF list.distinct(2) "2.prems"] by blast+
  let ?x = "c # s"
  have step: "lex (?x @ t) = (if close_at ?x then Close (take 10 (?x @ t)) # lex (drop 10 (?x @ t))
      else if open_at ?x then Open (take 9 (?x @ t)) # lex (drop 9 (?x @ t)) else Chr c # lex (s @ t))"
    using lex.simps(2) [of c "s @ t"] tag by (simp only: append_Cons)
  consider (cl) "close_at ?x" | (op) "\<not> close_at ?x" "open_at ?x" | (ch) "\<not> close_at ?x" "\<not> open_at ?x"
    by blast
  then show ?case
  proof cases
    case cl
    then have "10 \<le> length ?x" by (simp add: close_at_def)
    then have "take 10 (?x @ t) = take 10 ?x" "drop 10 (?x @ t) = drop 10 ?x @ t"
      by (simp_all only: take_append drop_append diff_is_0_eq' take_0 drop_0 append_Nil2)
    then show ?thesis using cl step "2.IH"(1) [OF cl "2.prems"] lex.simps(2) [of c s] by (simp only: if_True append_Cons)
  next
    case op
    then have "9 \<le> length ?x" by (simp add: open_at_def)
    then have "take 9 (?x @ t) = take 9 ?x" "drop 9 (?x @ t) = drop 9 ?x @ t"
      by (simp_all only: take_append drop_append diff_is_0_eq' take_0 drop_0 append_Nil2)
    then show ?thesis using op step "2.IH"(2) [OF op "2.prems"] lex.simps(2) [of c s]
      by (simp only: if_True if_False append_Cons)
  next
    case ch
    then show ?thesis using step "2.IH"(3) [OF ch "2.prems"] lex.simps(2) [of c s]
      by (simp only: if_False append_Cons)
  qed
qed simp

lemma lex_plain: "c \<noteq> 60 \<Longrightarrow> lex (c # s) = Chr c # lex s"
  using tag_head [of "c # s"] by (auto simp: lex.simps(2))

lemma lex_run_plain: "60 \<notin> set p \<Longrightarrow> lex (p @ s) = map Chr p @ lex s"
  by (induction p) (auto simp: lex_plain)

lemma lex_no_tag: "next_tag s 0 = None \<Longrightarrow> lex s = map Chr s"
  using lex_next_tag [of 0 s] by simp

lemma lex_open: "open_at r \<Longrightarrow> length r = 9 \<Longrightarrow> lex (r @ s) = Open r # lex s"
proof -
  assume r: "open_at r" "length r = 9"
  have "\<not> close_at (r @ s)"
  proof
    assume c: "close_at (r @ s)"
    have "map ascii_lower (take 10 (r @ s)) ! 1 = map ascii_lower PRIVATE_CLOSE ! 1"
      using c by (simp add: close_at_def eq_ignore_case_def)
    moreover have "map ascii_lower (take 9 r) ! 1 = map ascii_lower PRIVATE_OPEN ! 1"
      using r by (simp add: open_at_def eq_ignore_case_def)
    ultimately show False
      using r c by (simp add: close_at_def nth_append tag_codes ascii_lower_def is_ascii_upper_def split: if_splits)
  qed
  moreover have "open_at (r @ s)" using r by (simp add: open_at_def)
  moreover obtain c r' where "r = c # r'" using r by (cases r) auto
  ultimately show ?thesis using r by (simp add: lex.simps(2) drop_Cons' take_Cons')
qed

lemma lex_close: "close_at r \<Longrightarrow> length r = 10 \<Longrightarrow> lex (r @ s) = Close r # lex s"
proof -
  assume r: "close_at r" "length r = 10"
  then have "close_at (r @ s)" by (simp add: close_at_def)
  moreover obtain c r' where "r = c # r'" using r by (cases r) auto
  ultimately show ?thesis using r by (simp add: lex.simps(2) drop_Cons' take_Cons')
qed

lemma lex_first:
  assumes "lex s = t # ts"
  shows "s = render1 t @ render ts \<and> lex (render ts) = ts \<and>
     (case t of Chr c \<Rightarrow> \<not> close_at s \<and> \<not> open_at s | Open r \<Rightarrow> open_at r \<and> length r = 9
      | Close r \<Rightarrow> close_at r \<and> length r = 10)"
proof -
  obtain c s' where s: "s = c # s'" using assms by (cases s) auto
  have r: "s = render1 t @ render ts" using render_lex [of s] assms by simp
  have "\<exists>u. ts = lex u" using assms s by (auto simp: lex.simps(2) split: if_splits)
  then have "lex (render ts) = ts" by (auto simp: render_lex)
  moreover have "close_at (take 10 s)" "length (take 10 s) = 10" if "close_at s"
    using that by (simp_all add: close_at_def)
  moreover have "open_at (take 9 s)" "length (take 9 s) = 9" if "open_at s"
    using that by (simp_all add: open_at_def)
  ultimately show ?thesis using assms s r by (auto simp: lex.simps(2) split: if_splits)
qed

lemma lexes_prefix: "lex (render (ts @ us)) = ts @ us \<Longrightarrow> lex (render ts) = ts"
proof (induction ts)
  case (Cons t ts)
  note f = lex_first [OF Cons.prems [simplified]]
  have IH: "lex (render ts) = ts" using Cons.IH f by simp
  show ?case
  proof (cases t)
    case (Chr c)
    then have "\<not> close_at (c # render ts)" "\<not> open_at (c # render ts)"
      using f by (auto simp: close_at_def open_at_def)
    then show ?thesis using Chr IH by (simp add: lex.simps(2))
  qed (use f IH lex_open lex_close in auto)
qed simp

subsection \<open>What is written is already clean\<close>

definition is_open :: "token \<Rightarrow> bool" where
  "is_open t = (case t of Open r \<Rightarrow> True | _ \<Rightarrow> False)"

lemma redact_visible: "\<forall>t\<in>set vis. \<not> is_open t \<Longrightarrow>
   redact 0 (vis @ ts) = (case redact 0 ts of (out, open_) \<Rightarrow> (vis @ out, open_))"
  by (induction vis) (auto simp: is_open_def split: token.splits prod.splits)

lemma lex_private_mark: "lex (lit ''[PRIVATE]'' @ s) = map Chr (lit ''[PRIVATE]'') @ lex s"
  by (rule lex_run_plain) (simp add: lit_def)

lemma redact_lexes:
  "lex (render ts) = ts \<Longrightarrow>
   lex (render (fst (redact d ts))) = fst (redact d ts) \<and> (\<forall>t\<in>set (fst (redact d ts)). \<not> is_open t)"
proof (induction "length ts" arbitrary: ts d rule: less_induct)
  case less
  show ?case
  proof (cases d)
    case (Suc e)
    show ?thesis
    proof (cases ts)
      case (Cons t us)
      then have "lex (render us) = us" using lex_first less.prems by fastforce
      then show ?thesis using less.hyps [of us] Cons Suc by (cases t) auto
    qed simp
  next
    case 0
    define vis where "vis = takeWhile (\<lambda>t. \<not> is_open t) ts"
    define rest where "rest = dropWhile (\<lambda>t. \<not> is_open t) ts"
    have ts: "ts = vis @ rest" and no: "\<forall>t\<in>set vis. \<not> is_open t"
      by (auto simp: vis_def rest_def dest: set_takeWhileD)
    have lv: "lex (render vis) = vis" using less.prems ts lexes_prefix by blast
    show ?thesis
    proof (cases rest)
      case Nil
      then show ?thesis using 0 ts no lv redact_visible [of vis "[]"] by simp
    next
      case (Cons ot us)
      have "is_open ot" using Cons hd_dropWhile [of "\<lambda>t. \<not> is_open t" ts] by (auto simp: rest_def)
      then obtain r where ot: "ot = Open r" by (auto simp: is_open_def split: token.splits)
      have "lex (render (ot # us)) = ot # us"
      proof -
        have "lex (render vis @ render rest) = lex (render vis) @ lex (render rest)"
        proof (rule lex_append)
          have "length vis \<le> length (lex (render ts))" using less.prems ts by simp
          have "open_at r"
            using less.prems ts Cons ot lv
          proof (induction vis arbitrary: ts)
            case Nil
            then show ?case using lex_first [of "render (ot # us)" ot us] by simp
          next
            case (Cons v vis)
            then have "lex (render (v # vis @ rest)) = v # vis @ rest" by simp
            from lex_first [OF this] have "lex (render (vis @ rest)) = vis @ rest" by simp
            moreover have "lex (render vis) = vis" using calculation lexes_prefix by blast
            ultimately show ?case using Cons.IH [of "vis @ rest"] Cons.prems by simp
          qed
          then show "render rest = [] \<or> hd (render rest) \<in> {60, 91}"
            using tag_head [of r] Cons ot by auto
        qed
        then show ?thesis using less.prems ts lv Cons by simp
      qed
      then have lu: "lex (render us) = us" using lex_first by fastforce
      have "length us < length ts" using ts Cons by simp
      from less.hyps [OF this lu, of 1]
      have IH: "lex (render (fst (redact 1 us))) = fst (redact 1 us)"
        "\<forall>t\<in>set (fst (redact 1 us)). \<not> is_open t" by blast+
      have out: "fst (redact 0 ts) = vis @ map Chr (lit ''[PRIVATE]'') @ fst (redact 1 us)"
        using ts Cons ot redact_visible [OF no, of rest] by (simp split: prod.splits)
      have "lex (render vis @ lit ''[PRIVATE]'' @ render (fst (redact 1 us))) =
          vis @ map Chr (lit ''[PRIVATE]'') @ fst (redact 1 us)"
        using lex_append [of "lit ''[PRIVATE]'' @ render (fst (redact 1 us))" "render vis"] lv IH
        by (simp add: lex_private_mark) (simp add: lit_def)
      then show ?thesis using 0 out no IH by (auto simp: is_open_def)
    qed
  qed
qed

subsection \<open>Properties\<close>

text \<open>
  C2: the offset-driven walk over the text writes exactly what the depth machine writes on its
  token stream, and reports an unbalanced opener exactly when the machine ends inside a region.
\<close>
theorem strip_private_refines:
  "strip_private_state s = (render (fst (redact 0 (lex s))), snd (redact 0 (lex s)))"
  by (simp add: strip_private_state_redact split: prod.splits)

text \<open>
  what the strip writes holds no private opener any more, so stripping again (the write
  boundary does, over model output) changes nothing and never reports an open region.
\<close>
theorem strip_private_idempotent:
  "strip_private (strip_private s) = strip_private s \<and> \<not> leaves_private_open (strip_private s)"
proof -
  let ?out = "fst (redact 0 (lex s))"
  have lx: "lex (render ?out) = ?out" and no: "\<forall>t\<in>set ?out. \<not> is_open t"
    using redact_lexes [of "lex s" 0] by (simp_all add: render_lex)
  have "redact 0 ?out = (?out, False)"
    using redact_visible [OF no, of "[]"] by simp
  moreover have "strip_private s = render ?out"
    by (simp add: strip_private_def strip_private_state_redact split: prod.splits)
  ultimately show ?thesis
    using lx by (simp add: strip_private_def leaves_private_open_def strip_private_state_redact)
qed

lemma tag_char_facts:
  "eq_ignore_case opn PRIVATE_OPEN \<Longrightarrow> open_at opn \<and> length opn = 9 \<and> hd opn = 60 \<and> opn \<noteq> []"
  "eq_ignore_case cl PRIVATE_CLOSE \<Longrightarrow> close_at cl \<and> length cl = 10 \<and> hd cl = 60 \<and> cl \<noteq> []"
proof -
  have len: "length a = length b" if "eq_ignore_case a b" for a b
    using that by (metis eq_ignore_case_def length_map)
  show "open_at opn \<and> length opn = 9 \<and> hd opn = 60 \<and> opn \<noteq> []" if "eq_ignore_case opn PRIVATE_OPEN"
    using that len [OF that] tag_head [of opn] by (auto simp: open_at_def)
  show "close_at cl \<and> length cl = 10 \<and> hd cl = 60 \<and> cl \<noteq> []" if "eq_ignore_case cl PRIVATE_CLOSE"
    using that len [OF that] tag_head [of cl] by (auto simp: close_at_def)
qed

lemma lex_region:
  assumes "next_tag a 0 = None" "next_tag secret 0 = None"
    "eq_ignore_case opn PRIVATE_OPEN" "eq_ignore_case cl PRIVATE_CLOSE"
  shows "lex (a @ opn @ secret @ cl @ b) = map Chr a @ Open opn # map Chr secret @ Close cl # lex b"
    and "lex (a @ opn @ secret) = map Chr a @ Open opn # map Chr secret"
  using assms tag_char_facts [of opn] tag_char_facts [of cl]
  by (simp_all add: lex_append lex_no_tag lex_open lex_close)

text \<open>
  a region in tags of any letter case is replaced by the mark, whatever it holds: the text
  around it is kept and what follows is stripped on its own.
\<close>
theorem private_region_removed:
  assumes "next_tag a 0 = None" "next_tag secret 0 = None"
    "eq_ignore_case opn PRIVATE_OPEN" "eq_ignore_case cl PRIVATE_CLOSE"
  shows "strip_private (a @ opn @ secret @ cl @ b) = a @ lit ''[PRIVATE]'' @ strip_private b"
  using lex_region(1) [OF assms, of b]
  by (simp add: strip_private_def strip_private_state_redact redact_run_visible redact_run_hidden
      split: prod.splits)

theorem private_region_removed_witness:
  "next_tag (lit ''key '') 0 = None \<and>
   strip_private (lit ''key '' @ lit ''<PRIVATE>'' @ lit ''hunter2'' @ lit ''</private>'' @ lit '' ok'')
     = lit ''key '' @ lit ''[PRIVATE]'' @ strip_private (lit '' ok'')"
proof -
  have h: "next_tag (lit ''key '') 0 = None" "next_tag (lit ''hunter2'') 0 = None"
    "eq_ignore_case (lit ''<PRIVATE>'') PRIVATE_OPEN" "eq_ignore_case (lit ''</private>'') PRIVATE_CLOSE"
    by code_simp+
  from private_region_removed [OF h, of "lit '' ok''"] h(1) show ?thesis by simp
qed

text \<open>
  the strip fails closed: after an opener that no close balances nothing is kept, and the
  caller that scrubs piece by piece is told that the region is still open.
\<close>
theorem private_unclosed_drops_rest:
  assumes "next_tag a 0 = None" "next_tag secret 0 = None" "eq_ignore_case opn PRIVATE_OPEN"
  shows "strip_private_state (a @ opn @ secret) = (a @ lit ''[PRIVATE]'', True)"
proof -
  have "eq_ignore_case PRIVATE_CLOSE PRIVATE_CLOSE" by (simp add: eq_ignore_case_def)
  from lex_region(2) [OF assms this] show ?thesis
    using redact_run_hidden [of 0 secret "[]"]
    by (simp add: strip_private_state_redact redact_run_visible split: prod.splits)
qed

theorem private_unclosed_drops_rest_witness:
  "strip_private_state (lit ''a'' @ lit ''<private>'' @ lit ''b'') = (lit ''a'' @ lit ''[PRIVATE]'', True)"
proof -
  have h: "next_tag (lit ''a'') 0 = None" "next_tag (lit ''b'') 0 = None"
    "eq_ignore_case (lit ''<private>'') PRIVATE_OPEN"
    by code_simp+
  from private_unclosed_drops_rest [OF h] show ?thesis .
qed

section \<open>Bounded truncation\<close>

definition ELLIPSIS :: nat where "ELLIPSIS = 8230"

fun head_end :: "nat \<Rightarrow> nat \<Rightarrow> rstr \<Rightarrow> nat \<Rightarrow> nat" where
  "head_end limit index [] e = e"
| "head_end limit index (c # cs) e =
     (let next = index + len_utf8 c in
      if next > limit then e else head_end limit next cs next)"

definition truncate_text :: "rstr \<Rightarrow> nat \<Rightarrow> rstr option" where
  "truncate_text input mx =
     (if blen input \<le> mx then Some input
      else if mx < len_utf8 ELLIPSIS then Some []
      else let limit = mx - len_utf8 ELLIPSIS; e = head_end limit 0 input 0 in
        map_option (\<lambda>(head, _). head @ [ELLIPSIS]) (split_bytes e input))"

fun find_tail :: "nat \<Rightarrow> nat list \<Rightarrow> nat \<Rightarrow> nat" where
  "find_tail target [] tail_start = tail_start"
| "find_tail target (index # more) tail_start =
     (if index \<le> target then index else find_tail target more index)"

definition MARKER_RESERVE :: nat where "MARKER_RESERVE = 48"

definition truncated_marker :: "nat \<Rightarrow> rstr" where
  "truncated_marker omitted = [10] @ lit ''...[truncated '' @ dec omitted @ lit '' bytes]...'' @ [10]"

definition truncate_head_tail :: "rstr \<Rightarrow> nat \<Rightarrow> rstr option" where
  "truncate_head_tail input mx =
     (if blen input \<le> mx then Some input
      else if mx < 64 then truncate_text input mx
      else let half = (mx - MARKER_RESERVE) div 2;
               head = head_end half 0 input 0;
               tail_target = blen input - half;
               tail_start = find_tail tail_target (rev (char_starts 0 input)) (blen input);
               tail_start = (if tail_start < head then head else tail_start);
               omitted = tail_start - head
           in case (split_bytes head input, split_bytes tail_start input) of
                (Some (h, _), Some (_, t)) \<Rightarrow> Some (h @ truncated_marker omitted @ t)
              | _ \<Rightarrow> None)"

lemma head_end_prefix:
  "\<exists>h t. s = h @ t \<and> head_end limit i s i = i + blen h \<and> (h = [] \<or> i + blen h \<le> limit)
       \<and> (t \<noteq> [] \<longrightarrow> limit < i + blen h + len_utf8 (hd t))"
proof (induction s arbitrary: i)
  case (Cons c s)
  show ?case
  proof (cases "i + len_utf8 c > limit")
    case True
    then show ?thesis by (intro exI [of _ "[]"] exI [of _ "c # s"]) simp
  next
    case False
    obtain h t where "s = h @ t" "head_end limit (i + len_utf8 c) s (i + len_utf8 c) = i + len_utf8 c + blen h"
      "h = [] \<or> i + len_utf8 c + blen h \<le> limit" "t \<noteq> [] \<longrightarrow> limit < i + len_utf8 c + blen h + len_utf8 (hd t)"
      using Cons.IH [of "i + len_utf8 c"] by blast
    with False show ?thesis by (intro exI [of _ "c # h"] exI [of _ t]) auto
  qed
qed simp

lemma head_end_cut: "\<exists>h t. s = h @ t \<and> head_end limit 0 s 0 = blen h \<and> blen h \<le> limit"
  using head_end_prefix [of s limit 0] by (metis add_0 blen_simps(1) le0)

lemma find_tail_char:
  "target < blen s \<Longrightarrow>
   \<exists>a c b. s = a @ c # b \<and> find_tail target (rev (char_starts 0 s)) acc = blen a \<and>
      blen a \<le> target \<and> target < blen a + len_utf8 c"
proof (induction s arbitrary: acc rule: rev_induct)
  case (snoc c s)
  show ?case
  proof (cases "blen s \<le> target")
    case True
    then show ?thesis using snoc.prems
      by (intro exI [of _ s] exI [of _ c] exI [of _ "[]"]) (simp add: char_starts_append)
  next
    case False
    then obtain a d b where "s = a @ d # b" "find_tail target (rev (char_starts 0 s)) (blen s) = blen a"
      "blen a \<le> target" "target < blen a + len_utf8 d"
      using snoc.IH [of "blen s"] by auto
    moreover have "find_tail target (rev (char_starts 0 (s @ [c]))) acc = find_tail target (rev (char_starts 0 s)) (blen s)"
      using False by (simp add: char_starts_append)
    ultimately show ?thesis by (metis append.assoc append_Cons)
  qed
qed simp

lemma len_ellipsis [simp]: "len_utf8 ELLIPSIS = 3"
  by (simp add: ELLIPSIS_def len_utf8_def)

lemma truncate_prefix:
  assumes "mx < blen input" "3 \<le> mx"
  shows "\<exists>h t. input = h @ t \<and> truncate_text input mx = Some (h @ [ELLIPSIS]) \<and> blen h + 3 \<le> mx"
proof -
  obtain h t where "input = h @ t" "head_end (mx - 3) 0 input 0 = blen h" "blen h \<le> mx - 3"
    using head_end_cut [of input "mx - 3"] by blast
  then show ?thesis using assms
    by (intro exI [of _ h] exI [of _ t]) (auto simp: truncate_text_def split_bytes_blen)
qed

lemma truncate_bounded: "\<exists>out. truncate_text input mx = Some out \<and> blen out \<le> mx"
proof (cases "blen input \<le> mx \<or> mx < 3")
  case True
  then show ?thesis by (auto simp: truncate_text_def)
next
  case False
  then show ?thesis using truncate_prefix [of mx input] by fastforce
qed

lemma blen_marker: "n < 10 ^ 19 \<Longrightarrow> blen (truncated_marker n) \<le> 45"
  using length_dec [of n 19] blen_ascii [OF ascii_dec, of n]
  by (simp add: truncated_marker_def lit_def len_utf8_def)

lemma head_tail_split:
  assumes "64 \<le> mx" "mx < blen input"
  shows "\<exists>h m t. input = h @ m @ t \<and>
      truncate_head_tail input mx = Some (h @ truncated_marker (blen m) @ t) \<and>
      blen h \<le> (mx - 48) div 2 \<and> (mx - 48) div 2 \<le> blen t \<and> blen t \<le> (mx - 48) div 2 + 3"
proof -
  define half where "half = (mx - 48) div 2"
  have half: "2 * half \<le> mx - 48" "half < blen input" "8 \<le> half" using assms by (auto simp: half_def)
  obtain h r where h: "input = h @ r" "head_end half 0 input 0 = blen h" "blen h \<le> half"
    using head_end_cut [of input half] by blast
  obtain a c b where t: "input = a @ c # b"
    "find_tail (blen input - half) (rev (char_starts 0 input)) (blen input) = blen a"
    "blen a \<le> blen input - half" "blen input - half < blen a + len_utf8 c"
    using find_tail_char [of "blen input - half" input "blen input"] half by auto
  have len_a: "blen input < blen a + half + 4" using t half len_utf8_bounds(2) [of c] by linarith
  have "blen h \<le> blen a" using len_a h half assms by linarith
  then obtain m where a: "a = h @ m"
    using h(1) t(1) by (metis append_eq_append_conv2 blen_simps(3) le_add_same_cancel1 blen_0_iff add_le_same_cancel1 le_zero_eq append_Nil2)
  have tail: "half \<le> blen (c # b)" "blen (c # b) \<le> half + 3"
    using t h a len_a half assms by auto
  have "truncate_head_tail input mx = Some (h @ truncated_marker (blen m) @ c # b)"
    using assms h t a half_def split_bytes_blen [of h "m @ c # b"] split_bytes_blen [of a "c # b"]
    by (simp add: truncate_head_tail_def Let_def MARKER_RESERVE_def)
  then show ?thesis
    using h t a tail half_def by (intro exI [of _ h] exI [of _ m] exI [of _ "c # b"]) simp
qed

lemma truncate_head_tail_total: "\<exists>out. truncate_head_tail input mx = Some out"
proof (cases "blen input \<le> mx \<or> mx < 64")
  case True
  then show ?thesis using truncate_bounded [of input mx] by (auto simp: truncate_head_tail_def)
next
  case False
  then show ?thesis using head_tail_split [of mx input] by auto
qed

lemma head_tail_cut:
  assumes "64 \<le> mx" "mx < blen input" "blen input < 10 ^ 19"
  shows "\<exists>h m t. input = h @ m @ t \<and>
      truncate_head_tail input mx = Some (h @ truncated_marker (blen m) @ t) \<and>
      blen h \<le> (mx - 48) div 2 \<and> (mx - 48) div 2 \<le> blen t \<and>
      blen (h @ truncated_marker (blen m) @ t) \<le> mx"
proof -
  obtain h m t where c: "input = h @ m @ t" "truncate_head_tail input mx = Some (h @ truncated_marker (blen m) @ t)"
    "blen h \<le> (mx - 48) div 2" "(mx - 48) div 2 \<le> blen t" "blen t \<le> (mx - 48) div 2 + 3"
    using head_tail_split [OF assms(1,2)] by blast
  have "blen m < 10 ^ 19" using c(1) assms(3) by simp
  from blen_marker [OF this] have "blen (h @ truncated_marker (blen m) @ t) \<le> mx"
    using c assms(1) by simp
  then show ?thesis using c by blast
qed

text \<open>
  past 64 bytes the cut keeps a head of at most half the budget and a tail of at least that
  half, elides exactly the middle it reports, never cuts a character (no slice panics), and the
  48 reserved bytes are enough for the marker and for a tail that starts up to three bytes early:
  the result fits the budget.
\<close>
theorem head_tail_keeps_both_ends:
  assumes "64 \<le> mx" "mx < blen input" "blen input < 10 ^ 19"
  shows "\<exists>h m t. input = h @ m @ t \<and>
      truncate_head_tail input mx = Some (h @ truncated_marker (blen m) @ t) \<and>
      blen h \<le> (mx - 48) div 2 \<and> (mx - 48) div 2 \<le> blen t \<and>
      blen (h @ truncated_marker (blen m) @ t) \<le> mx"
  using assms by (rule head_tail_cut)

theorem head_tail_keeps_both_ends_witness:
  "\<exists>h m t. replicate 100 (3588::nat) = h @ m @ t \<and>
     truncate_head_tail (replicate 100 3588) 64 = Some (h @ truncated_marker (blen m) @ t) \<and>
     blen h \<le> (64 - 48) div 2 \<and> (64 - 48) div 2 \<le> blen t \<and>
     blen (h @ truncated_marker (blen m) @ t) \<le> 64"
  by (rule head_tail_keeps_both_ends) (simp_all add: blen_def len_utf8_def sum_list_replicate)

lemma truncate_head_tail_bounded':
  "blen input < 10 ^ 19 \<Longrightarrow> \<exists>out. truncate_head_tail input mx = Some out \<and> blen out \<le> mx"
proof (cases "blen input \<le> mx \<or> mx < 64")
  case True
  then show ?thesis using truncate_bounded [of input mx] by (auto simp: truncate_head_tail_def)
next
  case False
  assume "blen input < 10 ^ 19"
  with False obtain h m t where "truncate_head_tail input mx = Some (h @ truncated_marker (blen m) @ t)"
    "blen (h @ truncated_marker (blen m) @ t) \<le> mx"
    using head_tail_cut [of mx input] by auto
  then show ?thesis by blast
qed

text \<open>
  for every budget the truncation returns, without a panic, a text within the budget; the
  length bound is far above the largest string Rust can hold.
\<close>
theorem truncate_head_tail_within:
  assumes "blen input < 10 ^ 19"
  shows "\<exists>out. truncate_head_tail input mx = Some out \<and> blen out \<le> mx"
  using assms by (rule truncate_head_tail_bounded')

theorem truncate_head_tail_within_witness:
  "\<exists>out. truncate_head_tail (lit ''abcdef'') 4 = Some out \<and> blen out \<le> 4"
  by (rule truncate_head_tail_within) (simp add: blen_def lit_def len_utf8_def)

section \<open>Redaction\<close>

datatype seg = Plain rstr | Hit rstr

type_synonym pattern = "rstr \<Rightarrow> seg list"

fun seg_text :: "seg \<Rightarrow> rstr" where
  "seg_text (Plain s) = s" | "seg_text (Hit s) = s"

record sanitizer =
  patterns :: "pattern list"
  allowlist :: "rstr list"

definition BODY_MAX_BYTES :: nat where "BODY_MAX_BYTES = 16 * 1024"

definition names_where_a_secret_lives :: "(rstr \<Rightarrow> bool) \<Rightarrow> rstr \<Rightarrow> bool" where
  "names_where_a_secret_lives is_reference matched =
     (case dropWhile (\<lambda>c. c \<noteq> 61 \<and> c \<noteq> 58) matched of
        [] \<Rightarrow> False
      | _ # value \<Rightarrow> is_reference (trim_start_by is_ws value))"

definition replace_hits :: "(rstr \<Rightarrow> bool) \<Rightarrow> rstr list \<Rightarrow> pattern \<Rightarrow> rstr \<Rightarrow> rstr" where
  "replace_hits is_reference allowed pattern out =
     concat (map (\<lambda>seg. case seg of
         Plain s \<Rightarrow> s
       | Hit matched \<Rightarrow>
           (if list_ex (contains matched) allowed \<or> names_where_a_secret_lives is_reference matched
            then matched else lit ''[REDACTED]'')) (pattern out))"

definition scrub :: "(rstr \<Rightarrow> bool) \<Rightarrow> sanitizer \<Rightarrow> rstr \<Rightarrow> rstr" where
  "scrub is_reference self input =
     foldl (\<lambda>out pattern. replace_hits is_reference (allowlist self) pattern out)
       (strip_private input) (patterns self)"

definition scrub_body :: "(rstr \<Rightarrow> bool) \<Rightarrow> sanitizer \<Rightarrow> rstr \<Rightarrow> rstr option" where
  "scrub_body is_reference self input =
     truncate_head_tail (scrub is_reference self input) BODY_MAX_BYTES"

definition clamp_leaf :: "pattern \<Rightarrow> rstr \<Rightarrow> nat \<Rightarrow> rstr option" where
  "clamp_leaf base64 input mx =
     truncate_head_tail
       (concat (map (\<lambda>seg. case seg of
           Plain s \<Rightarrow> s
         | Hit run \<Rightarrow> lit ''[base64 '' @ dec (blen run) @ lit '' bytes]'') (base64 input))) mx"

lemma clamp_leaf_bounded:
  "blen (concat (map seg_text (base64 input))) < 10 ^ 18 \<Longrightarrow>
   (\<And>run. Hit run \<in> set (base64 input) \<Longrightarrow> 4096 \<le> blen run) \<Longrightarrow>
   \<exists>out. clamp_leaf base64 input mx = Some out \<and> blen out \<le> mx"
  unfolding clamp_leaf_def
proof (rule truncate_head_tail_bounded')
  assume a: "blen (concat (map seg_text (base64 input))) < 10 ^ 18"
    and h: "\<And>run. Hit run \<in> set (base64 input) \<Longrightarrow> 4096 \<le> blen run"
  let ?f = "\<lambda>seg. case seg of Plain s \<Rightarrow> s | Hit run \<Rightarrow> lit ''[base64 '' @ dec (blen run) @ lit '' bytes]''"
  have "blen (?f sg) \<le> blen (seg_text sg)" if "sg \<in> set (base64 input)" for sg
  proof (cases sg)
    case (Hit run)
    have "blen (dec (blen run)) \<le> 18"
      using length_dec [of "blen run" 18] blen_ascii [OF ascii_dec] a Hit
        blen_concat_mem [OF that, of seg_text] by simp
    then show ?thesis using h [of run] that Hit by (simp add: lit_def len_utf8_def)
  qed simp
  then have "blen (concat (map ?f (base64 input))) \<le> blen (concat (map seg_text (base64 input)))"
    by (intro blen_concat_mono) blast
  then show "blen (concat (map ?f (base64 input))) < 10 ^ 19" using a by simp
qed



end
