(* ===== verification/Store_Tables.thy ===== *)
theory Store_Tables
  imports Events Sanitize
begin

text \<open>
  The SQLite index of \<open>src/src/store.rs\<close> as data: one record of tables, a table a list of
  records in rowid order. Columns keep their names behind a short prefix; a 0/1 column is a
  \<open>bool\<close>, a counter an \<open>int\<close>, a JSON array column the list it encodes (\<open>None\<close> for NULL).
  The text indexes, the vectors' contents and SQLite's own errors are not modelled.

  What the code takes from other crates while it indexes is the record \<open>extern\<close>: Unicode lower
  case, the JSON parser and printer of \<open>serde_json\<close>, and the compiled base64 pattern.
\<close>

record extern =
  x_lowercase :: "rstr \<Rightarrow> rstr"
  x_json :: "rstr \<Rightarrow> json option"
  x_print :: "json \<Rightarrow> rstr"
  x_base64 :: pattern

record event_row =
  r_rowid :: int
  r_id :: rstr
  r_ts :: rstr
  r_workspace :: rstr
  r_project :: rstr
  r_session :: rstr
  r_cli :: rstr
  r_hook :: rstr
  r_kind :: event_kind
  r_title :: rstr
  r_body :: rstr
  r_files :: "rstr list"
  r_topic :: "rstr option"
  r_invocation :: "rstr option"
  r_forgotten :: nat
  r_corrected_by :: "rstr option"
  r_read_count :: int
  r_injected_count :: int
  r_confidence :: int
  r_consolidated :: bool
  r_team :: bool
  r_agent :: "rstr option"
  r_clamped :: bool
  r_class :: "rstr option"
  r_expires_at :: "rstr option"
  r_stale_since :: "rstr option"
  r_cites :: "rstr list option"
  r_scope :: "rstr option"

record file_row =
  f_event :: rstr
  f_path :: rstr
  f_project :: rstr

record trigger_row =
  t_event :: rstr
  t_program :: rstr
  t_sub :: rstr

record recall_row =
  c_session :: rstr
  c_event :: rstr
  c_opened :: bool
  c_host :: "rstr option"

record injected_row =
  i_session :: rstr
  i_event :: rstr
  i_active :: bool
  i_in_flight :: bool

record session_row =
  s_session :: rstr
  s_project :: rstr
  s_last_run_at :: "rstr option"
  s_last_event_id :: "rstr option"
  s_last_tier :: "rstr option"
  s_claimed_at :: "rstr option"
  s_attempts :: int
  s_last_error :: "rstr option"
  s_last_attempt_at :: "rstr option"

record health_row =
  h_cli :: rstr
  h_failures :: int
  h_cooldown_until :: "rstr option"
  h_last_error :: "rstr option"
  h_last_failed_at :: "rstr option"

record request_row =
  q_id :: int
  q_session :: "rstr option"
  q_all :: bool
  q_force :: bool
  q_cwd :: rstr
  q_requested_at :: rstr
  q_consumed_at :: "rstr option"

record knowledge_row =
  k_project :: rstr
  k_last_synth_at :: "rstr option"
  k_sessions_since :: int

record store =
  events :: "event_row list"
  event_files :: "file_row list"
  lesson_triggers :: "trigger_row list"
  schema_state :: "(rstr \<times> rstr) list"
  recalled :: "recall_row list"
  injected :: "injected_row list"
  injected_bytes :: "(rstr \<times> int) list"
  injected_files :: "(rstr \<times> rstr) list"
  session_state :: "session_row list"
  session_invocation :: "(rstr \<times> rstr) list"
  summarizer_health :: "health_row list"
  knowledge_state :: "knowledge_row list"
  consolidation_requests :: "request_row list"
  event_vec :: "(rstr \<times> nat) list"

definition empty_store :: store where
  "empty_store = \<lparr>events = [], event_files = [], lesson_triggers = [], schema_state = [],
     recalled = [], injected = [], injected_bytes = [], injected_files = [], session_state = [],
     session_invocation = [], summarizer_health = [], knowledge_state = [],
     consolidation_requests = [], event_vec = []\<rparr>"

abbreviation event_of :: "rstr \<Rightarrow> store \<Rightarrow> event_row option" where
  "event_of i db \<equiv> row_of r_id i (events db)"

text \<open>\<open>UPDATE events SET ... WHERE id = ?\<close>.\<close>

definition upd_event :: "rstr \<Rightarrow> (event_row \<Rightarrow> event_row) \<Rightarrow> store \<Rightarrow> store" where
  "upd_event i f db = db\<lparr>events := upd (\<lambda>r. r_id r = i) f (events db)\<rparr>"

lemma upd_event_simps [table_simps]:
  "event_files (upd_event i f db) = event_files db"
  "lesson_triggers (upd_event i f db) = lesson_triggers db"
  "schema_state (upd_event i f db) = schema_state db"
  "recalled (upd_event i f db) = recalled db"
  "injected (upd_event i f db) = injected db"
  "injected_bytes (upd_event i f db) = injected_bytes db"
  "injected_files (upd_event i f db) = injected_files db"
  "session_state (upd_event i f db) = session_state db"
  "events (upd_event i f db) = upd (\<lambda>r. r_id r = i) f (events db)"
  by (simp_all add: upd_event_def)

lemma event_of_upd [table_simps]:
  "(\<And>r. r_id r = i \<Longrightarrow> r_id (f r) = i) \<Longrightarrow>
   event_of j (upd_event i f db) = (if j = i then map_option f (event_of j db) else event_of j db)"
  by (cases "event_of j db") (auto simp: upd_event_def row_of_upd dest: row_of_Some)

subsection \<open>The key-value table\<close>

text \<open>\<open>INSERT OR REPLACE\<close> deletes the old row and appends the new one.\<close>

definition state_get :: "rstr \<Rightarrow> store \<Rightarrow> rstr option" where
  "state_get key db = map_option snd (row_of fst key (schema_state db))"

definition set_state :: "rstr \<Rightarrow> rstr \<Rightarrow> store \<Rightarrow> store" where
  "set_state key value db =
     db\<lparr>schema_state := del (\<lambda>kv. fst kv = key) (schema_state db) @ [(key, value)]\<rparr>"

definition clear_state :: "rstr \<Rightarrow> store \<Rightarrow> store" where
  "clear_state key db = db\<lparr>schema_state := del (\<lambda>kv. fst kv = key) (schema_state db)\<rparr>"

lemma row_of_del: "row_of k x (del (\<lambda>r. k r = y) t) = (if x = y then None else row_of k x t)"
  by (induction t) (auto simp: row_of_def del_def)

lemma state_get_set [simp]: "state_get k (set_state k' v db) = (if k = k' then Some v else state_get k db)"
  by (auto simp: state_get_def set_state_def row_of_append row_of_del row_of_Cons split: option.splits)

lemma state_get_clear [simp]: "state_get k (clear_state k' db) = (if k = k' then None else state_get k db)"
  by (simp add: state_get_def clear_state_def row_of_del)

end
