(* ===== verification/Store_Index.thy ===== *)
theory Store_Index
  imports Store_Tables
begin

text \<open>
  Indexing one event and rebuilding the index, \<open>src/src/store.rs\<close>: \<open>clamp_for_index\<close>,
  \<open>subject_files_for\<close>, \<open>index_event\<close> with all its kinds, \<open>restore_counts\<close>, \<open>clear\<close>,
  \<open>resettle_replayed\<close>, and \<open>reindex\<close> of \<open>src/src/main.rs\<close> as the replay of each project's log.
\<close>

section \<open>The body as the index keeps it\<close>

definition INDEX_BODY_MAX :: nat where "INDEX_BODY_MAX = 4096"
definition INDEX_LEAF_CEILINGS :: "nat list" where "INDEX_LEAF_CEILINGS = [2048, 1024, 512]"

fun clamp_leaves :: "pattern \<Rightarrow> nat \<Rightarrow> json \<Rightarrow> json option"
  and clamp_items :: "pattern \<Rightarrow> nat \<Rightarrow> json list \<Rightarrow> json list option"
  and clamp_fields :: "pattern \<Rightarrow> nat \<Rightarrow> (rstr \<times> json) list \<Rightarrow> (rstr \<times> json) list option" where
  "clamp_leaves b mx (JStr s) = map_option JStr (clamp_leaf b s mx)"
| "clamp_leaves b mx (JArr items) = map_option JArr (clamp_items b mx items)"
| "clamp_leaves b mx (JObj fs) = map_option JObj (clamp_fields b mx fs)"
| "clamp_leaves b mx v = Some v"
| "clamp_items b mx [] = Some []"
| "clamp_items b mx (v # vs) =
     (case clamp_leaves b mx v of None \<Rightarrow> None
      | Some v' \<Rightarrow> map_option (\<lambda>vs'. v' # vs') (clamp_items b mx vs))"
| "clamp_fields b mx [] = Some []"
| "clamp_fields b mx ((k, v) # fs) =
     (case clamp_leaves b mx v of None \<Rightarrow> None
      | Some v' \<Rightarrow> map_option (\<lambda>fs'. (k, v') # fs') (clamp_fields b mx fs))"

fun try_ceilings :: "extern \<Rightarrow> rstr \<Rightarrow> json \<Rightarrow> nat list \<Rightarrow> (rstr \<times> bool) option" where
  "try_ceilings x body v [] = map_option (\<lambda>t. (t, True)) (truncate_head_tail body INDEX_BODY_MAX)"
| "try_ceilings x body v (ceiling # rest) =
     (case clamp_leaves (x_base64 x) ceiling v of
        None \<Rightarrow> None
      | Some shrunk \<Rightarrow>
          (if blen (x_print x shrunk) \<le> INDEX_BODY_MAX then Some (x_print x shrunk, True)
           else try_ceilings x body v rest))"

definition clamp_for_index :: "extern \<Rightarrow> event \<Rightarrow> (rstr \<times> bool) option" where
  "clamp_for_index x e =
     (if ev_kind e \<noteq> Observation \<or> blen (ev_body e) \<le> INDEX_BODY_MAX then Some (ev_body e, False)
      else case x_json x (ev_body e) of
             Some (JObj fs) \<Rightarrow> try_ceilings x (ev_body e) (JObj fs) INDEX_LEAF_CEILINGS
           | _ \<Rightarrow> map_option (\<lambda>t. (t, True)) (truncate_head_tail (ev_body e) INDEX_BODY_MAX))"

section \<open>Indexing\<close>

definition SUBJECT_FILES_MAX :: nat where "SUBJECT_FILES_MAX = 8"

definition subject_files_for :: "store \<Rightarrow> event \<Rightarrow> rstr list" where
  "subject_files_for db e =
     (if ev_files e \<noteq> [] \<or> \<not> (ev_kind e = SessionSummary \<or> ev_kind e = Knowledge) \<or> ev_links e = []
      then ev_files e
      else let paths = map f_path (sel (\<lambda>f. f_event f \<in> set (ev_links e)) (event_files db)) in
        take SUBJECT_FILES_MAX
          (sort_key (\<lambda>p. (- int (count_list paths p), p)) (remdups paths)))"

definition cites_json :: "rstr list \<Rightarrow> rstr list option" where
  "cites_json cites = (if cites = [] then None else Some cites)"

definition coalesce :: "'a option \<Rightarrow> 'a option \<Rightarrow> 'a option" where
  "coalesce a b = (case a of Some v \<Rightarrow> Some v | None \<Rightarrow> b)"

definition lookup_extra :: "rstr \<Rightarrow> event \<Rightarrow> rstr option" where
  "lookup_extra key e = Option.bind (map_of (ev_extra e) key) as_str"

definition next_rowid :: "event_row list \<Rightarrow> int" where
  "next_rowid t = (if t = [] then 1 else Max (r_rowid ` set t) + 1)"

text \<open>The \<open>INSERT ... ON CONFLICT(id) DO UPDATE\<close>.\<close>

definition upsert_event :: "rstr list \<Rightarrow> bool \<Rightarrow> rstr \<Rightarrow> bool \<Rightarrow> event \<Rightarrow> store \<Rightarrow> store" where
  "upsert_event files intent body clamped e db =
     (case event_of (ev_id e) db of
        None \<Rightarrow>
          db\<lparr>events := events db @
            [\<lparr>r_rowid = next_rowid (events db), r_id = ev_id e, r_ts = ev_ts e,
              r_workspace = ev_workspace e, r_project = ev_project e, r_session = ev_session e,
              r_cli = src_cli (ev_source e), r_hook = src_hook (ev_source e), r_kind = ev_kind e,
              r_title = ev_title e, r_body = body, r_files = files, r_topic = ev_topic e,
              r_invocation = lookup_extra (lit ''invocation'') e, r_forgotten = 0,
              r_corrected_by = None, r_read_count = 0, r_injected_count = 0,
              r_confidence = (if intent then 1 else 0), r_consolidated = ev_consolidated e,
              r_team = False, r_agent = ev_agent e, r_clamped = clamped, r_class = ev_class e,
              r_expires_at = ev_expires e, r_stale_since = None, r_cites = cites_json (ev_cites e),
              r_scope = ev_scope e\<rparr>]\<rparr>
      | Some _ \<Rightarrow>
          upd_event (ev_id e) (\<lambda>r. r\<lparr>r_title := ev_title e, r_body := body, r_clamped := clamped,
              r_files := files, r_topic := ev_topic e,
              r_invocation := lookup_extra (lit ''invocation'') e,
              r_consolidated := ev_consolidated e, r_agent := ev_agent e,
              r_class := coalesce (ev_class e) (r_class r),
              r_expires_at := coalesce (ev_expires e) (r_expires_at r),
              r_cites := coalesce (cites_json (ev_cites e)) (r_cites r),
              r_scope := coalesce (ev_scope e) (r_scope r)\<rparr>) db)"

text \<open>\<open>split_once(' ')\<close> of a command, with the empty subcommand when there is no blank.\<close>

definition split_command :: "rstr \<Rightarrow> rstr \<times> rstr" where
  "split_command c = (takeWhile (\<lambda>x. x \<noteq> 32) c, drop 1 (dropWhile (\<lambda>x. x \<noteq> 32) c))"

definition insert_trigger :: "trigger_row \<Rightarrow> trigger_row list \<Rightarrow> trigger_row list" where
  "insert_trigger t ts =
     (if list_ex (\<lambda>u. t_program u = t_program t \<and> t_sub u = t_sub t \<and> t_event u = t_event t) ts
      then ts else ts @ [t])"

definition set_lesson_triggers :: "rstr \<Rightarrow> rstr list \<Rightarrow> store \<Rightarrow> store" where
  "set_lesson_triggers event_id commands db =
     db\<lparr>lesson_triggers :=
       foldl (\<lambda>ts command. let (program, sub) = split_command command in
           if program = [] then ts
           else insert_trigger \<lparr>t_event = event_id, t_program = program, t_sub = trim sub\<rparr> ts)
         (del (\<lambda>t. t_event t = event_id) (lesson_triggers db)) commands\<rparr>"

definition human_corrected :: "store \<Rightarrow> rstr list \<Rightarrow> rstr list" where
  "human_corrected db ids =
     map r_id (sel (\<lambda>t. r_id t \<in> set ids \<and>
       (case r_corrected_by t of None \<Rightarrow> False
        | Some c \<Rightarrow> list_ex (\<lambda>c'. r_id c' = c \<and> (r_hook c' = lit ''correct'' \<or> r_cli c' = lit ''human'')) (events db)))
       (events db))"

definition apply_retire :: "rstr \<Rightarrow> store \<Rightarrow> store" where
  "apply_retire target db = upd_event target (\<lambda>r. r\<lparr>r_body := [], r_clamped := False\<rparr>) db"

definition apply_tombstone :: "event \<Rightarrow> rstr \<Rightarrow> store \<Rightarrow> store" where
  "apply_tombstone e target db =
     upd_event target (\<lambda>r. r\<lparr>r_forgotten :=
       (if src_hook (ev_source e) = lit ''clean'' then (if r_forgotten r = 1 then 1 else 2) else 1)\<rparr>) db"

definition apply_restore :: "event \<Rightarrow> rstr \<Rightarrow> store \<Rightarrow> store" where
  "apply_restore e target db =
     set_state (lit ''restored:'' @ target) (ev_id e)
       (upd_event target (\<lambda>r. if r_forgotten r = 2 then r\<lparr>r_forgotten := 0\<rparr> else r) db)"

definition apply_classify :: "event \<Rightarrow> rstr \<Rightarrow> store \<Rightarrow> store" where
  "apply_classify e target db =
     (let db' = upd_event target (\<lambda>r. r\<lparr>r_class := ev_class e, r_expires_at := ev_expires e,
                  r_cites := cites_json (ev_cites e), r_scope := coalesce (ev_scope e) (r_scope r)\<rparr>) db
      in if ev_scope e \<noteq> None \<or> ev_commands e \<noteq> []
         then set_lesson_triggers target (ev_commands e) db' else db')"

definition apply_feedback :: "rstr \<Rightarrow> store \<Rightarrow> store" where
  "apply_feedback target db = upd_event target (\<lambda>r. r\<lparr>r_confidence := r_confidence r - 1\<rparr>) db"

definition apply_correct :: "event \<Rightarrow> rstr \<Rightarrow> store \<Rightarrow> store" where
  "apply_correct e target db =
     upd_event target (\<lambda>r. r\<lparr>r_title := ev_title e, r_body := ev_body e, r_corrected_by := Some (ev_id e)\<rparr>) db"

definition apply_supersede :: "event \<Rightarrow> rstr \<Rightarrow> store \<Rightarrow> store" where
  "apply_supersede e target db =
     (let db' = upd_event target (\<lambda>r. r\<lparr>r_confidence := r_confidence r + 1\<rparr>) db in
      if human_corrected db' [target] = [] then apply_correct e target db' else db')"

text \<open>The \<open>match event.kind\<close>: what an event about other events does to the rows it links.\<close>

definition apply_link :: "event \<Rightarrow> rstr \<Rightarrow> store \<Rightarrow> store" where
  "apply_link e target db =
     (let hook = src_hook (ev_source e) in
      case ev_kind e of
        Retire \<Rightarrow> apply_retire target db
      | Tombstone \<Rightarrow> apply_tombstone e target db
      | Note \<Rightarrow>
          (if hook = lit ''restore'' then apply_restore e target db
           else if hook = lit ''classify'' then apply_classify e target db
           else if hook = lit ''feedback'' then apply_feedback target db
           else if hook = lit ''supersede'' then apply_supersede e target db
           else if hook = lit ''correct'' then apply_correct e target db
           else db)
      | _ \<Rightarrow> db)"

definition apply_links :: "event \<Rightarrow> store \<Rightarrow> store" where
  "apply_links e db = foldl (\<lambda>db target. apply_link e target db) db (ev_links e)"

definition restore_counts :: "rstr \<Rightarrow> store \<Rightarrow> store" where
  "restore_counts event_id db =
     (let reads = int (length (sel (\<lambda>c. c_event c = event_id) (recalled db)));
          db1 = (if reads > 0 then upd_event event_id (\<lambda>r. r\<lparr>r_read_count := reads\<rparr>) db else db);
          times = int (length (sel (\<lambda>i. i_event i = event_id) (injected db1)))
      in if times > 0 then upd_event event_id (\<lambda>r. r\<lparr>r_injected_count := times\<rparr>) db1 else db1)"

definition mark_consolidated :: "rstr list \<Rightarrow> store \<Rightarrow> store" where
  "mark_consolidated ids db =
     foldl (\<lambda>db i. upd_event i (\<lambda>r. r\<lparr>r_consolidated := True\<rparr>) db) db ids"

definition settle_summary :: "event \<Rightarrow> store \<Rightarrow> store" where
  "settle_summary e db =
     (if ev_kind e = SessionSummary \<and> ev_links e \<noteq> []
         \<and> lookup_extra (lit ''tier'') e \<noteq> Some (lit ''rule-based'')
      then mark_consolidated (ev_links e) db else db)"

definition insert_file :: "rstr \<Rightarrow> rstr \<Rightarrow> store \<Rightarrow> rstr \<Rightarrow> store" where
  "insert_file event_id project db path =
     (if list_ex (\<lambda>f. f_event f = event_id \<and> f_path f = path) (event_files db) then db
      else db\<lparr>event_files := event_files db @ [\<lparr>f_event = event_id, f_path = path, f_project = project\<rparr>]\<rparr>)"

definition has_intent :: "extern \<Rightarrow> event \<Rightarrow> bool" where
  "has_intent x e =
     (ev_kind e = Observation \<and> is_user_prompt (src_hook (ev_source e))
      \<and> (carries_memory_intent (x_lowercase x) (ev_title e) \<or> carries_memory_intent (x_lowercase x) (ev_body e)))"

text \<open>\<open>index_event\<close>, with the clamped body passed in; \<open>None\<close> below is its one possible panic.\<close>

definition index_with :: "extern \<Rightarrow> rstr \<Rightarrow> bool \<Rightarrow> event \<Rightarrow> bool \<Rightarrow> store \<Rightarrow> store" where
  "index_with x body clamped e restore db =
     (let subject = subject_files_for db e;
          db1 = upsert_event subject (has_intent x e) body clamped e db;
          db2 = (if ev_kind e = Knowledge \<and> ev_commands e \<noteq> []
                 then set_lesson_triggers (ev_id e) (ev_commands e) db1 else db1);
          db3 = apply_links e db2;
          db4 = (if restore then restore_counts (ev_id e) db3 else db3);
          db5 = settle_summary e db4
      in foldl (insert_file (ev_id e) (ev_project e)) db5 subject)"

definition index_event :: "extern \<Rightarrow> event \<Rightarrow> bool \<Rightarrow> store \<Rightarrow> store option" where
  "index_event x e restore db =
     map_option (\<lambda>(body, clamped). index_with x body clamped e restore db) (clamp_for_index x e)"

definition index :: "extern \<Rightarrow> event \<Rightarrow> store \<Rightarrow> store option" where
  "index x e db = index_event x e True db"

definition index_captured :: "extern \<Rightarrow> event \<Rightarrow> store \<Rightarrow> store option" where
  "index_captured x e db = index_event x e False db"

definition index_team_event :: "extern \<Rightarrow> event \<Rightarrow> store \<Rightarrow> store option" where
  "index_team_event x e db =
     map_option (upd_event (ev_id e) (\<lambda>r. r\<lparr>r_team := True\<rparr>)) (index x e db)"

section \<open>Rebuilding\<close>

text \<open>
  \<open>LIKE\<close> with a literal head before the \<open>%\<close>: SQLite folds ASCII case, and an
  unescaped \<open>_\<close> (\<open>None\<close> here) stands for any one character.
\<close>

fun like_head :: "nat option list \<Rightarrow> rstr \<Rightarrow> bool" where
  "like_head [] s = True"
| "like_head (p # ps) [] = False"
| "like_head (p # ps) (c # s) =
     ((case p of None \<Rightarrow> True | Some q \<Rightarrow> ascii_lower q = ascii_lower c) \<and> like_head ps s)"

definition replayed_key :: "rstr \<Rightarrow> bool" where
  "replayed_key key =
     (like_head (map Some (lit ''log'') @ [None] @ map Some (lit ''tail:'')) key
      \<or> like_head (map Some (lit ''retention_'')) key
      \<or> like_head (map Some (lit ''compact_'')) key
      \<or> like_head (map Some (lit ''stale_scan_at:'')) key)"

definition clear_store :: "store \<Rightarrow> store" where
  "clear_store db = db\<lparr>event_files := [], lesson_triggers := [], events := [],
     schema_state := del (\<lambda>kv. replayed_key (fst kv)) (schema_state db)\<rparr>"

fun replay :: "extern \<Rightarrow> event list \<Rightarrow> store \<Rightarrow> store option" where
  "replay x [] db = Some db"
| "replay x (e # es) db = (case index x e db of None \<Rightarrow> None | Some db' \<Rightarrow> replay x es db')"

definition settled_by_verdict :: "store \<Rightarrow> event_row \<Rightarrow> bool" where
  "settled_by_verdict db r =
     (\<not> r_consolidated r \<and> r_kind r = Observation \<and>
      list_ex (\<lambda>ss. s_session ss = r_session r
          \<and> (s_last_tier ss = Some (lit ''quiet'') \<or> s_last_tier ss = Some (lit ''headless''))
          \<and> (case s_last_event_id ss of None \<Rightarrow> False | Some last_id \<Rightarrow> r_id r \<le> last_id))
        (session_state db))"

definition resettle_replayed :: "store \<Rightarrow> store \<times> nat" where
  "resettle_replayed db =
     (db\<lparr>events := upd (settled_by_verdict db) (\<lambda>r. r\<lparr>r_consolidated := True\<rparr>) (events db)\<rparr>,
      length (sel (settled_by_verdict db) (events db)))"

definition resettle_replayed_once :: "store \<Rightarrow> store \<times> nat" where
  "resettle_replayed_once db =
     (if state_get (lit ''replayed_settled'') db \<noteq> None then (db, 0)
      else let (db', settled) = resettle_replayed db in
        (db'\<lparr>schema_state := schema_state db' @ [(lit ''replayed_settled'', lit ''1'')]\<rparr>, settled))"

fun replay_logs :: "extern \<Rightarrow> event list list \<Rightarrow> store \<Rightarrow> store option" where
  "replay_logs x [] db = Some db"
| "replay_logs x (es # rest) db = Option.bind (replay x es db) (replay_logs x rest)"

definition reindex :: "extern \<Rightarrow> (rstr \<Rightarrow> event option) \<Rightarrow> log_dir list \<Rightarrow> store \<Rightarrow> store option" where
  "reindex x parse dirs db =
     map_option (fst \<circ> resettle_replayed)
       (replay_logs x (map (fst \<circ> read_all parse) dirs) (clear_store db))"

section \<open>What an operation leaves alone\<close>

lemma set_lesson_triggers_simps [table_simps]:
  "events (set_lesson_triggers i cs db) = events db"
  "event_files (set_lesson_triggers i cs db) = event_files db"
  "schema_state (set_lesson_triggers i cs db) = schema_state db"
  "recalled (set_lesson_triggers i cs db) = recalled db"
  "injected (set_lesson_triggers i cs db) = injected db"
  "session_state (set_lesson_triggers i cs db) = session_state db"
  by (simp_all add: set_lesson_triggers_def)

lemma set_state_simps [table_simps]:
  "events (set_state k v db) = events db"
  "event_files (set_state k v db) = event_files db"
  "lesson_triggers (set_state k v db) = lesson_triggers db"
  "recalled (set_state k v db) = recalled db"
  "injected (set_state k v db) = injected db"
  "session_state (set_state k v db) = session_state db"
  by (simp_all add: set_state_def)

lemma upsert_event_simps [table_simps]:
  "event_files (upsert_event fs it b c e db) = event_files db"
  "lesson_triggers (upsert_event fs it b c e db) = lesson_triggers db"
  "schema_state (upsert_event fs it b c e db) = schema_state db"
  "recalled (upsert_event fs it b c e db) = recalled db"
  "injected (upsert_event fs it b c e db) = injected db"
  "session_state (upsert_event fs it b c e db) = session_state db"
  by (simp_all add: upsert_event_def table_simps split: option.split)

lemmas apply_defs = apply_retire_def apply_tombstone_def apply_restore_def apply_classify_def
  apply_feedback_def apply_supersede_def apply_correct_def

lemma apply_link_simps [table_simps]:
  "event_files (apply_link e t db) = event_files db"
  "recalled (apply_link e t db) = recalled db"
  "injected (apply_link e t db) = injected db"
  "session_state (apply_link e t db) = session_state db"
  by (simp_all add: apply_link_def apply_defs Let_def table_simps split: event_kind.split)

lemma apply_links_Nil [simp]: "ev_links e = [] \<Longrightarrow> apply_links e db = db"
  by (simp add: apply_links_def)

lemma foldl_frame: "(\<And>db x. F (g db x) = F db) \<Longrightarrow> F (foldl g db xs) = F db"
  by (induction xs arbitrary: db) auto

lemma apply_links_simps [table_simps]:
  "event_files (apply_links e db) = event_files db"
  "recalled (apply_links e db) = recalled db"
  "injected (apply_links e db) = injected db"
  "session_state (apply_links e db) = session_state db"
  by (simp_all add: apply_links_def foldl_frame table_simps)

lemma restore_counts_simps [table_simps]:
  "event_files (restore_counts i db) = event_files db"
  "lesson_triggers (restore_counts i db) = lesson_triggers db"
  "schema_state (restore_counts i db) = schema_state db"
  "recalled (restore_counts i db) = recalled db"
  "injected (restore_counts i db) = injected db"
  "session_state (restore_counts i db) = session_state db"
  by (simp_all add: restore_counts_def Let_def table_simps)

lemma mark_consolidated_simps [table_simps]:
  "event_files (mark_consolidated is db) = event_files db"
  "lesson_triggers (mark_consolidated is db) = lesson_triggers db"
  "schema_state (mark_consolidated is db) = schema_state db"
  "recalled (mark_consolidated is db) = recalled db"
  "injected (mark_consolidated is db) = injected db"
  "session_state (mark_consolidated is db) = session_state db"
  by (simp_all add: mark_consolidated_def foldl_frame table_simps)

lemma settle_summary_simps [table_simps]:
  "event_files (settle_summary e db) = event_files db"
  "lesson_triggers (settle_summary e db) = lesson_triggers db"
  "schema_state (settle_summary e db) = schema_state db"
  "recalled (settle_summary e db) = recalled db"
  "injected (settle_summary e db) = injected db"
  "session_state (settle_summary e db) = session_state db"
  by (simp_all add: settle_summary_def table_simps)

lemma insert_file_simps [table_simps]:
  "events (insert_file i p db f) = events db"
  "lesson_triggers (insert_file i p db f) = lesson_triggers db"
  "schema_state (insert_file i p db f) = schema_state db"
  "recalled (insert_file i p db f) = recalled db"
  "injected (insert_file i p db f) = injected db"
  "session_state (insert_file i p db f) = session_state db"
  by (simp_all add: insert_file_def)

lemma insert_files_simps [table_simps]:
  "events (foldl (insert_file i p) db fs) = events db"
  "lesson_triggers (foldl (insert_file i p) db fs) = lesson_triggers db"
  "schema_state (foldl (insert_file i p) db fs) = schema_state db"
  "recalled (foldl (insert_file i p) db fs) = recalled db"
  "injected (foldl (insert_file i p) db fs) = injected db"
  "session_state (foldl (insert_file i p) db fs) = session_state db"
  by (simp_all add: foldl_frame table_simps)

text \<open>The rows an index step works on, before the file rows are added.\<close>

definition index_rows :: "extern \<Rightarrow> rstr \<Rightarrow> bool \<Rightarrow> event \<Rightarrow> bool \<Rightarrow> store \<Rightarrow> store" where
  "index_rows x body clamped e restore db =
     (let db1 = upsert_event (subject_files_for db e) (has_intent x e) body clamped e db;
          db2 = (if ev_kind e = Knowledge \<and> ev_commands e \<noteq> []
                 then set_lesson_triggers (ev_id e) (ev_commands e) db1 else db1);
          db3 = apply_links e db2
      in settle_summary e (if restore then restore_counts (ev_id e) db3 else db3))"

lemma index_with_rows:
  "index_with x body clamped e restore db =
   foldl (insert_file (ev_id e) (ev_project e)) (index_rows x body clamped e restore db) (subject_files_for db e)"
  by (simp add: index_with_def index_rows_def Let_def)

lemma events_index_with: "events (index_with x body clamped e restore db) = events (index_rows x body clamped e restore db)"
  by (simp add: index_with_rows table_simps)

lemma ids_upd [table_simps]: "(\<And>r. r_id (f r) = r_id r) \<Longrightarrow> map r_id (events (upd_event i f db)) = map r_id (events db)"
  by (simp add: upd_event_def upd_def)

lemma ids_apply_link [table_simps]: "map r_id (events (apply_link e t db)) = map r_id (events db)"
  by (simp add: apply_link_def apply_defs Let_def table_simps upd_def split: event_kind.split)

lemma ids_apply_links [table_simps]: "map r_id (events (apply_links e db)) = map r_id (events db)"
  unfolding apply_links_def by (rule foldl_frame) (rule ids_apply_link)

lemma ids_restore_counts [table_simps]: "map r_id (events (restore_counts i db)) = map r_id (events db)"
  by (simp add: restore_counts_def Let_def upd_event_def upd_def)

lemma ids_mark_consolidated [table_simps]: "map r_id (events (mark_consolidated is db)) = map r_id (events db)"
  unfolding mark_consolidated_def by (rule foldl_frame) (simp add: upd_event_def upd_def)

lemma ids_settle [table_simps]: "map r_id (events (settle_summary e db)) = map r_id (events db)"
  by (simp add: settle_summary_def table_simps)

lemma ids_upsert:
  "map r_id (events (upsert_event fs it b c e db)) =
   (if ev_id e \<in> set (map r_id (events db)) then map r_id (events db) else map r_id (events db) @ [ev_id e])"
  by (auto simp: upsert_event_def upd_event_def upd_def row_of_ex split: option.split)

lemma ids_index_rows:
  "map r_id (events (index_rows x body clamped e restore db)) =
   (if ev_id e \<in> set (map r_id (events db)) then map r_id (events db) else map r_id (events db) @ [ev_id e])"
  by (simp add: index_rows_def Let_def table_simps ids_upsert del: set_map)

section \<open>What is forgotten\<close>

text \<open>
  The abstract view of one entry: not in the index, live (0), forgotten by the user (1) or
  retired by a cleanup (2), and what one log event does to it.
\<close>

definition visibility :: "rstr \<Rightarrow> store \<Rightarrow> nat option" where
  "visibility i db = map_option r_forgotten (event_of i db)"

definition verdict :: "event \<Rightarrow> nat \<Rightarrow> nat" where
  "verdict e f =
     (if ev_kind e = Tombstone then (if src_hook (ev_source e) = lit ''clean'' \<and> f \<noteq> 1 then 2 else 1)
      else if ev_kind e = Note \<and> src_hook (ev_source e) = lit ''restore'' \<and> f = 2 then 0 else f)"

definition visibility_step :: "rstr \<Rightarrow> nat option \<Rightarrow> event \<Rightarrow> nat option" where
  "visibility_step i st e =
     (let st' = (if st = None \<and> ev_id e = i then Some 0 else st) in
      if i \<in> set (ev_links e) then map_option (verdict e) st' else st')"

lemma verdict_idem: "verdict e (verdict e f) = verdict e f"
  by (simp add: verdict_def)

lemma visibility_upd_event:
  "(\<And>r. r_id (f r) = r_id r) \<Longrightarrow> (\<And>r. r_forgotten (f r) = g (r_forgotten r)) \<Longrightarrow>
   visibility i (upd_event t f db) = (if i = t then map_option g (visibility i db) else visibility i db)"
  by (cases "event_of i db") (simp_all add: visibility_def table_simps row_of_upd_key option.map_comp o_def)

lemma visibility_upd_same:
  "(\<And>r. r_id (f r) = r_id r) \<Longrightarrow> (\<And>r. r_forgotten (f r) = r_forgotten r) \<Longrightarrow>
   visibility i (upd_event t f db) = visibility i db"
  using visibility_upd_event [of f "\<lambda>n. n" i t db] by (simp add: option.map_ident)

lemma visibility_events: "events db = events db' \<Longrightarrow> visibility i db = visibility i db'"
  by (simp add: visibility_def)

lemma visibility_apply_link:
  "visibility i (apply_link e t db) =
   (if i = t then map_option (verdict e) (visibility i db) else visibility i db)"
proof (cases "ev_kind e = Tombstone \<or> ev_kind e = Note \<and> src_hook (ev_source e) = lit ''restore''")
  case True
  then consider "ev_kind e = Tombstone" | "ev_kind e = Note" "src_hook (ev_source e) = lit ''restore''" by blast
  then show ?thesis
  proof cases
    case 1
    then show ?thesis unfolding apply_link_def apply_tombstone_def Let_def
      by (simp add: visibility_upd_event [where g = "verdict e"] verdict_def)
  next
    case 2
    have "visibility i (upd_event t (\<lambda>r. if r_forgotten r = 2 then r\<lparr>r_forgotten := 0\<rparr> else r) db)
      = (if i = t then map_option (verdict e) (visibility i db) else visibility i db)"
      by (rule visibility_upd_event) (simp_all add: 2 verdict_def)
    moreover have "visibility i (set_state k v db') = visibility i db'" for k v db'
      by (rule visibility_events) (simp add: table_simps)
    ultimately show ?thesis using 2 by (simp add: apply_link_def apply_restore_def Let_def)
  qed
next
  case False
  then have "verdict e = id" by (auto simp: verdict_def fun_eq_iff)
  moreover have "visibility i (set_lesson_triggers k v db') = visibility i db'" for k v db'
    by (rule visibility_events) (simp add: table_simps)
  ultimately show ?thesis using False
    by (auto simp: apply_link_def apply_defs Let_def visibility_upd_same option.map_id split: event_kind.split)
qed

lemma visibility_apply_links:
  "visibility i (apply_links e db) =
   (if i \<in> set (ev_links e) then map_option (verdict e) (visibility i db) else visibility i db)"
proof -
  have "visibility i (foldl (\<lambda>db t. apply_link e t db) db ls) =
      (if i \<in> set ls then map_option (verdict e) (visibility i db) else visibility i db)" for ls
    by (induction ls arbitrary: db)
      (auto simp: visibility_apply_link option.map_comp o_def verdict_idem)
  then show ?thesis by (simp add: apply_links_def)
qed

lemma visibility_upsert:
  "visibility i (upsert_event fs it b c e db) =
   (if visibility i db = None \<and> ev_id e = i then Some 0 else visibility i db)"
proof (cases "event_of (ev_id e) db")
  case None
  then show ?thesis
    by (auto simp: upsert_event_def visibility_def row_of_append row_of_Cons split: option.split)
next
  case (Some r)
  then have "visibility i (upsert_event fs it b c e db) = visibility i db"
    by (simp add: upsert_event_def visibility_upd_same)
  then show ?thesis using Some by (auto simp: visibility_def)
qed

lemma visibility_restore_counts [simp]: "visibility i (restore_counts j db) = visibility i db"
  by (simp add: restore_counts_def Let_def visibility_upd_same)

lemma visibility_mark [simp]: "visibility i (mark_consolidated is db) = visibility i db"
  unfolding mark_consolidated_def by (rule foldl_frame) (simp add: visibility_upd_same)

lemma visibility_settle [simp]: "visibility i (settle_summary e db) = visibility i db"
  by (simp add: settle_summary_def)

lemma visibility_index_with:
  "visibility i (index_with x body clamped e restore db) = visibility_step i (visibility i db) e"
proof -
  have t: "visibility i (set_lesson_triggers k v db') = visibility i db'" for k v db'
    by (rule visibility_events) (simp add: table_simps)
  have "visibility i (index_with x body clamped e restore db) = visibility i (index_rows x body clamped e restore db)"
    by (rule visibility_events) (rule events_index_with)
  also have "\<dots> = visibility_step i (visibility i db) e"
    by (simp add: index_rows_def Let_def visibility_apply_links visibility_upsert t visibility_step_def)
  finally show ?thesis .
qed

lemma visibility_index:
  "index_event x e restore db = Some db' \<Longrightarrow> visibility i db' = visibility_step i (visibility i db) e"
  by (auto simp: index_event_def visibility_index_with)

lemma visibility_replay:
  "replay x es db = Some db' \<Longrightarrow> visibility i db' = foldl (visibility_step i) (visibility i db) es"
  by (induction es arbitrary: db) (auto simp: index_def visibility_index split: option.splits)

lemma visibility_step_forgotten: "visibility_step i (Some 1) e = Some 1"
  by (simp add: visibility_step_def verdict_def Let_def)

lemma visibility_fold_forgotten: "foldl (visibility_step i) (Some 1) es = Some 1"
  by (induction es) (simp_all add: visibility_step_forgotten del: One_nat_def)

lemma visibility_fold_known: "st \<noteq> None \<Longrightarrow> foldl (visibility_step i) st es \<noteq> None"
  by (induction es arbitrary: st) (auto simp: visibility_step_def Let_def)

lemma visibility_fold_seen: "i \<in> ev_id ` set es \<Longrightarrow> foldl (visibility_step i) st es \<noteq> None"
proof (induction es arbitrary: st)
  case (Cons e es)
  show ?case
  proof (cases "ev_id e = i")
    case True
    then have "visibility_step i st e \<noteq> None" by (auto simp: visibility_step_def Let_def)
    then show ?thesis using visibility_fold_known by simp
  qed (use Cons in auto)
qed simp

text \<open>
  C5: forgetting is a function of the log alone. Replaying any list of events moves each entry
  through the four states of \<open>visibility\<close> exactly as \<open>visibility_step\<close> says, whatever else the
  store holds: the SQL of tombstones, cleanups and restores refines that state machine.
\<close>
theorem replay_refines_visibility:
  assumes "replay x es db = Some db'"
  shows "visibility i db' = foldl (visibility_step i) (visibility i db) es"
  using assms by (rule visibility_replay)

text \<open>
  a user's forget is permanent. Once an entry is forgotten by the user, no sequence of log
  events - a cleanup, a restore, the same entry indexed again - makes it visible.
\<close>
theorem user_forget_permanent:
  assumes "visibility i db = Some 1" "replay x es db = Some db'"
  shows "visibility i db' = Some 1"
  using assms visibility_replay [of x es db db' i] by (simp add: visibility_fold_forgotten del: One_nat_def)

lemma fold_tombstone:
  assumes "i \<in> ev_id ` set pre" "ev_kind t = Tombstone" "src_hook (ev_source t) \<noteq> lit ''clean''"
    "i \<in> set (ev_links t)"
  shows "foldl (visibility_step i) st (pre @ t # post) = Some 1"
proof -
  have "foldl (visibility_step i) st pre \<noteq> None" by (rule visibility_fold_seen) (rule assms(1))
  then have "visibility_step i (foldl (visibility_step i) st pre) t = Some 1"
    using assms by (auto simp: visibility_step_def Let_def verdict_def)
  then show ?thesis by (simp add: visibility_fold_forgotten del: One_nat_def)
qed

lemma tombstone_in_log:
  assumes "o1 \<in># log_events parse d" "\<not> is_revision o1"
    "t \<in># log_events parse d" "ev_kind t = Tombstone" "src_hook (ev_source t) \<noteq> lit ''clean''"
    "ev_id o1 \<in> set (ev_links t)"
  shows "foldl (visibility_step (ev_id o1)) st (fst (read_all parse d)) = Some 1"
proof -
  let ?es = "fst (read_all parse d)"
  have s: "sorted (map (\<lambda>e. (is_revision e, ev_id e)) ?es)"
    by (simp add: read_all_eq replay_order_sorted)
  have m: "set ?es = set_mset (log_events parse d)" by (simp add: mset_read_all [symmetric])
  let ?facts = "filter (\<lambda>e. \<not> is_revision e) ?es" and ?revs = "filter is_revision ?es"
  have split: "?es = ?facts @ ?revs" using sorted_revision_split [OF s] .
  have "t \<in> set ?revs" using assms m by (auto simp: is_revision_def)
  then obtain a b where "?revs = a @ t # b" by (meson split_list)
  then have es: "?es = (?facts @ a) @ t # b" using split by simp
  have "ev_id o1 \<in> ev_id ` set (?facts @ a)" using assms m by auto
  from fold_tombstone [OF this assms(4,5,6)] show ?thesis using es by metis
qed

lemma visibility_replay_logs:
  "replay_logs x ess db = Some db' \<Longrightarrow> visibility i db' = foldl (visibility_step i) (visibility i db) (concat ess)"
  by (induction ess arbitrary: db) (auto simp: visibility_replay bind_eq_Some_conv)

lemma visibility_resettle [simp]: "visibility i (fst (resettle_replayed db)) = visibility i db"
  by (cases "event_of i db") (auto simp: resettle_replayed_def visibility_def row_of_upd)

text \<open>
  C1: what the user forgot stays forgotten across a rebuild. If an entry and a user's tombstone
  naming it are anywhere in one project's log, then after \<open>reindex\<close> the entry is forgotten, in
  whatever file, line order or id order the two were written, and whatever the other
  projects' logs say about it.
\<close>
theorem reindex_keeps_user_forgets:
  assumes "reindex x parse dirs db = Some db'" "d \<in> set dirs"
    "o1 \<in># log_events parse d" "\<not> is_revision o1"
    "t \<in># log_events parse d" "ev_kind t = Tombstone" "src_hook (ev_source t) \<noteq> lit ''clean''"
    "ev_id o1 \<in> set (ev_links t)"
  shows "visibility (ev_id o1) db' = Some 1"
proof -
  obtain pre post where dirs: "dirs = pre @ d # post" using assms(2) by (meson split_list)
  obtain db0 where db0: "replay_logs x (map (fst \<circ> read_all parse) dirs) (clear_store db) = Some db0"
    "db' = fst (resettle_replayed db0)"
    using assms(1) by (auto simp: reindex_def)
  have "visibility (ev_id o1) db0 =
      foldl (visibility_step (ev_id o1)) (visibility (ev_id o1) (clear_store db))
        (concat (map (fst \<circ> read_all parse) dirs))"
    by (rule visibility_replay_logs) (rule db0(1))
  also have "\<dots> = Some 1"
    using tombstone_in_log [OF assms(3-8)] by (simp add: dirs visibility_fold_forgotten del: One_nat_def)
  finally show ?thesis by (simp add: db0(2))
qed

section \<open>What a summary settles\<close>

definition proj :: "(event_row \<Rightarrow> 'a) \<Rightarrow> rstr \<Rightarrow> store \<Rightarrow> 'a option" where
  "proj g i db = map_option g (event_of i db)"

lemma proj_upd_event:
  "(\<And>r. r_id (f r) = r_id r) \<Longrightarrow> (\<And>r. g (f r) = h (g r)) \<Longrightarrow>
   proj g i (upd_event t f db) = (if i = t then map_option h (proj g i db) else proj g i db)"
  by (cases "event_of i db") (simp_all add: proj_def table_simps row_of_upd_key option.map_comp o_def)

lemma proj_upd_same:
  "(\<And>r. r_id (f r) = r_id r) \<Longrightarrow> (\<And>r. g (f r) = g r) \<Longrightarrow> proj g i (upd_event t f db) = proj g i db"
  using proj_upd_event [of f g "\<lambda>n. n" i t db] by (simp add: option.map_ident)

lemma proj_events: "events db = events db' \<Longrightarrow> proj g i db = proj g i db'"
  by (simp add: proj_def)

lemma proj_triggers [simp]: "proj g i (set_lesson_triggers k v db) = proj g i db"
  by (rule proj_events) (simp add: table_simps)

lemma proj_set_state [simp]: "proj g i (set_state k v db) = proj g i db"
  by (rule proj_events) (simp add: table_simps)

lemma proj_index_with: "proj g i (index_with x body clamped e restore db) = proj g i (index_rows x body clamped e restore db)"
  by (rule proj_events) (rule events_index_with)

lemma proj_upsert:
  "proj g i (upsert_event fs it b c e db) =
   (if i \<noteq> ev_id e then proj g i db
    else map_option g (event_of i (upsert_event fs it b c e db)))"
  by (cases "event_of (ev_id e) db")
    (auto simp: upsert_event_def proj_def table_simps row_of_append row_of_Cons row_of_upd_key split: option.split)

abbreviation consolidated_of :: "rstr \<Rightarrow> store \<Rightarrow> bool option" where
  "consolidated_of \<equiv> proj r_consolidated"

text \<open>A summary that carries a tier other than the rule-based floor, or none at all, is a model's.\<close>

definition settles :: "event \<Rightarrow> rstr \<Rightarrow> bool" where
  "settles e i = (ev_kind e = SessionSummary \<and> lookup_extra (lit ''tier'') e \<noteq> Some (lit ''rule-based'')
     \<and> i \<in> set (ev_links e))"

lemma consolidated_apply_links [simp]: "consolidated_of i (apply_links e db) = consolidated_of i db"
  unfolding apply_links_def
  by (rule foldl_frame) (simp add: apply_link_def apply_defs Let_def proj_upd_same split: event_kind.split)

lemma consolidated_restore [simp]: "consolidated_of i (restore_counts j db) = consolidated_of i db"
  by (simp add: restore_counts_def Let_def proj_upd_same)

lemma consolidated_mark:
  "consolidated_of i (mark_consolidated is db) = (if i \<in> set is then map_option (\<lambda>_. True) (consolidated_of i db) else consolidated_of i db)"
proof (induction "is" arbitrary: db)
  case (Cons j js)
  have "consolidated_of i (upd_event j (\<lambda>r. r\<lparr>r_consolidated := True\<rparr>) db) =
      (if i = j then map_option (\<lambda>_. True) (consolidated_of i db) else consolidated_of i db)"
    by (rule proj_upd_event) simp_all
  then show ?case using Cons by (auto simp: mark_consolidated_def option.map_comp o_def)
qed (simp add: mark_consolidated_def)

lemma consolidated_settle:
  "consolidated_of i (settle_summary e db) = map_option (\<lambda>c. c \<or> settles e i) (consolidated_of i db)"
proof -
  have id: "map_option (\<lambda>c. c) z = (z :: bool option)" for z by (simp add: option.map_ident)
  show ?thesis by (auto simp: settle_summary_def settles_def consolidated_mark id)
qed

lemma consolidated_upsert:
  "consolidated_of i (upsert_event fs it b c e db) = (if i = ev_id e then Some (ev_consolidated e) else consolidated_of i db)"
  by (cases "event_of (ev_id e) db")
    (auto simp: upsert_event_def proj_def table_simps row_of_append row_of_Cons row_of_upd_key split: option.split)

text \<open>
  only a model-backed summary finishes the events it was drawn from. After one event is
  indexed, an entry is consolidated iff its own line said so or it was before, or the event is a
  session summary that links it and was not written by the rule-based floor; a rule-based page
  leaves its sources pending for a working model.
\<close>
theorem only_a_model_summary_settles:
  assumes "index_event x e restore db = Some db'"
  shows "consolidated_of i db' =
    (if i = ev_id e then Some (ev_consolidated e \<or> settles e i)
     else map_option (\<lambda>c. c \<or> settles e i) (consolidated_of i db))"
  using assms
  by (auto simp: index_event_def proj_index_with index_rows_def Let_def consolidated_settle consolidated_upsert)

section \<open>A human's wording\<close>

definition human_held :: "rstr \<Rightarrow> rstr \<times> rstr \<Rightarrow> store \<Rightarrow> bool" where
  "human_held t w db =
     (\<exists>c. proj (\<lambda>r. (r_title r, r_body r, r_corrected_by r)) t db = Some (fst w, snd w, Some c) \<and>
       (\<exists>hc \<in> set (map (\<lambda>r. (r_id r, r_hook r, r_cli r)) (events db)).
          fst hc = c \<and> (fst (snd hc) = lit ''correct'' \<or> snd (snd hc) = lit ''human'')))"

abbreviation authors :: "store \<Rightarrow> (rstr \<times> rstr \<times> rstr) list" where
  "authors db \<equiv> map (\<lambda>r. (r_id r, r_hook r, r_cli r)) (events db)"

lemma human_held_cong:
  assumes "proj (\<lambda>r. (r_title r, r_body r, r_corrected_by r)) t db = proj (\<lambda>r. (r_title r, r_body r, r_corrected_by r)) t db'"
    "set (authors db) \<subseteq> set (authors db')" "human_held t w db"
  shows "human_held t w db'"
proof -
  obtain c hc where "proj (\<lambda>r. (r_title r, r_body r, r_corrected_by r)) t db = Some (fst w, snd w, Some c)"
    "hc \<in> set (authors db)" "fst hc = c" "fst (snd hc) = lit ''correct'' \<or> snd (snd hc) = lit ''human''"
    using assms(3) unfolding human_held_def by blast
  moreover then have "hc \<in> set (authors db')" using assms(2) by blast
  ultimately show ?thesis unfolding human_held_def assms(1) [symmetric]
    by (intro exI [of _ c] conjI bexI [of _ hc])
qed

lemma authors_upd [simp]:
  "(\<And>r. r_id (f r) = r_id r \<and> r_hook (f r) = r_hook r \<and> r_cli (f r) = r_cli r) \<Longrightarrow> authors (upd_event i f db) = authors db"
  by (simp add: upd_event_def upd_def)

lemma human_held_corrected:
  assumes "human_held t w db"
  shows "human_corrected db [t] \<noteq> []"
proof -
  obtain c r where "event_of t db = Some r" "r_corrected_by r = Some c"
    and c: "\<exists>c'\<in>set (events db). r_id c' = c \<and> (r_hook c' = lit ''correct'' \<or> r_cli c' = lit ''human'')"
    using assms by (auto simp: human_held_def proj_def)
  then have r: "r \<in> set (events db)" "r_id r = t" "r_corrected_by r = Some c" by (auto dest: row_of_Some)
  from c have "list_ex (\<lambda>c'. r_id c' = c \<and> (r_hook c' = lit ''correct'' \<or> r_cli c' = lit ''human'')) (events db)"
    by (auto simp: list_ex_iff)
  with r have "r \<in> set (sel (\<lambda>t'. r_id t' \<in> set [t] \<and>
       (case r_corrected_by t' of None \<Rightarrow> False
        | Some c \<Rightarrow> list_ex (\<lambda>c'. r_id c' = c \<and> (r_hook c' = lit ''correct'' \<or> r_cli c' = lit ''human'')) (events db)))
       (events db))" by simp
  then show ?thesis unfolding human_corrected_def by (metis (no_types, lifting) empty_iff list.map_disc_iff list.set(1))
qed

text \<open>The events that may not touch a held wording: another correction of it, its retirement, its own line.\<close>

definition rewords :: "rstr \<Rightarrow> event \<Rightarrow> bool" where
  "rewords t e =
     (ev_id e = t \<or> t \<in> set (ev_links e) \<and>
        (ev_kind e = Retire \<or> ev_kind e = Note \<and> src_hook (ev_source e) = lit ''correct''))"

lemma human_held_upd:
  assumes "human_held t w db" "\<And>r. r_id (f r) = r_id r \<and> r_hook (f r) = r_hook r \<and> r_cli (f r) = r_cli r"
    "i = t \<Longrightarrow> (\<And>r. (r_title (f r), r_body (f r), r_corrected_by (f r)) = (r_title r, r_body r, r_corrected_by r))"
  shows "human_held t w (upd_event i f db)"
proof (rule human_held_cong [OF _ _ assms(1)])
  show "proj (\<lambda>r. (r_title r, r_body r, r_corrected_by r)) t db =
      proj (\<lambda>r. (r_title r, r_body r, r_corrected_by r)) t (upd_event i f db)"
    using assms(2,3) by (cases "i = t"; cases "event_of t db") (simp_all add: proj_def table_simps row_of_upd_key)
qed (simp add: assms(2))

lemma human_held_state [simp]:
  "human_held t w (set_state k v db) = human_held t w db"
  "human_held t w (set_lesson_triggers j cs db) = human_held t w db"
  by (simp_all add: human_held_def table_simps)

lemma human_held_link:
  assumes h: "human_held t w db" and l: "u \<in> set (ev_links e)" "\<not> rewords t e"
  shows "human_held t w (apply_link e u db)"
proof (cases "ev_kind e = Note \<and> src_hook (ev_source e) = lit ''supersede''")
  case True
  let ?db = "upd_event u (\<lambda>r. r\<lparr>r_confidence := r_confidence r + 1\<rparr>) db"
  have h': "human_held t w ?db" by (rule human_held_upd [OF h]) auto
  show ?thesis
  proof (cases "human_corrected ?db [u] = []")
    case False
    then show ?thesis using True h' by (simp add: apply_link_def apply_supersede_def Let_def)
  next
    case True': True
    then have "u \<noteq> t" using human_held_corrected [OF h'] by auto
    then have "human_held t w (apply_correct e u ?db)"
      unfolding apply_correct_def by (intro human_held_upd [OF h']) auto
    then show ?thesis using True True' by (simp add: apply_link_def apply_supersede_def Let_def)
  qed
next
  case False
  have "u \<noteq> t \<Longrightarrow> human_held t w (apply_retire u db)" "u \<noteq> t \<Longrightarrow> human_held t w (apply_correct e u db)"
    unfolding apply_retire_def apply_correct_def by (rule human_held_upd [OF h]; simp)+
  moreover have "human_held t w (apply_tombstone e u db)" "human_held t w (apply_feedback u db)"
    unfolding apply_tombstone_def apply_feedback_def by (rule human_held_upd [OF h]; simp)+
  moreover have "human_held t w (apply_restore e u db)"
    unfolding apply_restore_def human_held_state by (rule human_held_upd [OF h]; simp)
  moreover have "human_held t w (apply_classify e u db)"
    unfolding apply_classify_def Let_def
    by (simp only: if_distrib [of "human_held t w"] human_held_state if_cancel) (rule human_held_upd [OF h]; simp)
  ultimately show ?thesis using h l False
    by (auto simp: apply_link_def Let_def rewords_def split: event_kind.split)
qed

lemma human_held_links:
  assumes "human_held t w db" "\<not> rewords t e"
  shows "human_held t w (apply_links e db)"
proof -
  have "human_held t w (foldl (\<lambda>db u. apply_link e u db) db ls)" if "set ls \<subseteq> set (ev_links e)" "human_held t w db" for ls db
    using that assms(2) by (induction ls arbitrary: db) (auto simp: human_held_link)
  then show ?thesis using assms(1) by (simp add: apply_links_def)
qed

lemma human_held_events:
  "events db = events db' \<Longrightarrow> human_held t w db = human_held t w db'"
  by (simp add: human_held_def proj_def)

lemma authors_mark [simp]: "authors (mark_consolidated is db) = authors db"
  unfolding mark_consolidated_def by (rule foldl_frame) simp

lemma human_held_tail:
  "human_held t w db \<Longrightarrow> human_held t w (restore_counts j db)"
  "human_held t w db \<Longrightarrow> human_held t w (settle_summary e db)"
proof -
  assume h: "human_held t w db"
  show "human_held t w (restore_counts j db)"
    unfolding restore_counts_def Let_def using h by (auto intro!: human_held_upd)
  have "human_held t w (foldl (\<lambda>db i. upd_event i (\<lambda>r. r\<lparr>r_consolidated := True\<rparr>) db) db is)" for "is"
    using h by (induction "is" arbitrary: db) (simp_all add: human_held_upd)
  then show "human_held t w (settle_summary e db)" using h by (simp add: settle_summary_def mark_consolidated_def)
qed

lemma authors_upsert: "set (authors db) \<subseteq> set (authors (upsert_event fs it b c e db))"
proof (cases "event_of (ev_id e) db")
  case (Some r)
  then have "authors (upsert_event fs it b c e db) = authors db"
    by (simp add: upsert_event_def upd_event_def upd_def)
  then show ?thesis by simp
qed (auto simp: upsert_event_def)

lemma human_held_index_with:
  assumes "human_held t w db" "\<not> rewords t e"
  shows "human_held t w (index_with x body clamped e restore db)"
proof -
  let ?u = "upsert_event (subject_files_for db e) (has_intent x e) body clamped e db"
  have "ev_id e \<noteq> t" using assms(2) by (simp add: rewords_def)
  then have "human_held t w ?u"
    using human_held_cong [OF _ authors_upsert assms(1)] by (simp add: proj_upsert)
  then have "human_held t w (index_rows x body clamped e restore db)"
    unfolding index_rows_def Let_def using assms(2) by (auto intro!: human_held_tail human_held_links)
  then show ?thesis using human_held_events [OF events_index_with] by blast
qed

lemma human_held_replay:
  "replay x es db = Some db' \<Longrightarrow> human_held t w db \<Longrightarrow> \<forall>e\<in>set es. \<not> rewords t e \<Longrightarrow> human_held t w db'"
proof (induction es arbitrary: db)
  case (Cons e es)
  then obtain db1 where "index x e db = Some db1" "replay x es db1 = Some db'" by (auto split: option.splits)
  then show ?case using Cons human_held_index_with [of t w db e]
    by (auto simp: index_def index_event_def)
qed simp

lemma correct_applied:
  assumes "ev_kind e = Note" "src_hook (ev_source e) = lit ''correct''" "t \<in> set (ev_links e)"
    "event_of t db \<noteq> None" "(ev_id e, lit ''correct'', cl) \<in> set (authors db)"
  shows "human_held t (ev_title e, ev_body e) (apply_links e db)"
proof -
  let ?w = "(ev_title e, ev_body e)"
  let ?g = "\<lambda>db u. apply_link e u db"
  have step: "apply_link e u db = apply_correct e u db" for u db
    using assms(1,2) by (simp add: apply_link_def lit_def)
  have "human_held t ?w (foldl ?g db ls)"
    if "t \<in> set ls \<or> human_held t ?w db" "event_of t db \<noteq> None" "(ev_id e, lit ''correct'', cl) \<in> set (authors db)" for ls db
    using that
  proof (induction ls arbitrary: db)
    case (Cons u ls)
    let ?db = "apply_correct e u db"
    have a: "authors ?db = authors db" unfolding apply_correct_def by (rule authors_upd) simp
    have ex: "event_of t ?db \<noteq> None" using Cons.prems(2) by (auto simp: apply_correct_def table_simps row_of_upd_key)
    have held: "human_held t ?w ?db" if "u = t"
      unfolding human_held_def
    proof (intro exI [of _ "ev_id e"] conjI bexI [of _ "(ev_id e, lit ''correct'', cl)"])
      show "proj (\<lambda>r. (r_title r, r_body r, r_corrected_by r)) t ?db = Some (fst ?w, snd ?w, Some (ev_id e))"
        using Cons.prems(2) that by (auto simp: proj_def apply_correct_def table_simps row_of_upd_key)
    qed (use Cons.prems(3) a in simp_all)
    have "human_held t ?w ?db" if "u \<noteq> t" "human_held t ?w db"
      unfolding apply_correct_def by (rule human_held_upd [OF that(2)]) (use that(1) in auto)
    then have "t \<in> set ls \<or> human_held t ?w ?db" using held Cons.prems(1) by auto
    then have "human_held t ?w (foldl ?g ?db ls)" using ex Cons.prems(3) a by (intro Cons.IH) simp_all
    then show ?case by (simp only: foldl_Cons step)
  qed simp
  then show ?thesis using assms(3-5) by (simp add: apply_links_def)
qed

text \<open>
  C6: a human's correction of an entry stands. After a \<open>correct\<close> note is indexed, the entry
  keeps the note's title and body through any later events - the machine's own \<open>supersede\<close> notes
  included, which then only raise its confidence - until the user corrects it again, its body is
  retired or its own line is indexed anew.
\<close>
theorem human_wording_stands:
  assumes "ev_kind e = Note" "src_hook (ev_source e) = lit ''correct''" "t \<in> set (ev_links e)" "ev_id e \<noteq> t"
    "event_of t db \<noteq> None" "event_of (ev_id e) db = None"
    "replay x (e # es) db = Some db'" "\<forall>e'\<in>set es. \<not> rewords t e'"
  shows "\<exists>r. event_of t db' = Some r \<and> r_title r = ev_title e \<and> r_body r = ev_body e"
proof -
  let ?w = "(ev_title e, ev_body e)"
  obtain body clamped where db1: "replay x es (index_with x body clamped e True db) = Some db'"
    using assms(7) by (auto simp: index_def index_event_def split: option.splits)
  let ?u = "upsert_event (subject_files_for db e) (has_intent x e) body clamped e db"
  have "(ev_id e, lit ''correct'', src_cli (ev_source e)) \<in> set (authors ?u)"
    using assms(2,6) by (simp add: upsert_event_def)
  moreover have "event_of t ?u \<noteq> None" using assms(4-6) by (auto simp: upsert_event_def row_of_append)
  ultimately have "human_held t ?w (apply_links e ?u)" using assms(1-3) by (intro correct_applied)
  then have "human_held t ?w (index_rows x body clamped e True db)"
    using assms(1) by (simp add: index_rows_def Let_def human_held_tail)
  then have "human_held t ?w (index_with x body clamped e True db)"
    using human_held_events [OF events_index_with] by blast
  then have "human_held t ?w db'" using human_held_replay [OF db1] assms(8) by blast
  then show ?thesis by (auto simp: human_held_def proj_def)
qed

section \<open>Indexing never panics\<close>

lemma clamp_leaf_total: "\<exists>t. clamp_leaf b s mx = Some t"
  unfolding clamp_leaf_def by (rule truncate_head_tail_total)

lemma clamp_leaves_total:
  "\<exists>v'. clamp_leaves b mx v = Some v'"
  "\<exists>vs'. clamp_items b mx vs = Some vs'"
  "\<exists>fs'. clamp_fields b mx fs = Some fs'"
proof (induction b mx v and b mx vs and b mx fs rule: clamp_leaves_clamp_items_clamp_fields.induct)
  case (1 b mx s)
  then show ?case using clamp_leaf_total [of b s mx] by auto
qed auto

lemma try_ceilings_within:
  "\<exists>t cut. try_ceilings x body v cs = Some (t, cut) \<and> cut \<and> (blen body < 10 ^ 19 \<longrightarrow> blen t \<le> INDEX_BODY_MAX)"
proof (induction cs)
  case Nil
  then show ?case using truncate_head_tail_total [of body INDEX_BODY_MAX]
      truncate_head_tail_bounded' [of body INDEX_BODY_MAX] by auto
next
  case (Cons c cs)
  obtain v' where "clamp_leaves (x_base64 x) c v = Some v'" using clamp_leaves_total(1) by blast
  then show ?case using Cons by auto
qed

lemma clamp_for_index_cases:
  "\<exists>t cut. clamp_for_index x e = Some (t, cut) \<and> (\<not> cut \<longrightarrow> t = ev_body e) \<and>
     (ev_kind e = Observation \<and> blen (ev_body e) < 10 ^ 19 \<longrightarrow> blen t \<le> INDEX_BODY_MAX) \<and>
     (ev_kind e \<noteq> Observation \<longrightarrow> t = ev_body e \<and> \<not> cut)"
proof -
  have "\<exists>t. truncate_head_tail (ev_body e) INDEX_BODY_MAX = Some t \<and> (blen (ev_body e) < 10 ^ 19 \<longrightarrow> blen t \<le> INDEX_BODY_MAX)"
    using truncate_head_tail_total [of "ev_body e" INDEX_BODY_MAX]
      truncate_head_tail_bounded' [of "ev_body e" INDEX_BODY_MAX] by fastforce
  moreover have "\<exists>t cut. try_ceilings x (ev_body e) v INDEX_LEAF_CEILINGS = Some (t, cut) \<and> (\<not> cut \<longrightarrow> t = ev_body e)
      \<and> (blen (ev_body e) < 10 ^ 19 \<longrightarrow> blen t \<le> INDEX_BODY_MAX)" for v
    using try_ceilings_within [of x "ev_body e" v INDEX_LEAF_CEILINGS] by blast
  ultimately show ?thesis by (auto simp: clamp_for_index_def split: option.splits json.splits)
qed

text \<open>
  what the index keeps of a body. No slice of the clamping panics on any text; only an
  observation is ever cut; an uncut body is the log's own; and an observation's row holds at
  most 4096 bytes, whichever leaf ceiling or fallback was reached.
\<close>
theorem clamp_for_index_within:
  assumes "blen (ev_body e) < 10 ^ 19"
  shows "\<exists>t cut. clamp_for_index x e = Some (t, cut) \<and> (\<not> cut \<longrightarrow> t = ev_body e) \<and>
     (ev_kind e = Observation \<longrightarrow> blen t \<le> 4096) \<and>
     (ev_kind e \<noteq> Observation \<longrightarrow> t = ev_body e \<and> \<not> cut)"
  using clamp_for_index_cases [of x e] assms by (auto simp: INDEX_BODY_MAX_def)

lemma index_event_total: "\<exists>body clamped. index_event x e restore db = Some (index_with x body clamped e restore db)"
  using clamp_for_index_cases [of x e] by (auto simp: index_event_def)

lemma replay_total: "\<exists>db'. replay x es db = Some db'"
proof (induction es arbitrary: db)
  case (Cons e es)
  then show ?case using index_event_total [of x e True db] by (auto simp: index_def)
qed simp

section \<open>The tables stay well formed\<close>

definition index_ok :: "store \<Rightarrow> bool" where
  "index_ok db =
     (distinct (map r_id (events db)) \<and> list_all (\<lambda>r. r_forgotten r \<le> 2) (events db) \<and>
      distinct (map (\<lambda>f. (f_event f, f_path f)) (event_files db)) \<and>
      f_event ` set (event_files db) \<subseteq> r_id ` set (events db) \<and>
      distinct (map (\<lambda>t. (t_program t, t_sub t, t_event t)) (lesson_triggers db)) \<and>
      distinct (map fst (schema_state db)))"

abbreviation "trigger_key t \<equiv> (t_program t, t_sub t, t_event t)"

lemma insert_trigger_distinct:
  "distinct (map trigger_key ts) \<Longrightarrow> distinct (map trigger_key (insert_trigger t ts))"
  by (auto simp: insert_trigger_def list_ex_iff)

lemma distinct_triggers_set:
  assumes "distinct (map trigger_key (lesson_triggers db))"
  shows "distinct (map trigger_key (lesson_triggers (set_lesson_triggers i cs db)))"
proof -
  have "distinct (map trigger_key (foldl (\<lambda>ts command. let (program, sub) = split_command command in
           if program = [] then ts
           else insert_trigger \<lparr>t_event = i, t_program = program, t_sub = trim sub\<rparr> ts) ts cs))"
    if "distinct (map trigger_key ts)" for ts
    using that by (induction cs arbitrary: ts) (auto simp: Let_def insert_trigger_distinct split: prod.split)
  then show ?thesis using assms by (simp add: set_lesson_triggers_def del_def distinct_map_filter)
qed

lemma distinct_state_set: "distinct (map fst (schema_state db)) \<Longrightarrow> distinct (map fst (schema_state (set_state k v db)))"
  by (auto simp: set_state_def del_def distinct_map_filter)

lemma distinct_apply_link:
  "distinct (map trigger_key (lesson_triggers db)) \<Longrightarrow> distinct (map trigger_key (lesson_triggers (apply_link e t db)))"
  "distinct (map fst (schema_state db)) \<Longrightarrow> distinct (map fst (schema_state (apply_link e t db)))"
  by (auto simp: apply_link_def apply_defs Let_def table_simps distinct_triggers_set distinct_state_set
      split: event_kind.split)

lemma foldl_keeps: "P db \<Longrightarrow> (\<And>db x. P db \<Longrightarrow> P (g db x)) \<Longrightarrow> P (foldl g db xs)"
  by (induction xs arbitrary: db) auto

lemma distinct_apply_links:
  "distinct (map trigger_key (lesson_triggers db)) \<Longrightarrow> distinct (map trigger_key (lesson_triggers (apply_links e db)))"
  "distinct (map fst (schema_state db)) \<Longrightarrow> distinct (map fst (schema_state (apply_links e db)))"
  unfolding apply_links_def by (auto intro!: foldl_keeps distinct_apply_link)

lemma files_ok_insert:
  "distinct (map (\<lambda>f. (f_event f, f_path f)) (event_files db)) \<Longrightarrow>
   distinct (map (\<lambda>f. (f_event f, f_path f)) (event_files (insert_file i p db f)))"
  "f_event ` set (event_files (insert_file i p db f)) \<subseteq> insert i (f_event ` set (event_files db))"
  by (auto simp: insert_file_def list_ex_iff)

lemma files_ok_inserts:
  assumes "distinct (map (\<lambda>f. (f_event f, f_path f)) (event_files db))"
  shows "distinct (map (\<lambda>f. (f_event f, f_path f)) (event_files (foldl (insert_file i p) db fs)))
    \<and> f_event ` set (event_files (foldl (insert_file i p) db fs)) \<subseteq> insert i (f_event ` set (event_files db))"
  using assms
proof (induction fs arbitrary: db)
  case (Cons f fs)
  from files_ok_insert(1) [OF Cons.prems, of i p f] have "distinct (map (\<lambda>f. (f_event f, f_path f)) (event_files (insert_file i p db f)))" .
  from Cons.IH [OF this] files_ok_insert(2) [of i p db f] show ?case by (simp only: foldl_Cons) blast
qed auto

lemma forgotten_rows:
  "distinct (map r_id (events db)) \<Longrightarrow>
   list_all (\<lambda>r. r_forgotten r \<le> 2) (events db) \<longleftrightarrow> (\<forall>i v. visibility i db = Some v \<longrightarrow> v \<le> 2)"
  by (auto simp: list_all_iff visibility_def row_of_mem dest: row_of_Some) (metis row_of_mem)

lemma visibility_step_bound: "(\<forall>v. st = Some v \<longrightarrow> v \<le> 2) \<Longrightarrow> visibility_step i st e = Some v \<Longrightarrow> v \<le> 2"
  by (auto simp: visibility_step_def Let_def verdict_def split: if_splits)

lemma index_ok_with:
  assumes ok: "index_ok db"
  shows "index_ok (index_with x body clamped e restore db)"
proof -
  let ?r = "index_rows x body clamped e restore db" and ?db' = "index_with x body clamped e restore db"
  have ids: "map r_id (events ?db') = (if ev_id e \<in> set (map r_id (events db)) then map r_id (events db)
      else map r_id (events db) @ [ev_id e])"
    by (simp only: events_index_with ids_index_rows)
  have d: "distinct (map r_id (events ?db'))" using ok by (simp add: ids index_ok_def)
  have "visibility i ?db' = Some v \<Longrightarrow> v \<le> 2" for i v
    using ok forgotten_rows [of db] visibility_step_bound [of "visibility i db" i e v]
    by (simp add: visibility_index_with index_ok_def)
  then have v: "list_all (\<lambda>r. r_forgotten r \<le> 2) (events ?db')" using forgotten_rows [OF d] by blast
  have ids': "insert (ev_id e) (r_id ` set (events db)) \<subseteq> r_id ` set (events ?db')"
    using arg_cong [OF ids, of set] by (auto split: if_splits)
  have "event_files ?r = event_files db" by (simp add: index_rows_def Let_def table_simps)
  then have f: "distinct (map (\<lambda>f. (f_event f, f_path f)) (event_files ?db'))"
      "f_event ` set (event_files ?db') \<subseteq> r_id ` set (events ?db')"
  proof -
    assume r: "event_files ?r = event_files db"
    have k: "distinct (map (\<lambda>f. (f_event f, f_path f)) (event_files ?db')) \<and>
        f_event ` set (event_files ?db') \<subseteq> insert (ev_id e) (f_event ` set (event_files db))"
      using files_ok_inserts [of ?r "ev_id e" "ev_project e" "subject_files_for db e"] ok r
      by (simp add: index_with_rows index_ok_def)
    have s: "f_event ` set (event_files db) \<subseteq> r_id ` set (events db)" using ok by (simp add: index_ok_def)
    show "distinct (map (\<lambda>f. (f_event f, f_path f)) (event_files ?db'))" using k by (rule conjunct1)
    show "f_event ` set (event_files ?db') \<subseteq> r_id ` set (events ?db')"
      using subset_trans [OF conjunct2 [OF k] subset_trans [OF insert_mono [OF s] ids']] .
  qed
  have "distinct (map trigger_key (lesson_triggers ?db'))" "distinct (map fst (schema_state ?db'))"
    using ok by (auto simp: index_with_rows index_rows_def Let_def index_ok_def table_simps
        intro!: distinct_apply_links distinct_triggers_set)
  with d v f show ?thesis by (simp add: index_ok_def)
qed

lemma index_ok_replay: "replay x es db = Some db' \<Longrightarrow> index_ok db \<Longrightarrow> index_ok db'"
  by (induction es arbitrary: db) (auto simp: index_def index_event_def index_ok_with split: option.splits)

text \<open>
  C11: indexing keeps the tables well formed. From a well-formed store, any list of events is
  indexed without a panic, and afterwards ids are still unique, every visibility is one of the
  three the code knows, file and trigger rows are unique, every file row belongs to an indexed
  event and every state key has one value.
\<close>
theorem replay_keeps_index_ok:
  assumes "index_ok db"
  shows "\<exists>db'. replay x es db = Some db' \<and> index_ok db'"
  using replay_total [of x es db] index_ok_replay [OF _ assms] by blast

section \<open>Indexing a line twice\<close>

lemma foldl_upd_event:
  assumes "\<And>r. r_id (f r) = r_id r" "\<And>r. f (f r) = f r"
  shows "foldl (\<lambda>db i. upd_event i f db) db is = db\<lparr>events := upd (\<lambda>r. r_id r \<in> set is) f (events db)\<rparr>"
  by (induction "is" arbitrary: db) (simp_all add: upd_event_def upd_def assms)

definition link_row :: "event \<Rightarrow> event_row \<Rightarrow> event_row" where
  "link_row e r =
     (if r_id r \<in> set (ev_links e) then
        (case ev_kind e of
           Retire \<Rightarrow> r\<lparr>r_body := [], r_clamped := False\<rparr>
         | Tombstone \<Rightarrow> r\<lparr>r_forgotten := verdict e (r_forgotten r)\<rparr>
         | _ \<Rightarrow> r)
      else r)"

lemma apply_links_rows:
  assumes "ev_kind e \<noteq> Note"
  shows "apply_links e db = db\<lparr>events := map (link_row e) (events db)\<rparr>"
proof -
  let ?f = "\<lambda>r. case ev_kind e of Retire \<Rightarrow> r\<lparr>r_body := [], r_clamped := False\<rparr>
     | Tombstone \<Rightarrow> r\<lparr>r_forgotten := verdict e (r_forgotten r)\<rparr> | _ \<Rightarrow> r"
  have noop: "upd_event t (\<lambda>r. r) db = db" for t db by (simp add: upd_event_def upd_def)
  have "apply_link e = (\<lambda>t. upd_event t ?f)"
    using assms by (cases "ev_kind e")
      (simp_all add: fun_eq_iff apply_link_def apply_retire_def apply_tombstone_def verdict_def noop Let_def upd_event_def upd_def)
  then have "apply_links e db = db\<lparr>events := upd (\<lambda>r. r_id r \<in> set (ev_links e)) ?f (events db)\<rparr>"
    by (simp add: apply_links_def) (rule foldl_upd_event; auto simp: verdict_idem split: event_kind.split)
  then show ?thesis by (simp add: upd_def link_row_def[abs_def])
qed

definition count_row :: "store \<Rightarrow> rstr \<Rightarrow> event_row \<Rightarrow> event_row" where
  "count_row db i r =
     (if r_id r = i then
        (let reads = int (length (sel (\<lambda>c. c_event c = i) (recalled db)));
             times = int (length (sel (\<lambda>c. i_event c = i) (injected db))) in
         r\<lparr>r_read_count := (if reads > 0 then reads else r_read_count r),
           r_injected_count := (if times > 0 then times else r_injected_count r)\<rparr>)
      else r)"

lemma restore_counts_rows: "restore_counts i db = db\<lparr>events := map (count_row db i) (events db)\<rparr>"
proof -
  define reads times where "reads = length (sel (\<lambda>c. c_event c = i) (recalled db))"
    and "times = length (sel (\<lambda>c. i_event c = i) (injected db))"
  define g1 g2 :: "event_row \<Rightarrow> event_row" where "g1 r = (if reads > 0 \<and> r_id r = i then r\<lparr>r_read_count := int reads\<rparr> else r)"
    and "g2 r = (if times > 0 \<and> r_id r = i then r\<lparr>r_injected_count := int times\<rparr> else r)" for r
  have 1: "(if int reads > 0 then upd_event i (\<lambda>r. r\<lparr>r_read_count := int reads\<rparr>) db else db) = db\<lparr>events := map g1 (events db)\<rparr>"
    by (cases "reads > 0") (simp_all add: g1_def [abs_def] upd_event_def upd_def)
  have 2: "(if int times > 0 then upd_event i (\<lambda>r. r\<lparr>r_injected_count := int times\<rparr>) d else d) = d\<lparr>events := map g2 (events d)\<rparr>" for d
    by (cases "times > 0") (simp_all add: g2_def [abs_def] upd_event_def upd_def)
  have "g2 (g1 r) = count_row db i r" for r
    by (simp add: g1_def g2_def count_row_def reads_def times_def Let_def)
  then have m: "map g2 (map g1 (events db)) = map (count_row db i) (events db)" by simp
  have "restore_counts i db = (let d = (if int reads > 0 then upd_event i (\<lambda>r. r\<lparr>r_read_count := int reads\<rparr>) db else db)
      in if int times > 0 then upd_event i (\<lambda>r. r\<lparr>r_injected_count := int times\<rparr>) d else d)"
    by (simp add: restore_counts_def Let_def reads_def times_def table_simps)
  then have "restore_counts i db = db\<lparr>events := map g2 (map g1 (events db))\<rparr>" by (simp only: Let_def 1 2) simp
  then show ?thesis by (simp only: m)
qed

definition settle_row :: "event \<Rightarrow> event_row \<Rightarrow> event_row" where
  "settle_row e r = (if settles e (r_id r) then r\<lparr>r_consolidated := True\<rparr> else r)"

lemma settle_summary_rows: "settle_summary e db = db\<lparr>events := map (settle_row e) (events db)\<rparr>"
proof -
  have "mark_consolidated is db = db\<lparr>events := upd (\<lambda>r. r_id r \<in> set is) (\<lambda>r. r\<lparr>r_consolidated := True\<rparr>) (events db)\<rparr>" for "is"
    unfolding mark_consolidated_def by (rule foldl_upd_event) simp_all
  then show ?thesis
    by (auto simp: settle_summary_def settle_row_def settles_def upd_def map_idI intro!: map_cong)
qed

definition upsert_row :: "rstr list \<Rightarrow> rstr \<Rightarrow> bool \<Rightarrow> event \<Rightarrow> event_row \<Rightarrow> event_row" where
  "upsert_row fs body clamped e r =
     (if r_id r = ev_id e then
        r\<lparr>r_title := ev_title e, r_body := body, r_clamped := clamped, r_files := fs, r_topic := ev_topic e,
          r_invocation := lookup_extra (lit ''invocation'') e, r_consolidated := ev_consolidated e,
          r_agent := ev_agent e, r_class := coalesce (ev_class e) (r_class r),
          r_expires_at := coalesce (ev_expires e) (r_expires_at r),
          r_cites := coalesce (cites_json (ev_cites e)) (r_cites r),
          r_scope := coalesce (ev_scope e) (r_scope r)\<rparr>
      else r)"

lemma upsert_known:
  "ev_id e \<in> r_id ` set (events db) \<Longrightarrow>
   upsert_event fs it b c e db = db\<lparr>events := map (upsert_row fs b c e) (events db)\<rparr>"
  by (auto simp: row_of_ex upsert_event_def upd_event_def upd_def upsert_row_def)

lemma coalesce_idem [simp]: "coalesce a (coalesce a b) = coalesce a b" "coalesce a a = a"
  by (simp_all add: coalesce_def split: option.split)

lemma upsert_settled:
  assumes "r \<in> set (events (upsert_event fs it b c e db))"
  shows "upsert_row fs b c e r = r"
proof (cases "ev_id e \<in> r_id ` set (events db)")
  case True
  then show ?thesis using assms by (auto simp: upsert_known upsert_row_def)
next
  case False
  then have "event_of (ev_id e) db = None" "\<forall>r\<in>set (events db). r_id r \<noteq> ev_id e" 
    by (simp add: row_of_None, metis imageI)
  then show ?thesis using assms by (auto simp: upsert_event_def upsert_row_def)
qed

definition tail_row :: "bool \<Rightarrow> event \<Rightarrow> store \<Rightarrow> event_row \<Rightarrow> event_row" where
  "tail_row restore e db r =
     settle_row e (if restore then count_row db (ev_id e) (link_row e r) else link_row e r)"

lemma tail_row_again:
  assumes "ev_id e \<notin> set (ev_links e)" "upsert_row fs b c e r = r"
  shows "tail_row restore e db (upsert_row fs b c e (tail_row restore e db r)) = tail_row restore e db r"
proof (cases "r_id r = ev_id e")
  case True
  have "link_row e r' = r'" "settle_row e r' = r'" if "r_id r' = ev_id e" for r'
    using assms(1) that by (simp_all add: link_row_def settle_row_def settles_def)
  moreover have "upsert_row fs b c e (count_row db (ev_id e) r) = count_row db (ev_id e) r"
  proof -
    have "count_row db (ev_id e) (upsert_row fs b c e r) = upsert_row fs b c e (count_row db (ev_id e) r)"
      using True by (simp add: count_row_def upsert_row_def Let_def)
    then show ?thesis using assms(2) by simp
  qed
  moreover have "count_row db (ev_id e) (count_row db (ev_id e) r) = count_row db (ev_id e) r"
    "r_id (count_row db (ev_id e) r) = r_id r"
    by (simp_all add: count_row_def Let_def)
  ultimately show ?thesis using True assms(2) by (simp add: tail_row_def)
next
  case False
  have ids: "r_id (link_row e r) = r_id r" "r_id (settle_row e r) = r_id r" for r
    by (simp_all add: link_row_def settle_row_def split: event_kind.split)
  have tail: "tail_row restore e db r' = settle_row e (link_row e r')" if "r_id r' = r_id r" for r'
    using that False by (simp add: tail_row_def count_row_def ids)
  have "settle_row e (link_row e (settle_row e (link_row e r))) = settle_row e (link_row e r)"
    by (cases "ev_kind e") (simp_all add: link_row_def settle_row_def settles_def verdict_idem)
  moreover have "upsert_row fs b c e r' = r'" if "r_id r' = r_id r" for r'
    using that False by (simp add: upsert_row_def)
  ultimately show ?thesis using tail ids by simp
qed

lemma triggers_again:
  assumes "lesson_triggers d = lesson_triggers (set_lesson_triggers i cs u)"
  shows "set_lesson_triggers i cs d = d"
proof -
  let ?F = "\<lambda>ts command. let (program, sub) = split_command command in
           if program = [] then ts
           else insert_trigger \<lparr>t_event = i, t_program = program, t_sub = trim sub\<rparr> ts"
  let ?d = "del (\<lambda>t. t_event t = i)"
  have a: "?d (foldl ?F ts cs) = ?d ts" for ts
    by (induction cs arbitrary: ts) (auto simp: Let_def insert_trigger_def del_def split: prod.split)
  have b: "?d (?d ts) = ?d ts" for ts by (simp add: del_def)
  have l: "lesson_triggers d = foldl ?F (?d (lesson_triggers u)) cs" using assms by (simp add: set_lesson_triggers_def)
  then have "?d (lesson_triggers d) = ?d (lesson_triggers u)" by (simp only: a b)
  then have "foldl ?F (?d (lesson_triggers d)) cs = lesson_triggers d" using l by simp
  then show ?thesis by (simp add: set_lesson_triggers_def)
qed

lemma insert_files_present:
  "path \<in> set fs \<Longrightarrow> list_ex (\<lambda>f. f_event f = i \<and> f_path f = path) (event_files (foldl (insert_file i p) db fs))"
proof -
  have keep: "list_ex Q (event_files db) \<Longrightarrow> list_ex Q (event_files (foldl (insert_file i p) db fs))" for Q db fs
  proof (induction fs arbitrary: db)
    case (Cons f fs)
    have "list_ex Q (event_files (insert_file i p db f))" using Cons.prems by (auto simp: insert_file_def)
    from Cons.IH [OF this] show ?case by simp
  qed simp
  show "path \<in> set fs \<Longrightarrow> ?thesis"
  proof (induction fs arbitrary: db)
    case (Cons f fs)
    have "list_ex (\<lambda>g. f_event g = i \<and> f_path g = f) (event_files (insert_file i p db f))"
      by (auto simp: insert_file_def)
    from keep [OF this] show ?case using Cons by auto
  qed simp
qed

lemma insert_files_again:
  "(\<And>path. path \<in> set fs \<Longrightarrow> list_ex (\<lambda>f. f_event f = i \<and> f_path f = path) (event_files db)) \<Longrightarrow>
   foldl (insert_file i p) db fs = db"
  by (induction fs) (simp_all add: insert_file_def)

lemma subject_files_again:
  assumes "ev_id e \<notin> set (ev_links e)"
  shows "subject_files_for (foldl (insert_file (ev_id e) p) db fs) e = subject_files_for db e"
proof -
  have "sel (\<lambda>f. f_event f \<in> set (ev_links e)) (event_files (foldl (insert_file (ev_id e) p) db fs))
      = sel (\<lambda>f. f_event f \<in> set (ev_links e)) (event_files db)"
    by (rule foldl_frame [where F = "\<lambda>db. sel (\<lambda>f. f_event f \<in> set (ev_links e)) (event_files db)"])
      (use assms in \<open>simp add: insert_file_def sel_def\<close>)
  then show ?thesis by (simp add: subject_files_for_def)
qed

lemma index_rows_eq:
  assumes "ev_kind e \<noteq> Note"
  shows "index_rows x body clamped e restore db =
     (let u = upsert_event (subject_files_for db e) (has_intent x e) body clamped e db;
          u' = (if ev_kind e = Knowledge \<and> ev_commands e \<noteq> [] then set_lesson_triggers (ev_id e) (ev_commands e) u else u)
      in u'\<lparr>events := map (tail_row restore e db) (events u)\<rparr>)"
  using assms by (simp add: index_rows_def Let_def apply_links_rows restore_counts_rows settle_summary_rows
      tail_row_def count_row_def table_simps)

text \<open>
  indexing is idempotent by event id. A line replayed after it was already indexed - a hook
  that fired twice, a catch-up over a reindexed log - leaves the store exactly as it is, for
  every kind of event but the notes (whose feedback and supersede arithmetic counts each time),
  provided the event does not link itself.
\<close>
theorem index_idempotent:
  assumes "ev_kind e \<noteq> Note" "ev_id e \<notin> set (ev_links e)" "index_event x e restore db = Some db'"
  shows "index_event x e restore db' = Some db'"
proof -
  obtain body clamped where c: "clamp_for_index x e = Some (body, clamped)" "db' = index_with x body clamped e restore db"
    using assms(3) by (auto simp: index_event_def)
  let ?S = "subject_files_for db e" and ?ins = "foldl (insert_file (ev_id e) (ev_project e))"
  define u where "u = upsert_event ?S (has_intent x e) body clamped e db"
  define v where "v = (if ev_kind e = Knowledge \<and> ev_commands e \<noteq> [] then set_lesson_triggers (ev_id e) (ev_commands e) u else u)"
  define ir where "ir = v\<lparr>events := map (tail_row restore e db) (events u)\<rparr>"
  have ir: "index_rows x body clamped e restore db = ir"
    by (simp add: index_rows_eq [OF assms(1)] ir_def u_def v_def Let_def)
  have db': "db' = ?ins ir ?S" by (simp add: c(2) index_with_rows ir)
  have fields: "recalled db' = recalled db" "injected db' = injected db" "event_files ir = event_files db"
    "lesson_triggers db' = lesson_triggers v" "events db' = map (tail_row restore e db) (events u)"
    by (simp_all add: db' table_simps ir_def v_def u_def)
  have S: "subject_files_for db' e = ?S"
    using subject_files_again [OF assms(2), of "ev_project e" ir ?S] fields(3)
    by (simp add: db' subject_files_for_def)
  have T: "tail_row restore e db' = tail_row restore e db"
    using fields by (simp add: fun_eq_iff tail_row_def count_row_def)
  have known: "ev_id e \<in> r_id ` set (events db')"
  proof -
    have "ev_id e \<in> set (map r_id (events db'))"
      by (simp only: c(2) events_index_with ids_index_rows) (simp split: if_splits)
    then show ?thesis by simp
  qed
  have rows: "map (tail_row restore e db) (map (upsert_row ?S body clamped e) (events db')) = events db'"
    using tail_row_again [OF assms(2)] upsert_settled by (simp add: fields u_def o_def)
  have up: "upsert_event ?S (has_intent x e) body clamped e db' = db'\<lparr>events := map (upsert_row ?S body clamped e) (events db')\<rparr>"
    by (rule upsert_known) (rule known)
  have tr: "set_lesson_triggers (ev_id e) (ev_commands e) (db'\<lparr>events := es\<rparr>) = db'\<lparr>events := es\<rparr>"
    if "ev_kind e = Knowledge" "ev_commands e \<noteq> []" for es
    by (rule triggers_again [of _ _ _ u]) (use that fields(4) in \<open>simp add: v_def\<close>)
  have "index_rows x body clamped e restore db' = db'"
    using tr rows by (simp add: index_rows_eq [OF assms(1)] S T up Let_def)
  moreover have "?ins db' ?S = db'"
    by (rule insert_files_again) (use insert_files_present in \<open>simp add: db'\<close>)
  ultimately have "index_with x body clamped e restore db' = db'" by (simp only: index_with_rows S)
  then show ?thesis using c(1) by (simp add: index_event_def)
qed

section \<open>Concrete runs\<close>

definition sample_extern :: extern where
  "sample_extern = \<lparr>x_lowercase = (\<lambda>s. s), x_json = (\<lambda>_. None), x_print = (\<lambda>_. []), x_base64 = (\<lambda>s. [Plain s])\<rparr>"

definition sample_fact :: event where
  "sample_fact = sample_event\<lparr>ev_id := lit ''0a'', ev_kind := Observation\<rparr>"

definition sample_about :: "string \<Rightarrow> event_kind \<Rightarrow> string \<Rightarrow> event" where
  "sample_about i kind hook = sample_event\<lparr>ev_id := lit i, ev_kind := kind,
     ev_source := \<lparr>src_cli = lit ''human'', src_hook = lit hook\<rparr>, ev_title := lit i, ev_links := [lit ''0a'']\<rparr>"

lemmas sample_defs = sample_fact_def sample_about_def sample_event_def new_event_def sample_extern_def

definition run :: "event list \<Rightarrow> store \<Rightarrow> store" where
  "run es db = the (replay sample_extern es db)"

lemma run: "replay sample_extern es db = Some (run es db)"
  using replay_total [of sample_extern es db] by (auto simp: run_def)

lemma index_ok_empty: "index_ok empty_store"
  by (simp add: index_ok_def empty_store_def)

lemma visibility_empty [simp]: "visibility i empty_store = None"
  by (simp add: visibility_def empty_store_def)

theorem replay_refines_visibility_witness:
  "visibility (lit ''0a'') (run [sample_fact, sample_about ''0b'' Tombstone ''clean'', sample_about ''0c'' Note ''restore''] empty_store) = Some 0"
  by (simp add: replay_refines_visibility [OF run] visibility_step_def verdict_def sample_defs lit_def)

theorem user_forget_permanent_witness:
  "visibility (lit ''0a'') (run [sample_about ''0c'' Note ''restore''] (run [sample_fact, sample_about ''0b'' Tombstone ''''] empty_store)) = Some 1"
proof (rule user_forget_permanent [OF _ run])
  show "visibility (lit ''0a'') (run [sample_fact, sample_about ''0b'' Tombstone ''''] empty_store) = Some 1"
    by (simp add: visibility_replay [OF run] visibility_step_def verdict_def sample_defs lit_def)
qed

text \<open>A log whose one file holds the tombstone before the entry it forgets.\<close>

definition forget_parse :: "rstr \<Rightarrow> event option" where
  "forget_parse l = (if l = lit ''1'' then Some sample_fact
     else if l = lit ''2'' then Some (sample_about ''0b'' Tombstone '''') else None)"

definition forget_log :: log_dir where
  "forget_log = [(lit ''2026-01.jsonl'', lit ''2'' @ [10] @ lit ''1'' @ [10])]"

lemma forget_events:
  "log_events forget_parse forget_log = {#sample_about ''0b'' Tombstone '''', sample_fact#}"
proof -
  have "is_jsonl (lit ''2026-01.jsonl'')" by (simp add: is_jsonl_def lit_def)
  moreover have "forget_parse (lit ''1'') = Some sample_fact"
    "forget_parse (lit ''2'') = Some (sample_about ''0b'' Tombstone '''')" by (simp_all add: forget_parse_def)
  ultimately show ?thesis
    by (simp add: forget_log_def log_events_def file_events_def sample_lines sample_trim map_filter_simps del: append.simps)
qed

theorem reindex_keeps_user_forgets_witness:
  "map_option (visibility (lit ''0a'')) (reindex sample_extern forget_parse [forget_log] empty_store) = Some (Some 1)"
proof -
  obtain db' where db': "reindex sample_extern forget_parse [forget_log] empty_store = Some db'"
    using replay_total [of sample_extern "fst (read_all forget_parse forget_log)" "clear_store empty_store"]
    by (auto simp: reindex_def)
  have h: "sample_fact \<in># log_events forget_parse forget_log" "\<not> is_revision sample_fact"
    "sample_about ''0b'' Tombstone '''' \<in># log_events forget_parse forget_log"
    "ev_kind (sample_about ''0b'' Tombstone '''') = Tombstone"
    "src_hook (ev_source (sample_about ''0b'' Tombstone '''')) \<noteq> lit ''clean''"
    "ev_id sample_fact \<in> set (ev_links (sample_about ''0b'' Tombstone ''''))"
    by (simp_all add: forget_events sample_defs is_revision_def)
  from reindex_keeps_user_forgets [OF db' _ h] show ?thesis by (simp add: db') (simp add: sample_defs)
qed

theorem only_a_model_summary_settles_witness:
  "\<exists>db'. index_event sample_extern (sample_about ''0b'' SessionSummary '''') True (run [sample_fact] empty_store) = Some db'
     \<and> consolidated_of (lit ''0a'') db' = map_option (\<lambda>_. True) (consolidated_of (lit ''0a'') (run [sample_fact] empty_store))"
proof -
  obtain db' where db': "index_event sample_extern (sample_about ''0b'' SessionSummary '''') True (run [sample_fact] empty_store) = Some db'"
    using index_event_total by blast
  from only_a_model_summary_settles [OF db', of "lit ''0a''"] db' show ?thesis
    by (simp add: settles_def sample_about_def sample_event_def new_event_def lookup_extra_def)
qed

theorem human_wording_stands_witness:
  "\<exists>r. event_of (lit ''0a'') (run [sample_about ''0b'' Note ''correct'', sample_about ''0c'' Note ''supersede''] (run [sample_fact] empty_store)) = Some r
     \<and> r_title r = lit ''0b'' \<and> r_body r = []"
proof -
  let ?db = "run [sample_fact] empty_store"
  have v: "visibility (lit ''0a'') ?db = Some 0" "visibility (lit ''0b'') ?db = None"
    by (simp_all add: visibility_replay [OF run] visibility_step_def sample_defs lit_def)
  then have h: "event_of (lit ''0a'') ?db \<noteq> None" "event_of (ev_id (sample_about ''0b'' Note ''correct'')) ?db = None"
    by (auto simp: visibility_def sample_about_def)
  have "\<exists>r. event_of (lit ''0a'') (run [sample_about ''0b'' Note ''correct'', sample_about ''0c'' Note ''supersede''] ?db) = Some r
     \<and> r_title r = ev_title (sample_about ''0b'' Note ''correct'') \<and> r_body r = ev_body (sample_about ''0b'' Note ''correct'')"
    by (rule human_wording_stands [OF _ _ _ _ h run]) (simp_all add: sample_defs rewords_def)
  then show ?thesis by (simp add: sample_defs)
qed

theorem clamp_for_index_within_witness:
  "\<exists>t cut. clamp_for_index sample_extern (sample_fact\<lparr>ev_body := replicate 5000 97\<rparr>) = Some (t, cut) \<and> blen t \<le> 4096"
proof -
  have "blen (ev_body (sample_fact\<lparr>ev_body := replicate 5000 97\<rparr>)) < 10 ^ 19"
    by (simp add: blen_def sum_list_replicate len_utf8_def)
  from clamp_for_index_within [OF this, of sample_extern] show ?thesis by (auto simp: sample_fact_def)
qed

theorem replay_keeps_index_ok_witness:
  "\<exists>db'. replay sample_extern [sample_fact, sample_about ''0b'' Tombstone ''''] empty_store = Some db' \<and> index_ok db'"
  by (rule replay_keeps_index_ok) (rule index_ok_empty)

theorem index_idempotent_witness:
  "index_event sample_extern sample_fact True (run [sample_fact] empty_store) = Some (run [sample_fact] empty_store)"
proof (rule index_idempotent)
  show "index_event sample_extern sample_fact True empty_store = Some (run [sample_fact] empty_store)"
    using run [of "[sample_fact]" empty_store] by (auto simp: index_def split: option.splits)
qed (simp_all add: sample_defs)

end
