(* ===== verification/Store_Ledger.thy ===== *)
theory Store_Ledger
  imports Store_Index
begin

text \<open>
  What a session was shown and what it read, \<open>src/src/store.rs\<close>: the tables \<open>recalled\<close>,
  \<open>injected\<close>, \<open>injected_bytes\<close> and \<open>injected_files\<close>, the calls that write them, the fold of
  the lines hooks spilled while the store was busy, and the byte budget of a session.
\<close>

section \<open>The budget contract\<close>

text \<open>
  What \<open>inject.rs\<close> relies on: a reservation is granted exactly when it fits the cap, adds its
  bytes then, and otherwise changes nothing.
\<close>

locale byte_budget =
  fixes inv :: "'st \<Rightarrow> bool"
    and spent :: "'k \<Rightarrow> 'st \<Rightarrow> int"
    and who :: "'r \<Rightarrow> 'k"
    and cost :: "'r \<Rightarrow> int"
    and cap :: int
    and reserve :: "'r \<Rightarrow> 'st \<Rightarrow> bool \<times> 'st"
  assumes granted: "inv st \<Longrightarrow> fst (reserve r st) = (spent (who r) st + cost r \<le> cap)"
    and spent_reserve: "spent k (snd (reserve r st)) =
      (if fst (reserve r st) \<and> k = who r then spent k st + cost r else spent k st)"
    and inv_reserve: "inv st \<Longrightarrow> inv (snd (reserve r st))"
begin

text \<open>Requests of any sessions in any order, one atomic statement each.\<close>

fun requests :: "'r list \<Rightarrow> 'st \<Rightarrow> bool list \<times> 'st" where
  "requests [] st = ([], st)"
| "requests (r # rs) st =
     (let (ok, st1) = reserve r st; (oks, st2) = requests rs st1 in (ok # oks, st2))"

lemma requests_Cons:
  "fst (requests (r # rs) st) = fst (reserve r st) # fst (requests rs (snd (reserve r st)))"
  "snd (requests (r # rs) st) = snd (requests rs (snd (reserve r st)))"
  by (simp_all split: prod.split)

lemma requests_within:
  "inv st \<Longrightarrow> spent k st \<le> cap \<Longrightarrow> spent k (snd (requests rs st)) \<le> cap"
proof (induction rs arbitrary: st)
  case (Cons r rs)
  have "inv (snd (reserve r st))" "spent k (snd (reserve r st)) \<le> cap"
    using Cons.prems granted [of st r] by (auto simp: spent_reserve inv_reserve)
  then show ?case using Cons.IH by (simp only: requests_Cons)
qed simp

lemma requests_sum:
  "spent k (snd (requests rs st)) =
   spent k st + sum_list (map (\<lambda>(ok, r). if ok \<and> who r = k then cost r else 0) (zip (fst (requests rs st)) rs))"
  by (induction rs arbitrary: st) (auto simp: requests_Cons spent_reserve simp del: requests.simps(2))

end

section \<open>Recall\<close>

datatype reach = Offered | Opened

abbreviation "recall_key c \<equiv> (c_session c, c_event c)"
abbreviation "injected_key r \<equiv> (i_session r, i_event r)"

definition upd_recall :: "rstr \<Rightarrow> rstr \<Rightarrow> (recall_row \<Rightarrow> recall_row) \<Rightarrow> store \<Rightarrow> store" where
  "upd_recall session eid f db = db\<lparr>recalled := upd (\<lambda>c. recall_key c = (session, eid)) f (recalled db)\<rparr>"

definition tie_host :: "reach \<Rightarrow> rstr \<Rightarrow> recall_row \<Rightarrow> recall_row" where
  "tie_host how host c =
     (case how of
        Opened \<Rightarrow> if host \<noteq> [] \<or> c_host c = None then c\<lparr>c_host := Some host\<rparr> else c
      | Offered \<Rightarrow> if host \<noteq> [] \<and> (c_host c = None \<or> c_host c = Some []) then c\<lparr>c_host := Some host\<rparr> else c)"

definition record_recall1 :: "rstr \<Rightarrow> rstr option \<Rightarrow> reach \<Rightarrow> rstr \<Rightarrow> store \<Rightarrow> store" where
  "record_recall1 session host how eid db =
     (case row_of recall_key (session, eid) (recalled db) of
        None \<Rightarrow>
          upd_event eid (\<lambda>r. r\<lparr>r_read_count := r_read_count r + 1\<rparr>)
            (db\<lparr>recalled := recalled db @
               [\<lparr>c_session = session, c_event = eid, c_opened = (how = Opened), c_host = host\<rparr>]\<rparr>)
      | Some c \<Rightarrow>
          let db1 = (if \<not> c_opened c \<and> how = Opened
                     then upd_recall session eid (\<lambda>c. c\<lparr>c_opened := True\<rparr>) db else db)
          in case host of None \<Rightarrow> db1 | Some h \<Rightarrow> upd_recall session eid (tie_host how h) db1)"

definition record_recall :: "rstr \<Rightarrow> rstr option \<Rightarrow> rstr list \<Rightarrow> reach \<Rightarrow> store \<Rightarrow> store" where
  "record_recall session host ids how db = foldl (\<lambda>db eid. record_recall1 session host how eid db) db ids"

definition was_recalled :: "rstr \<Rightarrow> rstr \<Rightarrow> store \<Rightarrow> bool" where
  "was_recalled session eid db = list_ex (\<lambda>c. recall_key c = (session, eid)) (recalled db)"

section \<open>Injection\<close>

definition to_i64 :: "nat \<Rightarrow> int" where
  "to_i64 n = (if n < 2 ^ 63 then int n else 2 ^ 63 - 1)"

definition already_injected :: "rstr \<Rightarrow> rstr \<Rightarrow> store \<Rightarrow> bool" where
  "already_injected session eid db = list_ex (\<lambda>r. injected_key r = (session, eid) \<and> i_active r) (injected db)"

definition file_already_injected :: "rstr \<Rightarrow> rstr \<Rightarrow> store \<Rightarrow> bool" where
  "file_already_injected session path db = ((session, path) \<in> set (injected_files db))"

definition bytes_of :: "rstr \<Rightarrow> store \<Rightarrow> int" where
  "bytes_of session db = (case row_of fst session (injected_bytes db) of None \<Rightarrow> 0 | Some kb \<Rightarrow> snd kb)"

definition session_injected_bytes :: "rstr \<Rightarrow> store \<Rightarrow> nat" where
  "session_injected_bytes session db = nat (bytes_of session db)"

definition put_bytes :: "rstr \<Rightarrow> int \<Rightarrow> store \<Rightarrow> store" where
  "put_bytes session b db =
     db\<lparr>injected_bytes := (if row_of fst session (injected_bytes db) = None then injected_bytes db @ [(session, b)]
        else upd (\<lambda>kb. fst kb = session) (\<lambda>kb. (session, snd kb + b)) (injected_bytes db))\<rparr>"

text \<open>The guarded upsert; the flag is whether it changed a row.\<close>

definition reserve_bytes :: "rstr \<Rightarrow> int \<Rightarrow> int \<Rightarrow> store \<Rightarrow> bool \<times> store" where
  "reserve_bytes session b cap db =
     (case row_of fst session (injected_bytes db) of
        None \<Rightarrow> if b \<le> cap then (True, put_bytes session b db) else (False, db)
      | Some kb \<Rightarrow> if b \<le> cap \<and> snd kb + b \<le> cap then (True, put_bytes session b db) else (False, db))"

definition note_injected_id :: "rstr \<Rightarrow> rstr \<Rightarrow> bool \<Rightarrow> store \<Rightarrow> store" where
  "note_injected_id session eid in_flight db =
     (case row_of injected_key (session, eid) (injected db) of
        None \<Rightarrow>
          (upd_event eid (\<lambda>r. r\<lparr>r_injected_count := r_injected_count r + 1\<rparr>) db)
            \<lparr>injected := injected db @ [\<lparr>i_session = session, i_event = eid, i_active = True, i_in_flight = in_flight\<rparr>]\<rparr>
      | Some _ \<Rightarrow>
          db\<lparr>injected := upd (\<lambda>r. injected_key r = (session, eid))
               (\<lambda>r. r\<lparr>i_active := True, i_in_flight := i_in_flight r \<or> in_flight\<rparr>) (injected db)\<rparr>)"

definition record_injected :: "rstr \<Rightarrow> rstr list \<Rightarrow> nat \<Rightarrow> nat \<Rightarrow> nat \<Rightarrow> store \<Rightarrow> bool \<times> store" where
  "record_injected session ids in_flight bytes cap db =
     (let (reserved, db1) = reserve_bytes session (to_i64 bytes) (to_i64 cap) db in
      if reserved
      then (True, foldl (\<lambda>db (at, eid). note_injected_id session eid (at < in_flight) db) db1 (enumerate 0 ids))
      else (False, db))"

definition record_injected_file :: "rstr \<Rightarrow> rstr \<Rightarrow> store \<Rightarrow> store" where
  "record_injected_file session path db =
     (if (session, path) \<in> set (injected_files db) then db
      else db\<lparr>injected_files := injected_files db @ [(session, path)]\<rparr>)"

definition reset_injection_state :: "rstr \<Rightarrow> store \<Rightarrow> store" where
  "reset_injection_state session db =
     db\<lparr>injected := upd (\<lambda>r. i_session r = session) (\<lambda>r. r\<lparr>i_active := False\<rparr>) (injected db),
        injected_files := del (\<lambda>f. fst f = session) (injected_files db),
        injected_bytes := del (\<lambda>b. fst b = session) (injected_bytes db)\<rparr>"

section \<open>The spill\<close>

datatype ledger = Recalled | OpenedIds | Injected | File

record surfaced_line =
  l_session :: rstr
  l_kind :: ledger
  l_ids :: "rstr list"
  l_bytes :: nat

definition any_unseen_injection :: "surfaced_line \<Rightarrow> store \<Rightarrow> bool" where
  "any_unseen_injection line db =
     list_ex (\<lambda>eid. row_of injected_key (l_session line, eid) (injected db) = None) (l_ids line)"

definition fold_id :: "surfaced_line \<Rightarrow> store \<Rightarrow> rstr \<Rightarrow> store" where
  "fold_id line db eid =
     (case l_kind line of
        Recalled \<Rightarrow> record_recall (l_session line) None [eid] Offered db
      | OpenedIds \<Rightarrow> record_recall (l_session line) None [eid] Opened db
      | Injected \<Rightarrow> note_injected_id (l_session line) eid False db
      | File \<Rightarrow> record_injected_file (l_session line) eid db)"

definition fold_line :: "store \<Rightarrow> surfaced_line \<Rightarrow> store" where
  "fold_line db line =
     (let db1 = (if l_kind line = Injected \<and> l_bytes line > 0 \<and> any_unseen_injection line db
                 then put_bytes (l_session line) (to_i64 (l_bytes line)) db else db)
      in foldl (fold_id line) db1 (l_ids line))"

definition fold_surfaced :: "surfaced_line list \<Rightarrow> store \<Rightarrow> store \<times> nat" where
  "fold_surfaced lines db =
     (foldl fold_line db lines, sum_list (map (\<lambda>l. length (l_ids l)) lines))"

section \<open>The budget binds\<close>

lemma bytes_of_put: "bytes_of s' (put_bytes s b db) = (if s' = s then bytes_of s db + b else bytes_of s' db)"
proof (cases "row_of fst s (injected_bytes db)")
  case None
  then show ?thesis by (auto simp: bytes_of_def put_bytes_def row_of_append row_of_Cons split: option.splits)
next
  case (Some kb)
  have "row_of fst s' (upd (\<lambda>kb. fst kb = s) (\<lambda>kb. (s, snd kb + b)) (injected_bytes db)) =
      (if s' = s then map_option (\<lambda>kb. (s, snd kb + b)) (row_of fst s' (injected_bytes db)) else row_of fst s' (injected_bytes db))"
    by (rule row_of_upd_key) simp
  then show ?thesis using Some by (auto simp: bytes_of_def put_bytes_def)
qed

lemma note_injected_bytes [simp]: "injected_bytes (note_injected_id s i f db) = injected_bytes db"
  by (simp add: note_injected_id_def table_simps split: option.split)

lemma notes_injected_bytes [simp]:
  "injected_bytes (foldl (\<lambda>db (at, i). note_injected_id s i (at < k) db) db ids) = injected_bytes db"
  by (rule foldl_frame) (simp split: prod.split)

definition bytes_sane :: "store \<Rightarrow> bool" where
  "bytes_sane db = list_all (\<lambda>kb. 0 \<le> snd kb) (injected_bytes db)"

lemma bytes_sane_of: "bytes_sane db \<Longrightarrow> 0 \<le> bytes_of k db"
  by (auto simp: bytes_sane_def bytes_of_def list_all_iff dest!: row_of_Some split: option.split)

lemma bytes_sane_put: "bytes_sane db \<Longrightarrow> 0 \<le> b \<Longrightarrow> bytes_sane (put_bytes s b db)"
  by (auto simp: bytes_sane_def put_bytes_def list_all_iff upd_def)

lemma to_i64_range: "0 \<le> to_i64 n"
  by (simp add: to_i64_def)

lemma reserve_bytes_ok:
  "bytes_sane db \<Longrightarrow> 0 \<le> b \<Longrightarrow> fst (reserve_bytes s b cap db) = (bytes_of s db + b \<le> cap)"
  using bytes_sane_of [of db s] by (auto simp: reserve_bytes_def bytes_of_def split: option.splits)

lemma reserve_bytes_state:
  "snd (reserve_bytes s b cap db) = (if fst (reserve_bytes s b cap db) then put_bytes s b db else db)"
  by (simp add: reserve_bytes_def split: option.split)

record push =
  p_session :: rstr
  p_ids :: "rstr list"
  p_in_flight :: nat
  p_bytes :: nat

abbreviation push1 :: "nat \<Rightarrow> push \<Rightarrow> store \<Rightarrow> bool \<times> store" where
  "push1 cap r db \<equiv> record_injected (p_session r) (p_ids r) (p_in_flight r) (p_bytes r) cap db"

lemma record_injected_flag:
  "fst (record_injected s ids k b cap db) = fst (reserve_bytes s (to_i64 b) (to_i64 cap) db)"
  by (simp add: record_injected_def split: prod.split)

lemma record_injected_bytes:
  "injected_bytes (snd (record_injected s ids k b cap db)) =
   (if fst (record_injected s ids k b cap db) then injected_bytes (put_bytes s (to_i64 b) db) else injected_bytes db)"
  using reserve_bytes_state [of s "to_i64 b" "to_i64 cap" db]
  by (auto simp: record_injected_def split: prod.split)

lemma bytes_of_cong: "injected_bytes db = injected_bytes db' \<Longrightarrow> bytes_of s db = bytes_of s db'"
  by (simp add: bytes_of_def)

lemma bytes_sane_cong: "injected_bytes db = injected_bytes db' \<Longrightarrow> bytes_sane db = bytes_sane db'"
  by (simp add: bytes_sane_def)

interpretation budget: byte_budget bytes_sane bytes_of p_session "\<lambda>r. to_i64 (p_bytes r)" "to_i64 cap" "push1 cap"
  for cap :: nat
proof unfold_locales
  fix st :: store and r :: push and k :: rstr
  let ?go = "push1 cap r st"
  show "bytes_sane st \<Longrightarrow> fst ?go = (bytes_of (p_session r) st + to_i64 (p_bytes r) \<le> to_i64 cap)"
    by (simp add: record_injected_flag reserve_bytes_ok to_i64_range)
  have b: "injected_bytes (snd ?go) = injected_bytes (if fst ?go then put_bytes (p_session r) (to_i64 (p_bytes r)) st else st)"
    by (simp add: record_injected_bytes)
  show "bytes_of k (snd ?go) = (if fst ?go \<and> k = p_session r then bytes_of k st + to_i64 (p_bytes r) else bytes_of k st)"
    using bytes_of_cong [OF b, of k] by (simp add: bytes_of_put)
  show "bytes_sane st \<Longrightarrow> bytes_sane (snd ?go)"
    using bytes_sane_cong [OF b] bytes_sane_put [OF _ to_i64_range, of st] by simp
qed

fun push_all :: "nat \<Rightarrow> push list \<Rightarrow> store \<Rightarrow> bool list \<times> store" where
  "push_all cap [] db = ([], db)"
| "push_all cap (r # rs) db =
     (let (ok, db1) = push1 cap r db; (oks, db2) = push_all cap rs db1 in (ok # oks, db2))"

lemma push_all_requests: "push_all cap rs db = budget.requests cap rs db"
  by (induction rs arbitrary: db) (simp_all split: prod.split)

text \<open>
  C7: the session budget binds however hooks race. Injections of any sizes, by any number of
  processes in any order, each one atomic call: a session's recorded bytes never pass the cap,
  and they are exactly the sum of the calls that were granted.
\<close>
theorem session_budget_binds:
  assumes "bytes_sane db" "bytes_of s db \<le> to_i64 cap"
  shows "bytes_of s (snd (push_all cap rs db)) \<le> to_i64 cap \<and>
    bytes_of s (snd (push_all cap rs db)) = bytes_of s db +
      (\<Sum>(ok, r) \<leftarrow> zip (fst (push_all cap rs db)) rs. if ok \<and> p_session r = s then to_i64 (p_bytes r) else 0)"
  unfolding push_all_requests by (intro conjI budget.requests_within [OF assms] budget.requests_sum)

theorem session_budget_binds_witness:
  "bytes_of (lit ''s'') (snd (push_all 100
     [\<lparr>p_session = lit ''s'', p_ids = [lit ''0a''], p_in_flight = 0, p_bytes = 70\<rparr>,
      \<lparr>p_session = lit ''s'', p_ids = [], p_in_flight = 0, p_bytes = 40\<rparr>] empty_store)) \<le> to_i64 100"
  by (rule session_budget_binds [THEN conjunct1]) (simp_all add: bytes_sane_def bytes_of_def empty_store_def to_i64_def)

section \<open>The counters and the tables behind them\<close>

definition reads_of :: "rstr \<Rightarrow> store \<Rightarrow> nat" where
  "reads_of i db = length (sel (\<lambda>c. c_event c = i) (recalled db))"

definition shows_of :: "rstr \<Rightarrow> store \<Rightarrow> nat" where
  "shows_of i db = length (sel (\<lambda>c. i_event c = i) (injected db))"

text \<open>
  The two counters on an event's row are caches of the side tables: one read per session that
  was handed the event, one injection per session it was pushed to.
\<close>

definition counts_ok :: "store \<Rightarrow> bool" where
  "counts_ok db = list_all (\<lambda>r. r_read_count r = int (reads_of (r_id r) db)
     \<and> r_injected_count r = int (shows_of (r_id r) db)) (events db)"

lemma upd_recall_tables:
  "events (upd_recall s i f db) = events db" "injected (upd_recall s i f db) = injected db"
  by (simp_all add: upd_recall_def)

lemma length_sel_upd: "(\<And>r. P r \<Longrightarrow> Q (f r) = Q r) \<Longrightarrow> length (sel Q (upd P f t)) = length (sel Q t)"
  by (induction t) (auto simp: sel_def upd_def)

lemma reads_upd_recall: "(\<And>c. recall_key (f c) = recall_key c) \<Longrightarrow> reads_of i (upd_recall s j f db) = reads_of i db"
  by (auto simp: reads_of_def upd_recall_def intro!: length_sel_upd)

lemma counts_ok_cong:
  "events db = events db' \<Longrightarrow> (\<And>i. reads_of i db = reads_of i db') \<Longrightarrow> (\<And>i. shows_of i db = shows_of i db') \<Longrightarrow>
   counts_ok db = counts_ok db'"
  by (simp add: counts_ok_def)

lemma tie_host_key: "recall_key (tie_host how h c) = recall_key c"
  by (simp add: tie_host_def split: reach.split)

lemma counts_ok_upd_recall:
  "(\<And>c. recall_key (f c) = recall_key c) \<Longrightarrow> counts_ok (upd_recall s i f db) = counts_ok db"
  by (rule counts_ok_cong) (simp_all add: upd_recall_tables reads_upd_recall shows_of_def)

lemma counts_ok_recall1: "counts_ok db \<Longrightarrow> counts_ok (record_recall1 s h how i db)"
proof (cases "row_of recall_key (s, i) (recalled db)")
  case None
  assume "counts_ok db"
  then show ?thesis using None
    by (auto simp: counts_ok_def list_all_iff record_recall1_def upd_event_def upd_def reads_of_def shows_of_def sel_def)
next
  case (Some c)
  assume "counts_ok db"
  then show ?thesis using Some
    by (auto simp: record_recall1_def Let_def counts_ok_upd_recall tie_host_key split: option.split)
qed

lemma counts_ok_recall: "counts_ok db \<Longrightarrow> counts_ok (record_recall s h ids how db)"
  unfolding record_recall_def by (rule foldl_keeps) (auto simp: counts_ok_recall1)

lemma counts_ok_note: "counts_ok db \<Longrightarrow> counts_ok (note_injected_id s i f db)"
proof (cases "row_of injected_key (s, i) (injected db)")
  case None
  assume "counts_ok db"
  then show ?thesis using None
    by (auto simp: counts_ok_def list_all_iff note_injected_id_def upd_event_def upd_def reads_of_def shows_of_def sel_def)
next
  case (Some r)
  have "counts_ok (note_injected_id s i f db) = counts_ok db"
    by (rule counts_ok_cong) (auto simp: note_injected_id_def Some reads_of_def shows_of_def intro!: length_sel_upd)
  then show "counts_ok db \<Longrightarrow> ?thesis" by simp
qed

lemma counts_ok_put_bytes: "counts_ok (put_bytes s b db) = counts_ok db"
  by (rule counts_ok_cong) (simp_all add: put_bytes_def reads_of_def shows_of_def)

lemma counts_ok_notes:
  assumes "counts_ok db"
  shows "counts_ok (foldl (\<lambda>db (at, i). note_injected_id s i (at < k) db) db ids)"
  by (rule foldl_keeps [where P = counts_ok, OF assms]) (simp add: counts_ok_note split: prod.split)

lemma counts_ok_record_injected:
  assumes "counts_ok db"
  shows "counts_ok (snd (record_injected s ids k b cap db))"
proof -
  obtain ok db1 where r: "reserve_bytes s (to_i64 b) (to_i64 cap) db = (ok, db1)" by fastforce
  then have "counts_ok db1"
    using reserve_bytes_state [of s "to_i64 b" "to_i64 cap" db] assms by (simp add: counts_ok_put_bytes)
  then show ?thesis using assms by (simp add: record_injected_def r counts_ok_notes)
qed

lemma counts_ok_reset: "counts_ok (reset_injection_state s db) = counts_ok db"
  by (rule counts_ok_cong) (auto simp: reset_injection_state_def reads_of_def shows_of_def intro!: length_sel_upd)

lemma counts_ok_file: "counts_ok (record_injected_file s p db) = counts_ok db"
  by (rule counts_ok_cong) (simp_all add: record_injected_file_def reads_of_def shows_of_def)

lemma counts_ok_fold_id: "counts_ok db \<Longrightarrow> counts_ok (fold_id line db i)"
  by (simp add: fold_id_def counts_ok_recall counts_ok_note counts_ok_file split: ledger.split)

lemma counts_ok_fold_line: "counts_ok db \<Longrightarrow> counts_ok (fold_line db line)"
  unfolding fold_line_def Let_def
  by (rule foldl_keeps [where P = counts_ok]) (simp_all add: counts_ok_put_bytes counts_ok_fold_id)

lemma counts_ok_fold: "counts_ok db \<Longrightarrow> counts_ok (fst (fold_surfaced lines db))"
  unfolding fold_surfaced_def fst_conv
  by (rule foldl_keeps [where P = counts_ok]) (simp_all add: counts_ok_fold_line)

text \<open>Indexing: the rows an event touches keep both counters, the event's own row gets them back.\<close>

abbreviation counters :: "store \<Rightarrow> (rstr \<times> int \<times> int) list" where
  "counters db \<equiv> map (\<lambda>r. (r_id r, r_read_count r, r_injected_count r)) (events db)"

lemma counts_ok_counters:
  "counts_ok db = (\<forall>(i, a, b) \<in> set (counters db). a = int (reads_of i db) \<and> b = int (shows_of i db))"
  by (auto simp: counts_ok_def list_all_iff)

lemma counters_links [simp]: "counters (apply_links e db) = counters db"
  unfolding apply_links_def
  by (rule foldl_frame) (simp add: apply_link_def apply_defs Let_def table_simps upd_def split: event_kind.split)

lemma counters_settle [simp]: "counters (settle_summary e db) = counters db"
  by (simp add: settle_summary_rows settle_row_def cong: if_cong)

definition sides :: "store \<Rightarrow> recall_row list \<times> injected_row list" where
  "sides db = (recalled db, injected db)"

lemma reads_sides: "reads_of i db = length (sel (\<lambda>c. c_event c = i) (fst (sides db)))"
  "shows_of i db = length (sel (\<lambda>c. i_event c = i) (snd (sides db)))"
  by (simp_all add: reads_of_def shows_of_def sides_def)

lemma sides_index_rows: "sides (index_with x body clamped e restore db) = sides db"
  by (simp add: sides_def index_with_rows index_rows_def Let_def table_simps)

lemma counters_upsert_mem:
  "v \<in> set (counters (upsert_event fs it b c e db)) \<Longrightarrow>
   v \<in> set (counters db) \<or> (v = (ev_id e, 0, 0) \<and> ev_id e \<notin> r_id ` set (events db))"
proof (cases "event_of (ev_id e) db")
  case None
  then show "v \<in> set (counters (upsert_event fs it b c e db)) \<Longrightarrow> ?thesis"
    by (auto simp: upsert_event_def row_of_None)
next
  case (Some r)
  then have "counters (upsert_event fs it b c e db) = counters db"
    by (simp add: upsert_event_def upd_event_def upd_def)
  then show "v \<in> set (counters (upsert_event fs it b c e db)) \<Longrightarrow> ?thesis" by simp
qed

lemma counters_restore_mem:
  "(i, a, b) \<in> set (counters (restore_counts j db)) \<Longrightarrow>
   \<exists>a' b'. (i, a', b') \<in> set (counters db) \<and>
     (if i = j then a = (if reads_of i db > 0 then int (reads_of i db) else a') \<and>
                         b = (if shows_of i db > 0 then int (shows_of i db) else b')
      else a = a' \<and> b = b')"
  by (force simp: restore_counts_rows count_row_def Let_def reads_of_def shows_of_def)

lemma sides_parts [simp]:
  "sides (upsert_event fs it b c e db) = sides db" "sides (set_lesson_triggers i cs db) = sides db"
  "sides (apply_links e db) = sides db" "sides (restore_counts i db) = sides db"
  "sides (settle_summary e db) = sides db"
  by (simp_all add: sides_def table_simps)

lemma counters_triggers [simp]: "counters (set_lesson_triggers i cs db) = counters db"
  by (simp add: table_simps)

lemma counts_ok_index_with:
  assumes ok: "counts_ok db"
    and restore: "restore \<or> (reads_of (ev_id e) db = 0 \<and> shows_of (ev_id e) db = 0)"
  shows "counts_ok (index_with x body clamped e restore db)"
proof -
  let ?db' = "index_with x body clamped e restore db"
  let ?u = "upsert_event (subject_files_for db e) (has_intent x e) body clamped e db"
  let ?v = "if ev_kind e = Knowledge \<and> ev_commands e \<noteq> [] then set_lesson_triggers (ev_id e) (ev_commands e) ?u else ?u"
  let ?w = "apply_links e ?v"
  have w: "counters ?w = counters ?u" "sides ?w = sides db" by simp_all
  have s: "reads_of i ?db' = reads_of i db" "shows_of i ?db' = shows_of i db"
    "reads_of i ?w = reads_of i db" "shows_of i ?w = shows_of i db" for i
    using sides_index_rows [of x body clamped e restore db] w(2) by (simp_all add: reads_sides)
  have c: "counters ?db' = counters (if restore then restore_counts (ev_id e) ?w else ?w)"
    by (simp add: events_index_with index_rows_def Let_def)
  have u: "(i, a, b) \<in> set (counters ?w) \<Longrightarrow>
      (a = int (reads_of i db) \<and> b = int (shows_of i db)) \<or> (i = ev_id e \<and> a = 0 \<and> b = 0)" for i a b
    using counters_upsert_mem [of "(i, a, b)"] ok unfolding w(1) counts_ok_counters by fastforce
  have "a = int (reads_of i db) \<and> b = int (shows_of i db)" if "(i, a, b) \<in> set (counters ?db')" for i a b
  proof (cases restore)
    case True
    have "(i, a, b) \<in> set (counters (restore_counts (ev_id e) ?w))"
      using that unfolding c by (simp only: True if_True)
    then obtain a' b' where m: "(i, a', b') \<in> set (counters ?w)"
      "if i = ev_id e then a = (if reads_of i db > 0 then int (reads_of i db) else a') \<and>
                         b = (if shows_of i db > 0 then int (shows_of i db) else b')
      else a = a' \<and> b = b'" using counters_restore_mem [of i a b "ev_id e" ?w] unfolding s by blast
    from u [OF m(1)] m(2) show ?thesis by (auto split: if_splits)
  next
    case False
    have "(i, a, b) \<in> set (counters ?w)" using that unfolding c by (simp only: False if_False)
    from u [OF this] show ?thesis using restore False by auto
  qed
  then show ?thesis unfolding counts_ok_counters by (auto simp: s)
qed

lemma counts_ok_index:
  "counts_ok db \<Longrightarrow> index x e db = Some db' \<Longrightarrow> counts_ok db'"
  by (auto simp: index_def index_event_def counts_ok_index_with)

lemma counts_ok_replay: "replay x es db = Some db' \<Longrightarrow> counts_ok db \<Longrightarrow> counts_ok db'"
proof (induction es arbitrary: db)
  case (Cons e es)
  then show ?case using counts_ok_index by (auto split: option.splits)
qed simp

lemma counts_ok_clear: "counts_ok (clear_store db)"
  by (simp add: counts_ok_def clear_store_def)

text \<open>Every call that writes an event row, a recall or an injection, as one step.\<close>

inductive ledger_step :: "extern \<Rightarrow> store \<Rightarrow> store \<Rightarrow> bool" for x where
  indexed: "index x e db = Some db' \<Longrightarrow> ledger_step x db db'"
| captured: "index_captured x e db = Some db' \<Longrightarrow> reads_of (ev_id e) db = 0 \<Longrightarrow> shows_of (ev_id e) db = 0 \<Longrightarrow>
    ledger_step x db db'"
| recalled_ids: "ledger_step x db (record_recall s host ids how db)"
| pushed: "ledger_step x db (snd (record_injected s ids k b cap db))"
| folded: "ledger_step x db (fst (fold_surfaced lines db))"
| filed: "ledger_step x db (record_injected_file s p db)"
| reset: "ledger_step x db (reset_injection_state s db)"
| resettled: "ledger_step x db (fst (resettle_replayed db))"
| cleared: "ledger_step x db (clear_store db)"

lemma counts_ok_resettle: "counts_ok db \<Longrightarrow> counts_ok (fst (resettle_replayed db))"
  by (auto simp: resettle_replayed_def counts_ok_def list_all_iff upd_def reads_of_def shows_of_def)

lemma counts_ok_step: "ledger_step x db db' \<Longrightarrow> counts_ok db \<Longrightarrow> counts_ok db'"
  by (induction rule: ledger_step.induct)
    (auto simp: counts_ok_recall counts_ok_record_injected counts_ok_fold counts_ok_file counts_ok_reset
      counts_ok_clear counts_ok_resettle counts_ok_index index_captured_def index_event_def counts_ok_index_with)



section \<open>Folding the spill twice\<close>

definition covered :: "ledger \<Rightarrow> rstr \<Rightarrow> rstr \<Rightarrow> store \<Rightarrow> bool" where
  "covered k s i db =
     (case k of
        Recalled \<Rightarrow> (s, i) \<in> recall_key ` set (recalled db)
      | OpenedIds \<Rightarrow> (case row_of recall_key (s, i) (recalled db) of None \<Rightarrow> False | Some c \<Rightarrow> c_opened c)
      | Injected \<Rightarrow> (s, i) \<in> injected_key ` set (injected db) \<and> (\<forall>r\<in>set (injected db). injected_key r = (s, i) \<longrightarrow> i_active r)
      | File \<Rightarrow> (s, i) \<in> set (injected_files db))"

lemma upd_id: "(\<And>r. r \<in> set t \<Longrightarrow> P r \<Longrightarrow> f r = r) \<Longrightarrow> upd P f t = t"
  by (induction t) (auto simp: upd_def)

lemma covered_fold_id: "covered (l_kind line) (l_session line) i db \<Longrightarrow> fold_id line db i = db"
proof (cases "l_kind line")
  case Recalled
  assume "covered (l_kind line) (l_session line) i db"
  then show ?thesis using Recalled
    by (auto simp: fold_id_def covered_def record_recall_def record_recall1_def row_of_ex)
next
  case OpenedIds
  assume c: "covered (l_kind line) (l_session line) i db"
  then obtain c where "row_of recall_key (l_session line, i) (recalled db) = Some c" "c_opened c"
    using OpenedIds by (auto simp: covered_def split: option.splits)
  then show ?thesis using OpenedIds
    by (simp add: fold_id_def record_recall_def record_recall1_def)
next
  case Injected
  assume c: "covered (l_kind line) (l_session line) i db"
  then obtain r where "row_of injected_key (l_session line, i) (injected db) = Some r"
    using Injected by (auto simp: covered_def row_of_ex)
  moreover have "upd (\<lambda>r. injected_key r = (l_session line, i)) (\<lambda>r. r\<lparr>i_active := True, i_in_flight := i_in_flight r \<or> False\<rparr>) (injected db) = injected db"
    by (rule upd_id) (use c Injected in \<open>simp add: covered_def\<close>)
  ultimately show ?thesis using Injected by (simp add: fold_id_def note_injected_id_def)
next
  case File
  assume "covered (l_kind line) (l_session line) i db"
  then show ?thesis using File by (simp add: fold_id_def record_injected_file_def covered_def)
qed

lemma fold_id_covers: "covered (l_kind line) (l_session line) i (fold_id line db i)"
proof (cases "l_kind line")
  case Recalled
  then show ?thesis
    by (cases "row_of recall_key (l_session line, i) (recalled db)")
      (auto simp: fold_id_def covered_def record_recall_def record_recall1_def table_simps row_of_ex)
next
  case OpenedIds
  let ?k = "(l_session line, i)"
  show ?thesis
  proof (cases "row_of recall_key ?k (recalled db)")
    case None
    then show ?thesis
      by (simp add: OpenedIds fold_id_def covered_def record_recall_def record_recall1_def table_simps row_of_append row_of_Cons)
  next
    case (Some c)
    have "row_of recall_key ?k (recalled (upd_recall (l_session line) i (\<lambda>c. c\<lparr>c_opened := True\<rparr>) db))
        = Some (c\<lparr>c_opened := True\<rparr>)"
      using row_of_Some [OF Some] by (simp add: upd_recall_def row_of_upd Some)
    then show ?thesis using Some
      by (simp add: OpenedIds fold_id_def covered_def record_recall_def record_recall1_def)
  qed
next
  case Injected
  let ?k = "(l_session line, i)"
  show ?thesis
  proof (cases "row_of injected_key ?k (injected db)")
    case None
    then have "?k \<notin> injected_key ` set (injected db)" by (simp add: row_of_None)
    then have n: "injected_key r \<noteq> ?k" if "r \<in> set (injected db)" for r
      using imageI [OF that, of injected_key] by metis
    have "\<forall>r\<in>set (injected (note_injected_id (l_session line) i False db)). injected_key r = ?k \<longrightarrow> i_active r"
      using n by (simp add: note_injected_id_def None) blast
    then show ?thesis using None
      by (simp add: Injected fold_id_def covered_def note_injected_id_def)
  next
    case (Some r)
    then have "?k \<in> injected_key ` set (injected db)" by (simp only: row_of_ex) blast
    moreover have "injected_key ` set (injected (note_injected_id (l_session line) i False db)) = injected_key ` set (injected db)"
      using keys_upd [of "\<lambda>r. injected_key r = ?k" injected_key "\<lambda>r. r\<lparr>i_active := True, i_in_flight := i_in_flight r \<or> False\<rparr>" "injected db"]
      by (simp add: note_injected_id_def Some)
    ultimately have "?k \<in> injected_key ` set (injected (note_injected_id (l_session line) i False db))" by simp
    moreover have "\<forall>r\<in>set (injected (note_injected_id (l_session line) i False db)). injected_key r = ?k \<longrightarrow> i_active r"
      using upd_all [of "\<lambda>r. injected_key r = ?k" i_active "\<lambda>r. r\<lparr>i_active := True, i_in_flight := i_in_flight r \<or> False\<rparr>" "injected db"]
      by (simp add: note_injected_id_def Some)
    ultimately show ?thesis by (simp add: Injected fold_id_def covered_def)
  qed
next
  case File
  then show ?thesis by (simp add: fold_id_def covered_def record_injected_file_def)
qed

lemma covered_recall1: "covered k s i db \<Longrightarrow> covered k s i (record_recall1 s' None how j db)"
proof -
  assume c: "covered k s i db"
  have t: "injected (record_recall1 s' None how j db) = injected db" "injected_files (record_recall1 s' None how j db) = injected_files db"
    by (simp_all add: record_recall1_def Let_def table_simps upd_recall_def split: option.split)
  have k: "recall_key ` set (recalled db) \<subseteq> recall_key ` set (recalled (record_recall1 s' None how j db))"
    by (auto simp: record_recall1_def Let_def table_simps upd_recall_def keys_upd split: option.split)
  have "row_of recall_key (s, i) (recalled db) = Some c0 \<Longrightarrow> c_opened c0 \<Longrightarrow>
      \<exists>c1. row_of recall_key (s, i) (recalled (record_recall1 s' None how j db)) = Some c1 \<and> c_opened c1" for c0
    by (auto simp: record_recall1_def Let_def table_simps upd_recall_def row_of_append row_of_upd split: option.split)
  then show ?thesis using c k by (auto simp: covered_def t split: ledger.splits option.splits)
qed

lemma covered_note: "covered k s i db \<Longrightarrow> covered k s i (note_injected_id s' j f db)"
proof -
  assume c: "covered k s i db"
  have "recalled (note_injected_id s' j f db) = recalled db" "injected_files (note_injected_id s' j f db) = injected_files db"
    by (simp_all add: note_injected_id_def table_simps split: option.split)
  moreover have "injected_key ` set (injected db) \<subseteq> injected_key ` set (injected (note_injected_id s' j f db))"
    by (auto simp: note_injected_id_def keys_upd split: option.split)
  moreover have "\<forall>r\<in>set (injected (note_injected_id s' j f db)). injected_key r = (s, i) \<longrightarrow> i_active r"
    if "\<forall>r\<in>set (injected db). injected_key r = (s, i) \<longrightarrow> i_active r"
    using that by (auto simp: note_injected_id_def upd_def split: option.split)
  ultimately show ?thesis using c by (auto simp: covered_def split: ledger.splits)
qed

lemma covered_step: "covered k s i db \<Longrightarrow> covered k s i (fold_id line db j)"
  by (auto simp: fold_id_def record_recall_def covered_recall1 covered_note split: ledger.split)
    (auto simp: covered_def record_injected_file_def split: ledger.splits)

lemma covered_put_bytes [simp]: "covered k s i (put_bytes s' b db) = covered k s i db"
  by (simp add: covered_def put_bytes_def split: ledger.split)

lemma covered_ids: "covered k s i db \<Longrightarrow> covered k s i (foldl (fold_id line) db ids)"
  by (rule foldl_keeps) (auto simp: covered_step)

lemma covered_line: "covered k s i db \<Longrightarrow> covered k s i (fold_line db line)"
  by (simp add: fold_line_def Let_def covered_ids)

lemma covered_lines: "covered k s i db \<Longrightarrow> covered k s i (foldl fold_line db lines)"
  by (rule foldl_keeps) (auto simp: covered_line)

lemma fold_ids_cover: "i \<in> set ids \<Longrightarrow> covered (l_kind line) (l_session line) i (foldl (fold_id line) db ids)"
  by (induction ids arbitrary: db) (auto intro: covered_ids fold_id_covers)

lemma fold_line_covers: "i \<in> set (l_ids line) \<Longrightarrow> covered (l_kind line) (l_session line) i (fold_line db line)"
  by (simp add: fold_line_def Let_def fold_ids_cover)

lemma fold_lines_cover:
  "line \<in> set lines \<Longrightarrow> i \<in> set (l_ids line) \<Longrightarrow> covered (l_kind line) (l_session line) i (foldl fold_line db lines)"
  by (induction lines arbitrary: db) (auto intro: covered_lines fold_line_covers)

lemma fold_line_again:
  assumes "\<And>i. i \<in> set (l_ids line) \<Longrightarrow> covered (l_kind line) (l_session line) i db"
  shows "fold_line db line = db"
proof -
  have "foldl (fold_id line) db ids = db" if "set ids \<subseteq> set (l_ids line)" for ids
    using that assms by (induction ids) (auto simp: covered_fold_id)
  moreover have "\<not> any_unseen_injection line db" if "l_kind line = Injected"
    using assms that by (auto simp: any_unseen_injection_def list_ex_iff covered_def row_of_None)
  ultimately show ?thesis by (auto simp: fold_line_def Let_def)
qed

text \<open>
  folding the spill is idempotent. Lines that were folded once - from a fold that died before
  its file was emptied, or a file read twice - change nothing when they are folded again: no
  counter, no recall, no injected byte.
\<close>
theorem fold_surfaced_idempotent:
  "fst (fold_surfaced lines (fst (fold_surfaced lines db))) = fst (fold_surfaced lines db)"
proof -
  let ?db = "foldl fold_line db lines"
  have "foldl fold_line ?db ls = ?db" if "set ls \<subseteq> set lines" for ls
    using that
  proof (induction ls)
    case (Cons l ls)
    then have "fold_line ?db l = ?db" by (intro fold_line_again fold_lines_cover) auto
    then show ?case using Cons by simp
  qed simp
  then show ?thesis by (simp add: fold_surfaced_def)
qed

section \<open>What was shown stays known\<close>

lemma record_recall_shows: "i \<in> set ids \<Longrightarrow> was_recalled s i (record_recall s host ids how db)"
proof -
  have key: "recall_key ` set (recalled db) \<subseteq> recall_key ` set (recalled (record_recall1 s host how j db))" for j db
    by (auto simp: record_recall1_def Let_def table_simps upd_recall_def keys_upd tie_host_key split: option.split)
  have new: "(s, j) \<in> recall_key ` set (recalled (record_recall1 s host how j db))" for j db
  proof (cases "row_of recall_key (s, j) (recalled db)")
    case None
    then show ?thesis by (simp add: record_recall1_def table_simps)
  next
    case (Some c)
    then have "(s, j) \<in> recall_key ` set (recalled db)" by (auto simp: row_of_ex)
    then show ?thesis using key by blast
  qed
  assume "i \<in> set ids"
  then have "(s, i) \<in> recall_key ` set (recalled (record_recall s host ids how db))"
    unfolding record_recall_def
  proof (induction ids arbitrary: db)
    case (Cons j ids)
    have "(s, i) \<in> recall_key ` set (recalled db) \<Longrightarrow> (s, i) \<in> recall_key ` set (recalled (foldl (\<lambda>db i. record_recall1 s host how i db) db ids))" for db
    proof -
      assume "(s, i) \<in> recall_key ` set (recalled db)"
      then show ?thesis
        by (intro foldl_keeps [where P = "\<lambda>db. (s, i) \<in> recall_key ` set (recalled db)"]) (use key in blast)+
    qed
    then show ?case using Cons new by auto
  qed simp
  then show ?thesis by (auto simp: was_recalled_def list_ex_iff)
qed

end
