(* ===== verification/Store_Queue.thy ===== *)
theory Store_Queue
  imports Store_Ledger
begin

text \<open>
  The work queue of \<open>src/src/store.rs\<close>: the per-session claim and the idle-sweep window, the
  record of runs and failures with its parking rule, the summarizer's circuit breaker, the
  consolidation asks, and the counters of a project.

  A time is a number of nanoseconds since 1970. The columns hold \<open>jiff::Timestamp\<close> as text, which
  SQLite compares as text: \<open>show_ts\<close> and \<open>parse_ts\<close> of the record \<open>clock\<close> are jiff's printer
  and parser. jiff prints as many fractional digits as the value needs, so two texts within one
  second do not compare as the times do (\<open>...:00.5Z\<close> is below \<open>...:00Z\<close>); only the order of
  whole seconds is relied on.
\<close>

record clock =
  show_ts :: "int \<Rightarrow> rstr"
  parse_ts :: "rstr \<Rightarrow> int option"

definition SEC :: int where "SEC = 1000000000"

definition clock_ok :: "clock \<Rightarrow> bool" where
  "clock_ok c = ((\<forall>a b. 0 \<le> a \<longrightarrow> a div SEC < b div SEC \<longrightarrow> show_ts c a < show_ts c b)
     \<and> (\<forall>t. 0 \<le> t \<longrightarrow> parse_ts c (show_ts c t) = Some t))"

definition sample_clock :: clock where
  "sample_clock = \<lparr>show_ts = (\<lambda>t. [nat t]), parse_ts = (\<lambda>s. case s of [n] \<Rightarrow> Some (int n) | _ \<Rightarrow> None)\<rparr>"

section \<open>A lease on a key\<close>

text \<open>
  What both claims promise: a claim succeeds when nobody holds the key or the holder's stamp is
  older than the term, and stamps the key with the claimant's time.
\<close>

locale lease =
  fixes clk :: clock
    and holder :: "'k \<Rightarrow> 'st \<Rightarrow> rstr option"
    and claim :: "'k \<Rightarrow> int \<Rightarrow> 'st \<Rightarrow> bool \<times> 'st"
    and duration :: int
  assumes claim_iff: "fst (claim k now st) = (case holder k st of None \<Rightarrow> True | Some t \<Rightarrow> t < show_ts clk (now - duration))"
    and holder_claim: "holder k' (snd (claim k now st)) =
      (if fst (claim k now st) \<and> k' = k then Some (show_ts clk now) else holder k' st)"
begin

text \<open>Attempts of any processes at any keys, each with its reading of the clock.\<close>

fun attempts :: "('k \<times> int) list \<Rightarrow> 'st \<Rightarrow> bool list \<times> 'st" where
  "attempts [] st = ([], st)"
| "attempts ((k, now) # as) st =
     (let (ok, st1) = claim k now st; (oks, st2) = attempts as st1 in (ok # oks, st2))"

lemma attempts_Cons:
  "fst (attempts ((k, now) # as) st) = fst (claim k now st) # fst (attempts as (snd (claim k now st)))"
  by (simp split: prod.split)

definition granted :: "('k \<times> int) list \<Rightarrow> 'st \<Rightarrow> ('k \<times> int) list" where
  "granted as st = map snd (filter fst (zip (fst (attempts as st)) as))"

lemma granted_Cons:
  "granted ((k, now) # as) st =
   (if fst (claim k now st) then [(k, now)] else []) @ granted as (snd (claim k now st))"
  by (simp add: granted_def attempts_Cons del: attempts.simps)

lemma refused_inside:
  assumes clk: "clock_ok clk" and "holder k st = Some (show_ts clk t)" "duration \<le> now" "now < t + duration - SEC"
  shows "\<not> fst (claim k now st)"
proof -
  have "(now - duration) div SEC < t div SEC"
    using assms(4) by (simp add: SEC_def)
  then have "show_ts clk (now - duration) < show_ts clk t" using clk assms(3) by (simp add: clock_ok_def)
  then show ?thesis by (simp add: claim_iff assms(2))
qed

lemma granted_after_term:
  assumes clk: "clock_ok clk" and "holder k st = Some (show_ts clk t)" "0 \<le> t" "t + duration + SEC \<le> now"
  shows "fst (claim k now st)"
proof -
  have "t div SEC < (now - duration) div SEC" using assms(4) by (simp add: SEC_def)
  then show ?thesis using clk assms(2,3) by (simp add: clock_ok_def claim_iff)
qed

lemma granted_apart:
  assumes clk: "clock_ok clk" and "holder k st = Some (show_ts clk t0)" "\<forall>(k', now) \<in> set as. duration \<le> now \<and> t0 \<le> now"
    "sorted (map snd as)" "(k, t) \<in> set (granted as st)" "0 \<le> duration"
  shows "t0 + duration - SEC \<le> t"
  using assms(2-)
proof (induction as arbitrary: st)
  case Nil
  then show ?case by (simp add: granted_def)
next
  case (Cons a as)
  obtain k' now where a: "a = (k', now)" by fastforce
  let ?st = "snd (claim k' now st)"
  show ?case
  proof (cases "k' = k \<and> fst (claim k' now st)")
    case True
    then have "t0 + duration - SEC \<le> now"
      using refused_inside [OF clk, of k st t0 now] Cons.prems a by fastforce
    moreover have "(k, t) \<in> set (a # as)" using Cons.prems(4)
      by (auto simp: granted_def dest!: set_zip_rightD)
    then have "now \<le> t" using Cons.prems(3) a by force
    ultimately show ?thesis by simp
  next
    case False
    then have "holder k ?st = Some (show_ts clk t0)" using Cons.prems(1) by (auto simp: holder_claim)
    moreover have "(k, t) \<in> set (granted as ?st)" using Cons.prems(4) False
      by (auto simp: a granted_Cons split: if_splits)
    ultimately show ?thesis using Cons by (auto simp: a)
  qed
qed

text \<open>Two grants of one key with no release between them are a term apart, less a second.\<close>

lemma exclusive:
  assumes clk: "clock_ok clk" and "sorted (map snd as)" "\<forall>(k', now) \<in> set as. duration \<le> now" "0 \<le> duration"
    "i < j" "j < length as" "fst (as ! i) = fst (as ! j)"
    "fst (attempts as st) ! i" "fst (attempts as st) ! j"
  shows "snd (as ! i) + duration - SEC \<le> snd (as ! j)"
  using assms(2-)
proof (induction as arbitrary: st i j)
  case (Cons a as)
  obtain k' now where a: "a = (k', now)" by fastforce
  let ?st = "snd (claim k' now st)"
  have len: "length (fst (attempts as st)) = length as" for as st
    by (induction as arbitrary: st) (auto split: prod.splits, metis fst_conv)
  obtain j' where j: "j = Suc j'" using Cons.prems(4) by (cases j) auto
  show ?case
  proof (cases i)
    case 0
    then have ok: "fst (claim k' now st)" using Cons.prems(7) by (simp add: a attempts_Cons del: attempts.simps)
    have jj: "j' < length as" "fst (attempts as ?st) ! j'" using Cons.prems(5,8)
      by (simp_all add: a j attempts_Cons del: attempts.simps)
    have "zip (fst (attempts as ?st)) as ! j' = (True, as ! j')" using jj len [of as ?st] by simp
    then have "(True, as ! j') \<in> set (zip (fst (attempts as ?st)) as)"
      using jj len [of as ?st] by (metis length_zip min.idem nth_mem)
    then have "as ! j' \<in> set (granted as ?st)" by (force simp: granted_def)
    moreover have "as ! j' = (k', snd (as ! j'))" using Cons.prems(6) 0 by (simp add: a j prod_eq_iff)
    ultimately have "(k', snd (as ! j')) \<in> set (granted as ?st)" by metis
    moreover have "holder k' ?st = Some (show_ts clk now)" using ok by (simp add: holder_claim)
    moreover have "\<forall>(k', now') \<in> set as. duration \<le> now' \<and> now \<le> now'" using Cons.prems(1,2) by (auto simp: a)
    ultimately have "now + duration - SEC \<le> snd (as ! j')"
      using Cons.prems(1,3) by (intro granted_apart [OF clk, of k' ?st now as]) (auto simp: a)
    then show ?thesis by (simp add: a j 0)
  next
    case (Suc i')
    then show ?thesis using Cons.prems
      by (simp add: a j attempts_Cons del: attempts.simps) (rule Cons.IH [of i' j' ?st]; simp)
  qed
qed simp

end

section \<open>Session claims and the idle window\<close>

definition CLAIM_STALE_SECS :: int where "CLAIM_STALE_SECS = 300"

definition new_session_row :: "rstr \<Rightarrow> rstr \<Rightarrow> session_row" where
  "new_session_row session project =
     \<lparr>s_session = session, s_project = project, s_last_run_at = None, s_last_event_id = None,
      s_last_tier = None, s_claimed_at = None, s_attempts = 0, s_last_error = None, s_last_attempt_at = None\<rparr>"

abbreviation session_of :: "rstr \<Rightarrow> store \<Rightarrow> session_row option" where
  "session_of s db \<equiv> row_of s_session s (session_state db)"

definition claim_session :: "clock \<Rightarrow> rstr \<Rightarrow> rstr \<Rightarrow> int \<Rightarrow> store \<Rightarrow> bool \<times> store" where
  "claim_session c session project now db =
     (let stale = show_ts c (now - CLAIM_STALE_SECS * SEC) in
      case session_of session db of
        None \<Rightarrow> (True, db\<lparr>session_state := session_state db @
                   [(new_session_row session project)\<lparr>s_claimed_at := Some (show_ts c now)\<rparr>]\<rparr>)
      | Some r \<Rightarrow>
          (if (case s_claimed_at r of None \<Rightarrow> True | Some at \<Rightarrow> at < stale)
           then (True, db\<lparr>session_state := upd (\<lambda>r. s_session r = session)
                   (\<lambda>r. r\<lparr>s_claimed_at := Some (show_ts c now)\<rparr>) (session_state db)\<rparr>)
           else (False, db)))"

definition release_session :: "rstr \<Rightarrow> store \<Rightarrow> store" where
  "release_session session db =
     db\<lparr>session_state := upd (\<lambda>r. s_session r = session) (\<lambda>r. r\<lparr>s_claimed_at := None\<rparr>) (session_state db)\<rparr>"

definition IDLE_KEY :: rstr where "IDLE_KEY = lit ''last_idle_sweep_at''"

definition take_idle_sweep :: "rstr \<Rightarrow> rstr \<Rightarrow> store \<Rightarrow> bool \<times> store" where
  "take_idle_sweep now cutoff db =
     (case row_of fst IDLE_KEY (schema_state db) of
        None \<Rightarrow> (True, db\<lparr>schema_state := schema_state db @ [(IDLE_KEY, now)]\<rparr>)
      | Some kv \<Rightarrow>
          (if snd kv < cutoff
           then (True, db\<lparr>schema_state := upd (\<lambda>kv. fst kv = IDLE_KEY) (\<lambda>kv. (IDLE_KEY, now)) (schema_state db)\<rparr>)
           else (False, db)))"

definition claim_idle_sweep :: "clock \<Rightarrow> int \<Rightarrow> int \<Rightarrow> store \<Rightarrow> bool \<times> store" where
  "claim_idle_sweep c now debounce_secs db =
     (let cutoff = show_ts c (now - debounce_secs * SEC) in
      case state_get IDLE_KEY db of
        Some at \<Rightarrow> if at \<ge> cutoff then (False, db) else take_idle_sweep (show_ts c now) cutoff db
      | None \<Rightarrow> take_idle_sweep (show_ts c now) cutoff db)"

section \<open>Runs, failures and parking\<close>

definition truncate_error :: "rstr \<Rightarrow> rstr option" where
  "truncate_error err = truncate_text err 500"

definition record_session_run :: "rstr \<Rightarrow> rstr \<Rightarrow> rstr \<Rightarrow> rstr \<Rightarrow> rstr \<Rightarrow> store \<Rightarrow> store" where
  "record_session_run session project newest_event_id tier now db =
     db\<lparr>session_state := put_row s_session session
          ((new_session_row session project)\<lparr>s_last_run_at := Some now, s_last_event_id := Some newest_event_id,
             s_last_tier := Some tier\<rparr>)
          (\<lambda>r. r\<lparr>s_last_run_at := Some now, s_last_event_id := Some newest_event_id, s_last_tier := Some tier,
             s_attempts := (if tier = lit ''rule-based'' then s_attempts r else 0),
             s_last_error := (if tier = lit ''rule-based'' then s_last_error r else None)\<rparr>)
          (session_state db)\<rparr>"

definition PARK_AFTER :: int where "PARK_AFTER = 3"

definition record_session_failure :: "rstr \<Rightarrow> rstr \<Rightarrow> rstr \<Rightarrow> rstr \<Rightarrow> store \<Rightarrow> store option" where
  "record_session_failure session project err now db =
     (case truncate_error err of
        None \<Rightarrow> None
      | Some why \<Rightarrow> Some (db\<lparr>session_state := put_row s_session session
          ((new_session_row session project)\<lparr>s_attempts := 1, s_last_error := Some why, s_last_attempt_at := Some now\<rparr>)
          (\<lambda>r. r\<lparr>s_attempts := s_attempts r + 1, s_last_error := Some why, s_last_attempt_at := Some now\<rparr>)
          (session_state db)\<rparr>))"

definition reset_session_attempts :: "rstr \<Rightarrow> store \<Rightarrow> store" where
  "reset_session_attempts session db =
     db\<lparr>session_state := upd (\<lambda>r. s_session r = session) (\<lambda>r. r\<lparr>s_attempts := 0\<rparr>) (session_state db)\<rparr>"

definition parked_before :: "rstr \<Rightarrow> store \<Rightarrow> rstr list" where
  "parked_before cutoff db =
     sort (map s_session (sel (\<lambda>r. s_attempts r \<ge> PARK_AFTER \<and>
       (case s_last_attempt_at r of None \<Rightarrow> False | Some at \<Rightarrow> at < cutoff)) (session_state db)))"

definition pending_row :: "event_row \<Rightarrow> bool" where
  "pending_row r = (\<not> r_consolidated r \<and> r_kind r = Observation)"

definition parked_row :: "store \<Rightarrow> session_row \<Rightarrow> bool" where
  "parked_row db ss =
     (s_attempts ss \<ge> PARK_AFTER \<and>
      \<not> list_ex (\<lambda>n. r_session n = s_session ss \<and> pending_row n \<and>
          (case s_last_attempt_at ss of None \<Rightarrow> False | Some at \<Rightarrow> r_ts n > at)) (events db))"

definition parked_sessions :: "store \<Rightarrow> rstr list" where
  "parked_sessions db = map s_session (sel (parked_row db) (session_state db))"

definition STALE_BACKLOG_SECS :: int where "STALE_BACKLOG_SECS = 15 * 60"

definition has_stale_backlog :: "clock \<Rightarrow> int \<Rightarrow> int \<Rightarrow> store \<Rightarrow> bool" where
  "has_stale_backlog c max_age_secs now db =
     (let cutoff = show_ts c (now - max_age_secs * SEC) in
      list_ex (\<lambda>e. pending_row e \<and> r_ts e < cutoff \<and> r_session e \<notin> set (parked_sessions db)) (events db))"

definition oldest_pending_ts :: "store \<Rightarrow> rstr option" where
  "oldest_pending_ts db =
     (let ts = map r_ts (sel (\<lambda>e. pending_row e \<and> r_session e \<notin> set (parked_sessions db)) (events db))
      in if ts = [] then None else Some (Min (set ts)))"

record pending_session =
  ps_session :: rstr
  ps_pending :: int
  ps_newest :: rstr
  ps_cli :: rstr

definition sessions_pending :: "rstr \<Rightarrow> store \<Rightarrow> pending_session list" where
  "sessions_pending project db =
     (let rows = sel (\<lambda>e. r_project e = project \<and> pending_row e \<and> r_session e \<notin> set (parked_sessions db)) (events db)
      in sort_key ps_newest (map (\<lambda>s.
           let own = sel (\<lambda>e. r_session e = s) rows;
               newest = last (sort_key r_id (sel (\<lambda>e. r_session e = s) (events db)))
           in \<lparr>ps_session = s, ps_pending = int (length own), ps_newest = Max (r_id ` set own), ps_cli = r_cli newest\<rparr>)
         (remdups (map r_session rows))))"

definition session_has_pending :: "rstr \<Rightarrow> store \<Rightarrow> bool" where
  "session_has_pending session db = list_ex (\<lambda>e. r_session e = session \<and> pending_row e) (events db)"

definition session_events :: "rstr \<Rightarrow> store \<Rightarrow> rstr list" where
  "session_events session db = sort (map r_id (sel (\<lambda>e. r_session e = session \<and> pending_row e) (events db)))"

definition session_run :: "rstr \<Rightarrow> store \<Rightarrow> (rstr option \<times> rstr option \<times> rstr option) option" where
  "session_run session db =
     map_option (\<lambda>r. (s_last_run_at r, s_last_event_id r, s_last_tier r)) (session_of session db)"

definition reopen_settled_session :: "rstr \<Rightarrow> store \<Rightarrow> bool \<times> store" where
  "reopen_settled_session session db =
     (case session_of session db of
        Some r \<Rightarrow>
          (if s_last_tier r = Some (lit ''quiet'') \<or> s_last_tier r = Some (lit ''headless'')
           then (True, db\<lparr>events := upd (\<lambda>e. r_session e = session \<and> r_kind e = Observation \<and> r_forgotten e = 0)
                    (\<lambda>e. e\<lparr>r_consolidated := False\<rparr>) (events db),
                  session_state := del (\<lambda>r. s_session r = session) (session_state db)\<rparr>)
           else (False, db))
      | None \<Rightarrow> (False, db))"

definition revive_session :: "rstr \<Rightarrow> store \<Rightarrow> store" where
  "revive_session session db = reset_session_attempts session (snd (reopen_settled_session session db))"

section \<open>The summarizer's breaker\<close>

definition FAILURES_BEFORE_COOLDOWN :: int where "FAILURES_BEFORE_COOLDOWN = 3"
definition COOLDOWN_SECS :: int where "COOLDOWN_SECS = 30 * 60"

abbreviation health_of :: "rstr \<Rightarrow> store \<Rightarrow> health_row option" where
  "health_of cli db \<equiv> row_of h_cli cli (summarizer_health db)"

text \<open>\<open>now\<close> is the failure's reading of the clock, \<open>later\<close> the second one, from which the cooldown runs.\<close>

definition record_summarizer_failure :: "clock \<Rightarrow> rstr \<Rightarrow> rstr \<Rightarrow> int \<Rightarrow> int \<Rightarrow> store \<Rightarrow> store option" where
  "record_summarizer_failure c cli err now later db =
     (case truncate_error err of
        None \<Rightarrow> None
      | Some why \<Rightarrow>
          let db1 = db\<lparr>summarizer_health := put_row h_cli cli
                \<lparr>h_cli = cli, h_failures = 1, h_cooldown_until = None, h_last_error = Some why,
                 h_last_failed_at = Some (show_ts c now)\<rparr>
                (\<lambda>h. h\<lparr>h_failures := h_failures h + 1, h_last_error := Some why,
                   h_last_failed_at := Some (show_ts c now)\<rparr>)
                (summarizer_health db)\<rparr>
          in case health_of cli db1 of
               None \<Rightarrow> None
             | Some h \<Rightarrow>
                 (if h_failures h \<ge> FAILURES_BEFORE_COOLDOWN
                  then Some (db1\<lparr>summarizer_health := upd (\<lambda>h. h_cli h = cli)
                         (\<lambda>h. h\<lparr>h_cooldown_until := Some (show_ts c (later + COOLDOWN_SECS * SEC))\<rparr>)
                         (summarizer_health db1)\<rparr>)
                  else Some db1))"

definition record_summarizer_success :: "rstr \<Rightarrow> store \<Rightarrow> store" where
  "record_summarizer_success cli db =
     db\<lparr>summarizer_health := put_row h_cli cli
          \<lparr>h_cli = cli, h_failures = 0, h_cooldown_until = None, h_last_error = None, h_last_failed_at = None\<rparr>
          (\<lambda>h. h\<lparr>h_failures := 0, h_cooldown_until := None, h_last_error := None, h_last_failed_at := None\<rparr>)
          (summarizer_health db)\<rparr>"

definition summarizer_in_cooldown :: "clock \<Rightarrow> rstr \<Rightarrow> int \<Rightarrow> store \<Rightarrow> bool" where
  "summarizer_in_cooldown c cli now db =
     (case health_of cli db of
        None \<Rightarrow> False
      | Some h \<Rightarrow> (case h_cooldown_until h of
          None \<Rightarrow> False
        | Some t \<Rightarrow> (case parse_ts c t of None \<Rightarrow> False | Some u \<Rightarrow> u > now)))"

section \<open>Consolidation asks\<close>

definition next_ask_id :: "request_row list \<Rightarrow> int" where
  "next_ask_id t = (if t = [] then 1 else Max (q_id ` set t) + 1)"

definition add_consolidation_request :: "rstr option \<Rightarrow> bool \<Rightarrow> bool \<Rightarrow> rstr \<Rightarrow> rstr \<Rightarrow> store \<Rightarrow> int \<times> store" where
  "add_consolidation_request session all_projects force cwd now db =
     (let i = next_ask_id (consolidation_requests db) in
      (i, db\<lparr>consolidation_requests := consolidation_requests db @
        [\<lparr>q_id = i, q_session = session, q_all = all_projects, q_force = force, q_cwd = cwd,
          q_requested_at = now, q_consumed_at = None\<rparr>]\<rparr>))"

text \<open>Two asks for one piece of work.\<close>

definition identical_asks :: "request_row \<Rightarrow> request_row \<Rightarrow> bool" where
  "identical_asks q q0 =
     (q_session q = q_session q0 \<and> q_all q = q_all q0 \<and> q_force q = q_force q0 \<and> (q_all q \<or> q_cwd q = q_cwd q0))"

definition consume_consolidation_request :: "int \<Rightarrow> rstr \<Rightarrow> rstr \<Rightarrow> store \<Rightarrow> bool \<times> store" where
  "consume_consolidation_request i now later db =
     (case row_of q_id i (consolidation_requests db) of
        None \<Rightarrow> (False, db)
      | Some q0 \<Rightarrow>
          (if q_consumed_at q0 \<noteq> None then (False, db)
           else let t = upd (\<lambda>q. q_id q = i \<and> q_consumed_at q = None) (\<lambda>q. q\<lparr>q_consumed_at := Some now\<rparr>)
                          (consolidation_requests db) in
             (True, db\<lparr>consolidation_requests :=
                upd (\<lambda>q. q_consumed_at q = None \<and> q_id q \<noteq> i \<and> identical_asks q q0)
                    (\<lambda>q. q\<lparr>q_consumed_at := Some later\<rparr>) t\<rparr>)))"

definition drop_stale_asks :: "store \<Rightarrow> store \<times> nat" where
  "drop_stale_asks db =
     (let stale = (\<lambda>q. q_consumed_at q = None \<and> \<not> q_force q \<and>
            (case q_session q of None \<Rightarrow> False | Some s \<Rightarrow> \<not> session_has_pending s db))
      in (db\<lparr>consolidation_requests := del stale (consolidation_requests db)\<rparr>,
          length (sel stale (consolidation_requests db))))"

definition release_consolidation_request :: "int \<Rightarrow> store \<Rightarrow> store" where
  "release_consolidation_request i db =
     db\<lparr>consolidation_requests := upd (\<lambda>q. q_id q = i) (\<lambda>q. q\<lparr>q_consumed_at := None\<rparr>) (consolidation_requests db)\<rparr>"

definition next_consolidation_request :: "store \<Rightarrow> request_row option" where
  "next_consolidation_request db =
     (case sort_key q_id (sel (\<lambda>q. q_consumed_at q = None) (consolidation_requests db)) of
        [] \<Rightarrow> None
      | q # _ \<Rightarrow> Some q)"

definition DAY_SECS :: int where "DAY_SECS = 86400"

definition purge_consumed_requests :: "clock \<Rightarrow> int \<Rightarrow> int \<Rightarrow> store \<Rightarrow> store" where
  "purge_consumed_requests c days now db =
     db\<lparr>consolidation_requests := del (\<lambda>q. case q_consumed_at q of None \<Rightarrow> False
        | Some at \<Rightarrow> at < show_ts c (now - days * DAY_SECS * SEC)) (consolidation_requests db)\<rparr>"

section \<open>A project's counters\<close>

definition note_session_consolidated :: "rstr \<Rightarrow> store \<Rightarrow> int \<times> store" where
  "note_session_consolidated project db =
     (let t = put_row k_project project
                \<lparr>k_project = project, k_last_synth_at = None, k_sessions_since = 1\<rparr>
                (\<lambda>k. k\<lparr>k_sessions_since := k_sessions_since k + 1\<rparr>) (knowledge_state db)
      in (case row_of k_project project t of None \<Rightarrow> 0 | Some k \<Rightarrow> k_sessions_since k,
          db\<lparr>knowledge_state := t\<rparr>))"

definition note_knowledge_synthesized :: "rstr \<Rightarrow> rstr \<Rightarrow> store \<Rightarrow> store" where
  "note_knowledge_synthesized project now db =
     db\<lparr>knowledge_state := put_row k_project project
          \<lparr>k_project = project, k_last_synth_at = Some now, k_sessions_since = 0\<rparr>
          (\<lambda>k. k\<lparr>k_last_synth_at := Some now, k_sessions_since := 0\<rparr>) (knowledge_state db)\<rparr>"

section \<open>Exclusion\<close>

lemma row_of_append_new: "row_of k x (t @ [r]) = (case row_of k x t of None \<Rightarrow> if k r = x then Some r else None | Some y \<Rightarrow> Some y)"
  by (simp add: row_of_append row_of_Cons split: option.split)

definition claimed_at :: "rstr \<Rightarrow> store \<Rightarrow> rstr option" where
  "claimed_at s db = Option.bind (session_of s db) s_claimed_at"

interpretation session_claims: lease c claimed_at "\<lambda>s. claim_session c s (project s)" "CLAIM_STALE_SECS * SEC"
  for c :: clock and project :: "rstr \<Rightarrow> rstr"
proof unfold_locales
  fix k k' :: rstr and now :: int and st :: store
  let ?go = "claim_session c k (project k) now st"
  show "fst ?go = (case claimed_at k st of None \<Rightarrow> True | Some t \<Rightarrow> t < show_ts c (now - CLAIM_STALE_SECS * SEC))"
    by (simp add: claim_session_def claimed_at_def Let_def split: option.split)
  show "claimed_at k' (snd ?go) = (if fst ?go \<and> k' = k then Some (show_ts c now) else claimed_at k' st)"
    by (cases "session_of k st")
      (auto simp: claim_session_def claimed_at_def Let_def row_of_append_new row_of_upd_key new_session_row_def
        split: option.splits)
qed

interpretation idle_window: lease c "\<lambda>_ :: unit. state_get IDLE_KEY"
  "\<lambda>_ now. claim_idle_sweep c now debounce_secs" "debounce_secs * SEC"
  for c :: clock and debounce_secs :: int
proof unfold_locales
  fix k k' :: unit and now :: int and st :: store
  let ?go = "claim_idle_sweep c now debounce_secs st"
  show "fst ?go = (case state_get IDLE_KEY st of None \<Rightarrow> True | Some t \<Rightarrow> t < show_ts c (now - debounce_secs * SEC))"
    by (auto simp: claim_idle_sweep_def take_idle_sweep_def state_get_def Let_def split: option.split)
  show "state_get IDLE_KEY (snd ?go) = (if fst ?go \<and> k' = k then Some (show_ts c now) else state_get IDLE_KEY st)"
  proof (cases "row_of fst IDLE_KEY (schema_state st)")
    case None
    then show ?thesis
      by (simp add: claim_idle_sweep_def take_idle_sweep_def state_get_def Let_def row_of_append_new)
  next
    case (Some kv)
    have u: "row_of fst IDLE_KEY (upd (\<lambda>kv. fst kv = IDLE_KEY) (\<lambda>kv. (IDLE_KEY, show_ts c now)) (schema_state st)) = Some (IDLE_KEY, show_ts c now)"
      by (subst row_of_upd_key) (simp_all add: Some)
    show ?thesis
    proof (cases "snd kv < show_ts c (now - debounce_secs * SEC)")
      case True
      then have "\<not> show_ts c (now - debounce_secs * SEC) \<le> snd kv" by (simp add: not_le)
      then show ?thesis using u True
        by (simp add: claim_idle_sweep_def take_idle_sweep_def state_get_def Let_def Some)
    next
      case False
      then show ?thesis
        by (cases kv) (simp add: claim_idle_sweep_def take_idle_sweep_def state_get_def Let_def Some)
    qed
  qed
qed

lemma sample_clock_ok: "clock_ok sample_clock"
proof -
  have lt: "a < b" if "a div SEC < b div SEC" for a b
  proof (rule ccontr)
    assume "\<not> a < b"
    then have "b div SEC \<le> a div SEC" by (intro zdiv_mono1) (simp_all add: SEC_def)
    then show False using that by simp
  qed
  show ?thesis
    unfolding clock_ok_def
  proof (intro conjI allI impI)
    fix a b :: int
    assume "0 \<le> a" "a div SEC < b div SEC"
    then have "nat a < nat b" using lt [of a b] by simp
    then show "show_ts sample_clock a < show_ts sample_clock b" by (simp add: sample_clock_def)
  next
    fix t :: int
    assume "0 \<le> t"
    then show "parse_ts sample_clock (show_ts sample_clock t) = Some t" by (simp add: sample_clock_def)
  qed
qed

fun claim_all :: "clock \<Rightarrow> (rstr \<Rightarrow> rstr) \<Rightarrow> (rstr \<times> int) list \<Rightarrow> store \<Rightarrow> bool list \<times> store" where
  "claim_all c project [] db = ([], db)"
| "claim_all c project ((s, now) # as) db =
     (let (ok, db1) = claim_session c s (project s) now db; (oks, db2) = claim_all c project as db1 in (ok # oks, db2))"

lemma claim_all_attempts: "claim_all c project as db = session_claims.attempts c project as db"
  by (induction as arbitrary: db) (auto split: prod.split)



section \<open>The breaker counts consecutive failures\<close>

datatype call = Failed rstr int int | Answered

fun breaker_step :: "clock \<Rightarrow> rstr \<times> call \<Rightarrow> store \<Rightarrow> store option" where
  "breaker_step c (cli, Failed err now later) db = record_summarizer_failure c cli err now later db"
| "breaker_step c (cli, Answered) db = Some (record_summarizer_success cli db)"

definition breaker_run :: "clock \<Rightarrow> (rstr \<times> call) list \<Rightarrow> store \<Rightarrow> store option" where
  "breaker_run c calls db = foldl (\<lambda>s call. Option.bind s (breaker_step c call)) (Some db) calls"

text \<open>The specification: a CLI's last failures in a row, newest first, as the times they ended.\<close>

fun failed_at :: "call \<Rightarrow> int option" where
  "failed_at (Failed _ _ later) = Some later"
| "failed_at Answered = None"

definition streak :: "rstr \<Rightarrow> (rstr \<times> call) list \<Rightarrow> int list" where
  "streak cli calls = map (the \<circ> failed_at \<circ> snd)
     (takeWhile (\<lambda>x. failed_at (snd x) \<noteq> None) (rev (filter (\<lambda>x. fst x = cli) calls)))"

lemma truncate_error_total: "\<exists>t. truncate_error e = Some t"
  using truncate_bounded [of e 500] by (auto simp: truncate_error_def)

lemma health_of_put:
  "h_cli new = cli \<Longrightarrow> (\<And>h. h_cli (f h) = h_cli h) \<Longrightarrow>
   row_of h_cli k (put_row h_cli cli new f t) =
     (if k = cli then Some (case row_of h_cli cli t of None \<Rightarrow> new | Some h \<Rightarrow> f h) else row_of h_cli k t)"
  by (rule row_of_put) auto

lemma health_of_upd:
  "(\<And>h. h_cli (f h) = h_cli h) \<Longrightarrow>
   row_of h_cli k (upd (\<lambda>h. h_cli h = cli) f t) = (if k = cli then map_option f (row_of h_cli k t) else row_of h_cli k t)"
  by (rule row_of_upd_key) auto

definition breaker_row :: "clock \<Rightarrow> int list \<Rightarrow> health_row option \<Rightarrow> bool" where
  "breaker_row c ts row =
     (case row of
        None \<Rightarrow> ts = []
      | Some h \<Rightarrow> h_failures h = int (length ts) \<and>
          h_cooldown_until h = (if length ts \<ge> 3 then Some (show_ts c (hd ts + COOLDOWN_SECS * SEC)) else None))"

lemma breaker_step_row:
  assumes "breaker_row c ts (health_of cli db)"
  shows "\<exists>db'. breaker_step c (k, call) db = Some db' \<and>
    breaker_row c (if k = cli then (case failed_at call of None \<Rightarrow> [] | Some t \<Rightarrow> t # ts) else ts) (health_of cli db')"
proof (cases call)
  case (Failed err now later)
  obtain why where why: "truncate_error err = Some why" using truncate_error_total by blast
  show ?thesis
  proof (cases "k = cli")
    case True
    then show ?thesis using assms
      by (cases "health_of cli db")
        (auto simp: Failed why record_summarizer_failure_def Let_def health_of_put health_of_upd breaker_row_def
          FAILURES_BEFORE_COOLDOWN_def)
  next
    case False
    then show ?thesis using assms
      by (auto simp: Failed why record_summarizer_failure_def Let_def health_of_put health_of_upd)
  qed
next
  case Answered
  then show ?thesis using assms
    by (auto simp: record_summarizer_success_def health_of_put breaker_row_def split: option.splits)
qed

lemma streak_snoc:
  "streak cli (calls @ [(k, call)]) =
   (if k = cli then (case failed_at call of None \<Rightarrow> [] | Some t \<Rightarrow> t # streak cli calls) else streak cli calls)"
  by (simp add: streak_def split: option.split)

lemma breaker_run_row:
  assumes "health_of cli db = None"
  shows "\<exists>db'. breaker_run c calls db = Some db' \<and> breaker_row c (streak cli calls) (health_of cli db')"
proof (induction calls rule: rev_induct)
  case Nil
  then show ?case using assms by (simp add: breaker_run_def breaker_row_def streak_def)
next
  case (snoc x calls)
  obtain k call where x: "x = (k, call)" by fastforce
  obtain db1 where db1: "breaker_run c calls db = Some db1" "breaker_row c (streak cli calls) (health_of cli db1)"
    using snoc by blast
  obtain db2 where "breaker_step c (k, call) db1 = Some db2"
    "breaker_row c (streak cli (calls @ [x])) (health_of cli db2)"
    using breaker_step_row [OF db1(2), of k call] unfolding x streak_snoc by blast
  then show ?case using db1(1) by (simp add: breaker_run_def x)
qed

text \<open>
  C13: the breaker is a function of the last failures in a row. After any calls to any CLIs, none
  of which is lost or panics, a CLI is in its cooldown exactly when its last three calls or more
  failed and the newest of them ended less than thirty minutes ago: one answer closes it, another
  CLI's calls never move it, and a failure after the cooldown opens it again at once.
\<close>
theorem breaker_follows_streak:
  assumes "clock_ok c" "health_of cli db = None" "\<forall>t \<in> set (streak cli calls). 0 \<le> t"
  shows "\<exists>db'. breaker_run c calls db = Some db' \<and>
    (summarizer_in_cooldown c cli now db' \<longleftrightarrow>
       3 \<le> length (streak cli calls) \<and> now < hd (streak cli calls) + 1800 * SEC)"
proof -
  obtain db' where db': "breaker_run c calls db = Some db'" "breaker_row c (streak cli calls) (health_of cli db')"
    using breaker_run_row [OF assms(2), of c calls] by blast
  have "3 \<le> length (streak cli calls) \<Longrightarrow>
      parse_ts c (show_ts c (hd (streak cli calls) + COOLDOWN_SECS * SEC)) = Some (hd (streak cli calls) + COOLDOWN_SECS * SEC)"
    using assms(1,3) by (cases "streak cli calls") (auto simp: clock_ok_def COOLDOWN_SECS_def SEC_def)
  then have "summarizer_in_cooldown c cli now db' \<longleftrightarrow>
       3 \<le> length (streak cli calls) \<and> now < hd (streak cli calls) + COOLDOWN_SECS * SEC"
    using db'(2) by (cases "3 \<le> length (streak cli calls)")
      (auto simp: summarizer_in_cooldown_def breaker_row_def split: option.splits)
  then show ?thesis using db'(1) by (simp add: COOLDOWN_SECS_def)
qed

theorem breaker_follows_streak_witness:
  "\<exists>db'. breaker_run sample_clock [(lit ''claude'', Failed [] 1 2), (lit ''codex'', Answered), (lit ''claude'', Failed [] 3 4),
       (lit ''claude'', Failed [] 5 6)] empty_store = Some db'
     \<and> summarizer_in_cooldown sample_clock (lit ''claude'') 7 db'"
proof -
  let ?calls = "[(lit ''claude'', Failed [] 1 2), (lit ''codex'', Answered), (lit ''claude'', Failed [] 3 4), (lit ''claude'', Failed [] 5 6)]"
  have s: "streak (lit ''claude'') ?calls = [6, 4, 2]" by (simp add: streak_def)
  from breaker_follows_streak [OF sample_clock_ok, of "lit ''claude''" empty_store ?calls 7, unfolded s]
  show ?thesis by (simp add: empty_store_def SEC_def)
qed

section \<open>Asks\<close>

lemma row_of_pred:
  "row_of k x t = Some r \<Longrightarrow> r \<in> set t" "row_of k x t = Some r \<Longrightarrow> k r = x"
  by (auto dest: row_of_Some)

lemma identical_refl [simp]: "identical_asks q q"
  by (simp add: identical_asks_def)

text \<open>What a granted ask does to each row, \<open>q0\<close> being the ask taken.\<close>

abbreviation consumed_row :: "int \<Rightarrow> rstr \<Rightarrow> rstr \<Rightarrow> request_row \<Rightarrow> request_row \<Rightarrow> request_row" where
  "consumed_row i now later q0 q \<equiv>
     (if q_id q = i then q\<lparr>q_consumed_at := Some now\<rparr>
      else if q_consumed_at q = None \<and> identical_asks q q0 then q\<lparr>q_consumed_at := Some later\<rparr> else q)"

lemma consume_rows:
  assumes "distinct (map q_id (consolidation_requests db))"
    "consume_consolidation_request i now later db = (True, db')"
  obtains q0 where "row_of q_id i (consolidation_requests db) = Some q0" "q_consumed_at q0 = None"
    "\<forall>q\<in>set (consolidation_requests db). q_id q = i \<longrightarrow> q = q0"
    "consolidation_requests db' = map (consumed_row i now later q0) (consolidation_requests db)"
proof -
  let ?t = "consolidation_requests db"
  obtain q0 where q0: "row_of q_id i ?t = Some q0" "q_consumed_at q0 = None"
    using assms(2) by (auto simp: consume_consolidation_request_def split: option.splits if_splits)
  have uniq: "q = q0" if "q \<in> set ?t" "q_id q = i" for q
    using row_of_mem [OF assms(1) that(1)] that(2) q0(1) by simp
  have "consolidation_requests (snd (consume_consolidation_request i now later db)) =
      upd (\<lambda>q. q_consumed_at q = None \<and> q_id q \<noteq> i \<and> identical_asks q q0)
      (\<lambda>q. q\<lparr>q_consumed_at := Some later\<rparr>)
      (upd (\<lambda>q. q_id q = i \<and> q_consumed_at q = None) (\<lambda>q. q\<lparr>q_consumed_at := Some now\<rparr>) ?t)"
    by (simp add: consume_consolidation_request_def q0 Let_def)
  also have "\<dots> = map (consumed_row i now later q0) ?t"
  proof -
    have "q_consumed_at q = None" if "q \<in> set ?t" "q_id q = i" for q
      using uniq [OF that] q0(2) by simp
    then show ?thesis by (simp add: upd_def)
  qed
  finally show thesis by (intro that [OF q0]) (use uniq in \<open>auto simp: assms(2)\<close>)
qed

lemma consumed_row_of:
  "row_of q_id i t = Some q0 \<Longrightarrow>
   row_of q_id i (map (consumed_row i now later q0) t) = Some (q0\<lparr>q_consumed_at := Some now\<rparr>)"
  by (induction t) (auto simp: row_of_Cons split: if_splits)


text \<open>
  an id does not name one ask for good. \<open>id\<close> is an \<open>INTEGER PRIMARY KEY\<close> without
  \<open>AUTOINCREMENT\<close>, so when \<open>drop_stale_asks\<close> deletes the newest ask the next ask gets its id; the
  first asker, still waiting for the run lock, then consumes the second asker's row and the second
  ask is closed with nobody serving it.
\<close>
theorem dropped_ask_id_is_reused:
  assumes "\<not> session_has_pending s db" "snd (drop_stale_asks db) = 0"
    "add_consolidation_request (Some s) False False cwd t1 db = (mine, db1)"
    "add_consolidation_request theirs al fo cwd2 t2 (fst (drop_stale_asks db1)) = (other, db2)"
  shows "other = mine \<and> fst (consume_consolidation_request mine now later db2) \<and>
    (\<exists>q \<in> set (consolidation_requests (snd (consume_consolidation_request mine now later db2))).
       q_session q = theirs \<and> q_all q = al \<and> q_force q = fo \<and> q_cwd q = cwd2 \<and> q_consumed_at q = Some now)"
proof -
  let ?t = "consolidation_requests db" and ?i = "next_ask_id (consolidation_requests db)"
  let ?stale = "\<lambda>d q. q_consumed_at q = None \<and> \<not> q_force q \<and> (case q_session q of None \<Rightarrow> False | Some s \<Rightarrow> \<not> session_has_pending s d)"
  let ?new = "\<lparr>q_id = ?i, q_session = Some s, q_all = False, q_force = False, q_cwd = cwd, q_requested_at = t1, q_consumed_at = None\<rparr>"
  let ?thr = "\<lparr>q_id = ?i, q_session = theirs, q_all = al, q_force = fo, q_cwd = cwd2, q_requested_at = t2, q_consumed_at = None\<rparr>"
  have 1: "mine = ?i" "db1 = db\<lparr>consolidation_requests := ?t @ [?new]\<rparr>"
    using assms(3) by (auto simp: add_consolidation_request_def Let_def)
  have p: "session_has_pending s' db1 = session_has_pending s' db" for s'
    by (simp add: 1 session_has_pending_def)
  have none: "\<not> ?stale db q" if "q \<in> set ?t" for q
    using assms(2) that by (auto simp: drop_stale_asks_def Let_def sel_def filter_empty_conv)
  have "consolidation_requests (fst (drop_stale_asks db1)) = del (?stale db) (?t @ [?new])"
    by (simp add: drop_stale_asks_def Let_def p cong: option.case_cong) (simp add: 1)
  also have "\<dots> = ?t" using none assms(1) by (simp add: del_def filter_id_conv)
  finally have d: "consolidation_requests (fst (drop_stale_asks db1)) = ?t" .
  have 2: "other = ?i" "consolidation_requests db2 = ?t @ [?thr]"
    using assms(4) by (auto simp: add_consolidation_request_def Let_def d)
  have fresh: "q_id q \<noteq> ?i" if "q \<in> set ?t" for q
  proof -
    have le: "q_id q \<le> Max (q_id ` set ?t)" using that by simp
    have "?i = Max (q_id ` set ?t) + 1" using that by (auto simp: next_ask_id_def)
    then have "q_id q < ?i" by (simp only:) (rule order.strict_trans1 [OF le], simp)
    then show ?thesis by simp
  qed
  then have "row_of q_id ?i ?t = None" unfolding row_of_None by (metis imageE)
  then have "row_of q_id ?i (consolidation_requests db2) = Some ?thr" by (simp add: 2 row_of_append_new)
  then show ?thesis
    by (auto simp: consume_consolidation_request_def 1 2 upd_def)
qed

theorem dropped_ask_id_is_reused_witness:
  "let (mine, db1) = add_consolidation_request (Some (lit ''a'')) False False [] [] empty_store;
       (other, db2) = add_consolidation_request (Some (lit ''b'')) False True [] [] (fst (drop_stale_asks db1))
   in other = mine \<and> fst (consume_consolidation_request mine [] [] db2)"
proof -
  obtain mine db1 other db2 where
    a: "add_consolidation_request (Some (lit ''a'')) False False [] [] empty_store = (mine, db1)"
    "add_consolidation_request (Some (lit ''b'')) False True [] [] (fst (drop_stale_asks db1)) = (other, db2)"
    by fastforce
  have "\<not> session_has_pending (lit ''a'') empty_store" "snd (drop_stale_asks empty_store) = 0"
    by (simp_all add: session_has_pending_def drop_stale_asks_def empty_store_def sel_def)
  from dropped_ask_id_is_reused [OF this a, of "[]" "[]"] show ?thesis by (simp add: a)
qed


end
