(* ===== verification/Numerals.thy ===== *)
theory Numerals
  imports BrainPrelude
begin

text \<open>
  Decimal numbers in text: \<open>i64::to_string\<close>, \<open>str::parse::<i64>\<close> and \<open>parse::<u64>\<close>, and SQLite's
  \<open>CAST(... AS INTEGER)\<close>, which reads the longest numeric prefix and never fails. Saturating
  addition is \<open>i64::saturating_add\<close>.
\<close>

definition I64_MAX :: int where "I64_MAX = 2 ^ 63 - 1"
definition I64_MIN :: int where "I64_MIN = - (2 ^ 63)"
definition U64_MAX :: nat where "U64_MAX = 2 ^ 64 - 1"

definition sat_add :: "int \<Rightarrow> int \<Rightarrow> int" where
  "sat_add a b = max I64_MIN (min I64_MAX (a + b))"

lemma sat_add_mono: "0 < b \<Longrightarrow> a < I64_MAX \<Longrightarrow> I64_MIN \<le> a \<Longrightarrow> a < sat_add a b"
  by (simp add: sat_add_def I64_MIN_def)

lemma sat_add_le: "sat_add a b \<le> I64_MAX"
  by (simp add: sat_add_def I64_MIN_def I64_MAX_def)

section \<open>Printing\<close>

definition dec_int :: "int \<Rightarrow> rstr" where
  "dec_int i = (if i < 0 then 45 # dec (nat (- i)) else dec (nat i))"

lemma dec_digits: "c \<in> set (dec n) \<Longrightarrow> is_ascii_digit c"
proof (induction n rule: dec.induct)
  case (1 n)
  then show ?case
    by (cases "n < 10") (auto simp: dec.simps [of n] is_ascii_digit_def mod_less_divisor Suc_leI less_Suc_eq_le [symmetric])
qed

lemma dec_nonempty [simp]: "dec n \<noteq> []"
  by (subst dec.simps) simp

lemma dec_int_plain: "c \<in> set (dec_int i) \<Longrightarrow> is_ascii_digit c \<or> c = 45"
  by (auto simp: dec_int_def dec_digits split: if_splits)

section \<open>Parsing\<close>

definition digits_value :: "rstr \<Rightarrow> nat" where
  "digits_value s = foldl (\<lambda>n c. 10 * n + (c - 48)) 0 s"

lemma digits_value_snoc: "digits_value (s @ [c]) = 10 * digits_value s + (c - 48)"
  by (simp add: digits_value_def)

lemma digits_value_dec [simp]: "digits_value (dec n) = n"
proof (induction n rule: dec.induct)
  case (1 n)
  show ?case
  proof (cases "n < 10")
    case True
    then show ?thesis by (simp add: dec.simps [of n]) (simp add: digits_value_def)
  next
    case False
    then show ?thesis using 1 by (simp add: dec.simps [of n] digits_value_snoc)
  qed
qed

definition parse_digits :: "rstr \<Rightarrow> nat option" where
  "parse_digits s = (if s \<noteq> [] \<and> list_all is_ascii_digit s then Some (digits_value s) else None)"

text \<open>Rust accepts one leading \<open>+\<close> (and \<open>-\<close> for a signed type) and refuses a value out of range.\<close>

definition parse_u64 :: "rstr \<Rightarrow> nat option" where
  "parse_u64 s =
     (case parse_digits (case s of c # t \<Rightarrow> if c = 43 then t else s | [] \<Rightarrow> s) of
        None \<Rightarrow> None | Some n \<Rightarrow> if n \<le> U64_MAX then Some n else None)"

definition parse_i64 :: "rstr \<Rightarrow> int option" where
  "parse_i64 s =
     (case (case s of c # t \<Rightarrow> if c = 45 then map_option (\<lambda>n. - int n) (parse_digits t)
                               else if c = 43 then map_option int (parse_digits t)
                               else map_option int (parse_digits s)
            | [] \<Rightarrow> None) of
        None \<Rightarrow> None | Some i \<Rightarrow> if I64_MIN \<le> i \<and> i \<le> I64_MAX then Some i else None)"

lemma parse_digits_dec [simp]: "parse_digits (dec n) = Some n"
  by (auto simp: parse_digits_def list_all_iff dec_digits)

lemma dec_head: "\<exists>c t. dec n = c # t \<and> is_ascii_digit c"
  by (cases "dec n") (auto dest: dec_digits [of "hd (dec n)" n] intro: dec_digits [of _ n])

definition parse_u32 :: "rstr \<Rightarrow> nat option" where
  "parse_u32 s = (case parse_u64 s of None \<Rightarrow> None | Some n \<Rightarrow> if n < 2 ^ 32 then Some n else None)"

lemma parse_u64_dec: "n \<le> U64_MAX \<Longrightarrow> parse_u64 (dec n) = Some n"
proof -
  assume n: "n \<le> U64_MAX"
  obtain c t where ct: "dec n = c # t" "is_ascii_digit c" using dec_head by blast
  then have "c \<noteq> 43" by (auto simp: is_ascii_digit_def)
  then show ?thesis using n parse_digits_dec [of n] by (simp add: parse_u64_def ct)
qed

theorem parse_i64_dec_int: "I64_MIN \<le> i \<Longrightarrow> i \<le> I64_MAX \<Longrightarrow> parse_i64 (dec_int i) = Some i"
proof -
  assume i: "I64_MIN \<le> i" "i \<le> I64_MAX"
  show ?thesis
  proof (cases "i < 0")
    case True
    then show ?thesis using i by (simp add: parse_i64_def dec_int_def)
  next
    case False
    obtain c t where ct: "dec (nat i) = c # t" "is_ascii_digit c" using dec_head by blast
    then have "c \<noteq> 43" "c \<noteq> 45" by (auto simp: is_ascii_digit_def)
    then show ?thesis using False i parse_digits_dec [of "nat i"] by (simp add: parse_i64_def dec_int_def ct)
  qed
qed

text \<open>\<open>CAST(value AS INTEGER)\<close> on text: leading blanks, a sign, then digits; anything after is
  ignored, no digits is 0, and a value out of range is cut to the nearest bound.\<close>

definition sql_blank :: "nat \<Rightarrow> bool" where
  "sql_blank c = (c = 32 \<or> (9 \<le> c \<and> c \<le> 13))"

definition cast_int :: "rstr \<Rightarrow> int" where
  "cast_int s =
     (let t = dropWhile sql_blank s;
          neg = (t \<noteq> [] \<and> hd t = 45);
          ds = takeWhile is_ascii_digit (if t \<noteq> [] \<and> (hd t = 45 \<or> hd t = 43) then tl t else t);
          v = int (digits_value ds)
      in max I64_MIN (min I64_MAX (if neg then - v else v)))"

lemma cast_int_dec: "int n \<le> I64_MAX \<Longrightarrow> cast_int (dec n) = int n"
proof -
  assume n: "int n \<le> I64_MAX"
  obtain c t where ct: "dec n = c # t" "is_ascii_digit c" using dec_head by blast
  then have c: "\<not> sql_blank c" "c \<noteq> 43" "c \<noteq> 45" by (auto simp: is_ascii_digit_def sql_blank_def)
  have "takeWhile is_ascii_digit (c # t) = c # t"
    using dec_digits [of _ n] ct by (auto simp: takeWhile_eq_all_conv)
  then have "digits_value (takeWhile is_ascii_digit (c # t)) = n"
    using digits_value_dec [of n] ct by (simp only: )
  then show ?thesis using c n unfolding cast_int_def ct
    by (simp add: Let_def I64_MIN_def del: takeWhile.simps)
qed

section \<open>Fields\<close>

text \<open>\<open>str::split_once\<close> at the first occurrence of a pattern, \<open>rsplit_once\<close> at the last of a character.\<close>

fun split_once :: "rstr \<Rightarrow> rstr \<Rightarrow> (rstr \<times> rstr) option" where
  "split_once p [] = (if p = [] then Some ([], []) else None)"
| "split_once p (c # s) =
     (case strip_pre (c # s) p of Some t \<Rightarrow> Some ([], t)
      | None \<Rightarrow> map_option (\<lambda>(a, b). (c # a, b)) (split_once p s))"

definition rsplit_char :: "nat \<Rightarrow> rstr \<Rightarrow> (rstr \<times> rstr) option" where
  "rsplit_char c s =
     (if c \<in> set s
      then (let b = takeWhile (\<lambda>d. d \<noteq> c) (rev s) in Some (rev (drop (Suc (length b)) (rev s)), rev b))
      else None)"

lemma rsplit_char_app: "c \<notin> set b \<Longrightarrow> rsplit_char c (a @ c # b) = Some (a, b)"
proof -
  assume c: "c \<notin> set b"
  have "takeWhile (\<lambda>d. d \<noteq> c) (rev b @ c # rev a) = rev b" using c by (subst takeWhile_append2) auto
  then show ?thesis by (simp add: rsplit_char_def)
qed

end
