(* ===== verification/Store_Retention.thy ===== *)
theory Store_Retention
  imports Store_Queue Numerals
begin

text \<open>
  What the index forgets, in \<open>src/src/store.rs\<close>: the retention pass, which empties the index's copy
  of old bodies nobody was ever shown (its rule, one bounded slice, its commit), and the loop of
  \<open>drop_old_bodies\<close> in \<open>src/src/consolidate.rs\<close> that runs it within a time budget.

  SQLite's counters are exact below \<open>2 ^ 63\<close>; past that it turns a sum into floating point,
  which is not modelled. The merge and the checkpoint after a pass move no row: they are one
  argument, the error they reported, if any.
\<close>

section \<open>The retention rule\<close>

definition PAYLOAD_HOOKS :: "rstr list" where
  "PAYLOAD_HOOKS = map lit [''post_tool_use'', ''pre_tool_use'', ''session_start'', ''session_end'',
     ''pre_compact'', ''after_tool'', ''pre_compress'', ''tool_execute_after'']"

definition DIMS :: nat where "DIMS = 256"

definition embeddable :: "event_row \<Rightarrow> bool" where
  "embeddable r = (r_hook r \<notin> set PAYLOAD_HOOKS \<and> (r_agent r = None \<or> r_hook r = lit ''subagent_stop''))"

definition retirable_row :: "rstr \<Rightarrow> rstr \<Rightarrow> store \<Rightarrow> event_row \<Rightarrow> bool" where
  "retirable_row project cutoff db r =
     (r_project r = project \<and> r_kind r = Observation \<and> r_consolidated r \<and> r_forgotten r = 0
      \<and> r_body r \<noteq> [] \<and> r_read_count r = 0 \<and> r_ts r < cutoff
      \<and> r_id r \<notin> i_event ` set (injected db) \<and> r_id r \<notin> c_event ` set (recalled db))"

text \<open>\<open>LENGTH(body)\<close> counts characters.\<close>

definition retirable :: "rstr \<Rightarrow> rstr \<Rightarrow> store \<Rightarrow> rstr list \<times> int" where
  "retirable project cutoff db =
     (let rows = sort_key r_id (sel (retirable_row project cutoff db) (events db))
      in (map r_id rows, int (sum_list (map (\<lambda>r. length (r_body r)) rows))))"

definition has_vector :: "store \<Rightarrow> rstr \<Rightarrow> bool" where
  "has_vector db i = list_ex (\<lambda>v. fst v = i \<and> snd v = DIMS) (event_vec db)"

definition retention_rule :: "rstr \<Rightarrow> store \<Rightarrow> event_row \<Rightarrow> bool" where
  "retention_rule cutoff db r =
     (r_ts r < cutoff \<and> r_kind r = Observation \<and> r_consolidated r
      \<and> r_forgotten r = 0 \<and> r_read_count r = 0 \<and> r_body r \<noteq> []
      \<and> \<not> list_ex (\<lambda>i. i_event i = r_id r) (injected db)
      \<and> \<not> list_ex (\<lambda>c. c_event c = r_id r) (recalled db)
      \<and> (\<not> embeddable r \<or> has_vector db (r_id r)))"

section \<open>One slice\<close>

record step_result =
  step_ids :: "rstr list"
  step_next :: int
  step_end :: bool

definition in_window :: "int \<Rightarrow> int \<Rightarrow> event_row \<Rightarrow> bool" where
  "in_window after hi r = (after < r_rowid r \<and> r_rowid r \<le> hi)"

definition retention_rows :: "rstr \<Rightarrow> int \<Rightarrow> int \<Rightarrow> nat \<Rightarrow> store \<Rightarrow> event_row list" where
  "retention_rows cutoff after hi limit db =
     take limit (sort_key r_rowid
       (sel (\<lambda>r. in_window after hi r \<and> retention_rule cutoff db r) (events db)))"

definition newest_rowid :: "store \<Rightarrow> int option" where
  "newest_rowid db = (if events db = [] then None else Some (Max (r_rowid ` set (events db))))"

definition retention_step :: "rstr \<Rightarrow> int \<Rightarrow> int \<Rightarrow> nat \<Rightarrow> store \<Rightarrow> step_result" where
  "retention_step cutoff after span limit db =
     (let rows = retention_rows cutoff after (sat_add after span) limit db;
          last_row = (if rows = [] then after else r_rowid (last rows));
          nxt = (if length rows = limit then last_row else sat_add after span)
      in \<lparr>step_ids = map r_id rows, step_next = nxt,
          step_end = (case newest_rowid db of None \<Rightarrow> True | Some newest \<Rightarrow> newest \<le> nxt)\<rparr>)"

definition retention_pending :: "rstr \<Rightarrow> int \<Rightarrow> int \<Rightarrow> store \<Rightarrow> nat" where
  "retention_pending cutoff after span db =
     length (sel (\<lambda>r. in_window after (sat_add after span) r \<and> retention_rule cutoff db r) (events db))"

definition drop_body :: "event_row \<Rightarrow> event_row" where
  "drop_body r = r\<lparr>r_body := [], r_clamped := True\<rparr>"

definition drop_index_body :: "rstr \<Rightarrow> store \<times> nat \<Rightarrow> store \<times> nat" where
  "drop_index_body i = (\<lambda>(db, changed).
     (db\<lparr>events := upd (\<lambda>r. r_id r = i \<and> r_body r \<noteq> []) drop_body (events db)\<rparr>,
      changed + length (sel (\<lambda>r. r_id r = i \<and> r_body r \<noteq> []) (events db))))"

definition drop_index_bodies :: "rstr list \<Rightarrow> store \<Rightarrow> store \<times> nat" where
  "drop_index_bodies ids db = fold drop_index_body ids (db, 0)"

definition body_bytes :: "rstr list \<Rightarrow> store \<Rightarrow> int" where
  "body_bytes ids db =
     fold (\<lambda>i total. sat_add total
       (int (sum_list (map (\<lambda>r. blen (r_body r)) (sel (\<lambda>r. r_id r = i) (events db)))))) ids 0"

definition RETENTION_CURSOR :: rstr where "RETENTION_CURSOR = lit ''retention_cursor''"
definition RETENTION_DROPPED :: rstr where "RETENTION_DROPPED = lit ''retention_dropped''"
definition RETENTION_DROPPED_BYTES :: rstr where "RETENTION_DROPPED_BYTES = lit ''retention_dropped_bytes''"
definition RETENTION_DONE_AT :: rstr where "RETENTION_DONE_AT = lit ''retention_done_at''"

text \<open>\<open>INSERT ... ON CONFLICT(key) DO UPDATE\<close> on \<open>schema_state\<close>, setting or adding.\<close>

definition put_state :: "rstr \<Rightarrow> rstr \<Rightarrow> (rstr \<Rightarrow> rstr) \<Rightarrow> store \<Rightarrow> store" where
  "put_state key value f db =
     db\<lparr>schema_state := put_row fst key (key, value) (\<lambda>(k, v). (k, f v)) (schema_state db)\<rparr>"

definition add_state :: "rstr \<Rightarrow> rstr \<Rightarrow> store \<Rightarrow> store" where
  "add_state key n = put_state key n (\<lambda>v. dec_int (cast_int v + cast_int n))"

definition commit_retention_step :: "rstr list \<Rightarrow> int \<Rightarrow> store \<Rightarrow> nat \<times> store" where
  "commit_retention_step ids cursor db =
     (let bytes = body_bytes ids db;
          (db1, dropped) = drop_index_bodies ids db;
          db2 = put_state RETENTION_CURSOR (dec_int cursor) (\<lambda>_. dec_int cursor) db1;
          db3 = add_state RETENTION_DROPPED (dec dropped) db2
      in (dropped, add_state RETENTION_DROPPED_BYTES (dec_int bytes) db3))"

definition finish_retention_pass :: "rstr \<Rightarrow> store \<Rightarrow> store" where
  "finish_retention_pass now db =
     put_state RETENTION_DONE_AT now (\<lambda>_. now) (clear_state RETENTION_CURSOR db)"

definition retention_cursor :: "store \<Rightarrow> int" where
  "retention_cursor db =
     (case state_get RETENTION_CURSOR db of None \<Rightarrow> 0
      | Some v \<Rightarrow> case parse_i64 v of None \<Rightarrow> 0 | Some i \<Rightarrow> i)"

definition retention_done_at :: "store \<Rightarrow> rstr option" where
  "retention_done_at = state_get RETENTION_DONE_AT"

definition retention_dropped :: "store \<Rightarrow> int" where
  "retention_dropped db =
     (case state_get RETENTION_DROPPED db of None \<Rightarrow> 0
      | Some v \<Rightarrow> case parse_i64 v of None \<Rightarrow> 0 | Some i \<Rightarrow> i)"

section \<open>The pass\<close>

definition RETENTION_CHUNK :: nat where "RETENTION_CHUNK = 200"
definition RETENTION_SPAN :: int where "RETENTION_SPAN = 20000"
definition RETENTION_REPEAT_SECS :: int where "RETENTION_REPEAT_SECS = 24 * 3600"

definition RETENTION_MIN_DAYS :: nat where "RETENTION_MIN_DAYS = 7"

definition effective_days :: "nat \<Rightarrow> nat option" where
  "effective_days days = (if 0 < days then Some (max days RETENTION_MIN_DAYS) else None)"

record retention =
  ret_dropped :: nat
  ret_finished :: bool
  ret_settle_error :: "rstr option"

definition nothing_dropped :: retention where
  "nothing_dropped = \<lparr>ret_dropped = 0, ret_finished = False, ret_settle_error = None\<rparr>"

text \<open>
  The loop. \<open>spent n\<close> is whether the run's time budget is used up after its \<open>n\<close>-th slice. Nothing
  in the loop bounds the number of slices when the clock stands still, so the function is partial:
  \<open>None\<close> would be a run that never returns.
\<close>

partial_function (option) retention_loop ::
  "rstr \<Rightarrow> rstr \<Rightarrow> (nat \<Rightarrow> bool) \<Rightarrow> nat \<Rightarrow> int \<Rightarrow> nat \<Rightarrow> int \<Rightarrow> nat \<Rightarrow> store \<Rightarrow> ((nat \<times> bool) \<times> store) option" where
  "retention_loop cutoff now spent chunk span n cursor dropped db =
     (let step = retention_step cutoff cursor span chunk db;
          (k, db1) = commit_retention_step (step_ids step) (step_next step) db
      in if step_end step then Some ((dropped + k, True), finish_retention_pass now db1)
         else if spent n then Some ((dropped + k, False), db1)
         else retention_loop cutoff now spent chunk span (Suc n) (step_next step) (dropped + k) db1)"

text \<open>\<open>Timestamp::as_second\<close> drops the fraction towards zero; \<open>earliest\<close> is jiff's first timestamp,
  below which the subtraction is an error.\<close>

definition as_second :: "int \<Rightarrow> int" where
  "as_second t = (if t < 0 then - ((- t) div SEC) else t div SEC)"

datatype retention_error = Cutoff_out_of_range

definition drop_old_bodies ::
  "clock \<Rightarrow> int \<Rightarrow> nat \<Rightarrow> int \<Rightarrow> (nat \<Rightarrow> bool) \<Rightarrow> (store \<Rightarrow> rstr option) \<Rightarrow> nat \<Rightarrow> int \<Rightarrow> store
     \<Rightarrow> (retention_error + retention \<times> store) option" where
  "drop_old_bodies c earliest days now spent settle chunk span db =
     (let last_done = (case retention_done_at db of None \<Rightarrow> None | Some at \<Rightarrow> parse_ts c at)
      in if (case last_done of None \<Rightarrow> False | Some t \<Rightarrow> as_second now - as_second t < RETENTION_REPEAT_SECS)
         then Some (Inr (nothing_dropped, db))
         else if now - int days * 24 * 3600 * SEC < earliest then Some (Inl Cutoff_out_of_range)
         else map_option (\<lambda>((dropped, finished), db'). Inr
           (\<lparr>ret_dropped = dropped, ret_finished = finished,
             ret_settle_error = (if 0 < dropped then settle db' else None)\<rparr>, db'))
           (retention_loop (show_ts c (now - int days * 24 * 3600 * SEC)) (show_ts c now) spent chunk span 0
              (retention_cursor db) 0 db))"

text \<open>The pass as one run takes it; \<open>None\<close> for the days is a configuration that cannot be read.\<close>

definition run_retention ::
  "clock \<Rightarrow> int \<Rightarrow> nat option \<Rightarrow> int \<Rightarrow> (nat \<Rightarrow> bool) \<Rightarrow> (store \<Rightarrow> rstr option) \<Rightarrow> store \<Rightarrow> (nat \<times> store) option" where
  "run_retention c earliest configured now spent settle db =
     (case configured of None \<Rightarrow> Some (0, db) | Some days0 \<Rightarrow>
      case effective_days days0 of None \<Rightarrow> Some (0, db) | Some days \<Rightarrow>
        map_option (\<lambda>r. case r of Inl _ \<Rightarrow> (0, db) | Inr (done_run, db') \<Rightarrow> (ret_dropped done_run, db'))
          (drop_old_bodies c earliest days now spent settle RETENTION_CHUNK RETENTION_SPAN db))"

section \<open>What a slice does\<close>

lemma put_state_other [simp]:
  "events (put_state k v f db) = events db" "injected (put_state k v f db) = injected db"
  "recalled (put_state k v f db) = recalled db" "event_vec (put_state k v f db) = event_vec db"
  by (simp_all add: put_state_def)

lemma state_get_put [simp]:
  "state_get k (put_state k' v f db) =
     (if k = k' then Some (case state_get k db of None \<Rightarrow> v | Some w \<Rightarrow> f w) else state_get k db)"
proof -
  have "row_of fst k (put_row fst k' (k', v) (\<lambda>(k, v). (k, f v)) (schema_state db)) =
     (if k = k' then Some (case row_of fst k' (schema_state db) of None \<Rightarrow> (k', v) | Some (a, b) \<Rightarrow> (a, f b))
      else row_of fst k (schema_state db))"
    by (subst row_of_put) auto
  then show ?thesis by (auto simp: state_get_def put_state_def split: option.splits)
qed

lemma add_state_other [simp]:
  "events (add_state k n db) = events db" "injected (add_state k n db) = injected db"
  "recalled (add_state k n db) = recalled db" "event_vec (add_state k n db) = event_vec db"
  by (simp_all add: add_state_def)

lemma clear_state_other [simp]:
  "events (clear_state k db) = events db" "injected (clear_state k db) = injected db"
  "recalled (clear_state k db) = recalled db" "event_vec (clear_state k db) = event_vec db"
  by (simp_all add: clear_state_def)

lemma drop_body_simps [simp]:
  "r_id (drop_body r) = r_id r" "r_rowid (drop_body r) = r_rowid r" "r_body (drop_body r) = []"
  by (simp_all add: drop_body_def)

definition drop_where :: "(event_row \<Rightarrow> bool) \<Rightarrow> store \<Rightarrow> store" where
  "drop_where P db = db\<lparr>events := upd P drop_body (events db)\<rparr>"

lemma drop_where_other [simp]:
  "injected (drop_where P db) = injected db" "recalled (drop_where P db) = recalled db"
  "event_vec (drop_where P db) = event_vec db" "schema_state (drop_where P db) = schema_state db"
  "events (drop_where P db) = upd P drop_body (events db)"
  by (simp_all add: drop_where_def)

definition full_ids :: "rstr set \<Rightarrow> event_row \<Rightarrow> bool" where
  "full_ids I r = (r_id r \<in> I \<and> r_body r \<noteq> [])"

lemma drop_index_body_eq:
  "drop_index_body i (db, n) = (drop_where (full_ids {i}) db, n + length (sel (full_ids {i}) (events db)))"
  by (simp add: drop_index_body_def drop_where_def full_ids_def [abs_def])

lemma upd_full_ids:
  "upd (full_ids I) drop_body (upd (full_ids {i}) drop_body t) = upd (full_ids (insert i I)) drop_body t"
  by (induction t) (auto simp: upd_def full_ids_def)

lemma sel_full_ids:
  "length (sel (full_ids {i}) t) + length (sel (full_ids I) (upd (full_ids {i}) drop_body t)) =
   length (sel (full_ids (insert i I)) t)"
  by (induction t) (auto simp: upd_def sel_def full_ids_def)

lemma drop_index_bodies_fold:
  "fold drop_index_body ids (db, n) =
     (drop_where (full_ids (set ids)) db, n + length (sel (full_ids (set ids)) (events db)))"
proof (induction ids arbitrary: db n)
  case Nil
  then show ?case by (simp add: drop_where_def full_ids_def upd_none sel_def)
next
  case (Cons i ids)
  have "drop_where (full_ids (set ids)) (drop_where (full_ids {i}) db) = drop_where (full_ids (set (i # ids))) db"
    by (simp add: drop_where_def upd_full_ids)
  then show ?case using sel_full_ids [of i "events db" "set ids"]
    by (simp add: Cons drop_index_body_eq)
qed

lemma drop_index_bodies_eq:
  "drop_index_bodies ids db =
     (drop_where (full_ids (set ids)) db, length (sel (full_ids (set ids)) (events db)))"
  by (simp add: drop_index_bodies_def drop_index_bodies_fold)

lemma commit_events:
  "events (snd (commit_retention_step ids cur db)) = upd (full_ids (set ids)) drop_body (events db)"
  "injected (snd (commit_retention_step ids cur db)) = injected db"
  "recalled (snd (commit_retention_step ids cur db)) = recalled db"
  "event_vec (snd (commit_retention_step ids cur db)) = event_vec db"
  "fst (commit_retention_step ids cur db) = length (sel (full_ids (set ids)) (events db))"
  by (simp_all add: commit_retention_step_def drop_index_bodies_eq Let_def)

lemma commit_cursor:
  "state_get RETENTION_CURSOR (snd (commit_retention_step ids cur db)) = Some (dec_int cur)"
  "retention_done_at (snd (commit_retention_step ids cur db)) = retention_done_at db"
  by (auto simp: commit_retention_step_def drop_index_bodies_eq Let_def add_state_def
      RETENTION_CURSOR_def RETENTION_DROPPED_def RETENTION_DROPPED_BYTES_def RETENTION_DONE_AT_def
      retention_done_at_def drop_where_def state_get_def [of _ "db\<lparr>events := _\<rparr>"] state_get_def [of _ db]
      split: option.splits)

lemma retention_rule_cong:
  "injected db' = injected db \<Longrightarrow> recalled db' = recalled db \<Longrightarrow> event_vec db' = event_vec db \<Longrightarrow>
   retention_rule cutoff db' = retention_rule cutoff db"
  by (simp add: fun_eq_iff retention_rule_def has_vector_def)

text \<open>The rows a pass is due to drop among the rowids of a window.\<close>

definition due :: "rstr \<Rightarrow> int \<Rightarrow> int \<Rightarrow> store \<Rightarrow> event_row \<Rightarrow> bool" where
  "due cutoff lo hi db r = (in_window lo hi r \<and> retention_rule cutoff db r)"

definition rows_ok :: "store \<Rightarrow> bool" where
  "rows_ok db = (distinct (map r_id (events db)) \<and> distinct (map r_rowid (events db))
     \<and> list_all (\<lambda>r. r_rowid r \<le> I64_MAX) (events db))"

lemma take_sorted_below:
  assumes "sorted_wrt (\<lambda>a b. f a < f b) xs" "0 < n" "n \<le> length xs"
  shows "set (take n xs) = {r \<in> set xs. f r \<le> (f (last (take n xs)) :: int)}"
proof -
  have ne: "take n xs \<noteq> []" using assms by auto
  let ?ys = "take n xs" and ?l = "last (take n xs)"
  have srt: "sorted_wrt (\<lambda>a b. f a < f b) (?ys @ drop n xs)" using assms(1) by simp
  have up: "f ?l < f b" if "b \<in> set (drop n xs)" for b
    using that srt ne unfolding sorted_wrt_append by (meson last_in_set)
  have "sorted_wrt (\<lambda>a b. f a < f b) ?ys" using assms(1) by (rule sorted_wrt_take)
  then have low: "f a \<le> f ?l" if "a \<in> set ?ys" for a
    using that by (cases ?ys rule: rev_cases) (auto simp: sorted_wrt_append)
  have "set xs = set ?ys \<union> set (drop n xs)" by (metis append_take_drop_id set_append)
  then show ?thesis using up low by force
qed

lemma distinct_sort_map: "distinct (map f (sort_key k xs)) = distinct (map f xs)"
proof -
  have "mset (map f (sort_key k xs)) = mset (map f xs)" by simp
  then show ?thesis by (rule mset_eq_imp_distinct_iff)
qed

lemma sorted_rowids:
  "distinct (map r_rowid t) \<Longrightarrow> sorted_wrt (\<lambda>a b. r_rowid a < r_rowid b) (sort_key r_rowid t)"
proof -
  assume "distinct (map r_rowid t)"
  then have "distinct (map r_rowid (sort_key r_rowid t))"
    by (simp only: distinct_sort_map)
  then have "sorted_wrt (<) (map r_rowid (sort_key r_rowid t))"
    by (simp add: strict_sorted_iff)
  then show ?thesis by (simp add: sorted_wrt_map)
qed

lemma retention_rows_window:
  fixes cutoff after span
  assumes ok: "rows_ok db" and n: "0 < limit"
  defines "rows \<equiv> retention_rows cutoff after (sat_add after span) limit db"
  defines "nxt \<equiv> (if length rows = limit then if rows = [] then after else r_rowid (last rows) else sat_add after span)"
  shows "set rows = {r \<in> set (events db). due cutoff after nxt db r}"
proof -
  let ?Q = "\<lambda>r. in_window after (sat_add after span) r \<and> retention_rule cutoff db r"
  let ?xs = "sort_key r_rowid (sel ?Q (events db))"
  have "distinct (map r_rowid (sel ?Q (events db)))"
    using ok by (auto simp: rows_ok_def sel_def distinct_map_filter)
  then have srt: "sorted_wrt (\<lambda>a b. r_rowid a < r_rowid b) ?xs" by (rule sorted_rowids)
  have rows: "rows = take limit ?xs" by (simp add: rows_def retention_rows_def)
  show ?thesis
  proof (cases "length rows = limit")
    case True
    then have ne: "rows \<noteq> []" using n by auto
    have len: "limit \<le> length ?xs" using True by (simp add: rows min_def split: if_splits)
    have nxt: "nxt = r_rowid (last rows)" using True ne by (simp add: nxt_def)
    then have "nxt = r_rowid (last (take limit ?xs))" by (simp add: rows)
    moreover have "last rows \<in> set ?xs" using ne rows by (metis in_set_takeD last_in_set)
    then have "nxt \<le> sat_add after span" using nxt by (simp add: in_window_def)
    then have "?Q r \<and> r_rowid r \<le> nxt \<longleftrightarrow> due cutoff after nxt db r" for r
      by (auto simp: due_def in_window_def)
    moreover have "set rows = {r \<in> set ?xs. r_rowid r \<le> nxt}"
      using take_sorted_below [OF srt n len] calculation(1) by (simp add: rows)
    ultimately show ?thesis by simp
  next
    case False
    then have "rows = ?xs" by (simp add: rows)
    then show ?thesis using False by (auto simp: nxt_def due_def)
  qed
qed

lemma upd_cong: "(\<And>r. r \<in> set t \<Longrightarrow> P r = Q r) \<Longrightarrow> upd P f t = upd Q f t"
  by (simp add: upd_def)

lemma sel_cong: "(\<And>r. r \<in> set t \<Longrightarrow> P r = Q r) \<Longrightarrow> sel P t = sel Q t"
  unfolding sel_def by (rule filter_cong) auto

lemma step_due:
  fixes cutoff after span
  assumes ok: "rows_ok db" and n: "0 < limit" and r: "r \<in> set (events db)"
  defines "step \<equiv> retention_step cutoff after span limit db"
  shows "full_ids (set (step_ids step)) r = due cutoff after (step_next step) db r"
proof -
  let ?rows = "retention_rows cutoff after (sat_add after span) limit db"
  have rows: "set ?rows = {r \<in> set (events db). due cutoff after (step_next step) db r}"
    using retention_rows_window [OF ok n] by (simp add: step_def retention_step_def Let_def)
  have ids: "set (step_ids step) = r_id ` set ?rows" by (simp add: step_def retention_step_def Let_def)
  have "r_id r \<in> r_id ` set ?rows \<longleftrightarrow> r \<in> set ?rows"
    using ok r rows by (auto simp: rows_ok_def distinct_map inj_on_def)
  moreover have "due cutoff after (step_next step) db r \<Longrightarrow> r_body r \<noteq> []"
    by (simp add: due_def retention_rule_def)
  ultimately show ?thesis using r unfolding full_ids_def ids by (auto simp: rows)
qed

lemma slice:
  fixes cutoff after span
  assumes "rows_ok db" "0 < limit"
  defines "step \<equiv> retention_step cutoff after span limit db"
  shows "events (snd (commit_retention_step (step_ids step) cur db)) =
      upd (due cutoff after (step_next step) db) drop_body (events db)"
    "fst (commit_retention_step (step_ids step) cur db) =
      length (sel (due cutoff after (step_next step) db) (events db))"
  using step_due [OF assms(1,2), of _ cutoff after span] unfolding step_def commit_events
  by (auto intro!: upd_cong arg_cong [of _ _ length] sel_cong)

lemma step_progress:
  fixes cutoff after span
  assumes "rows_ok db" "0 < limit" "0 < span" "I64_MIN \<le> after"
  defines "step \<equiv> retention_step cutoff after span limit db"
  assumes "\<not> step_end step"
  shows "after < step_next step" "step_next step < Max (r_rowid ` set (events db))" "events db \<noteq> []"
proof -
  let ?rows = "retention_rows cutoff after (sat_add after span) limit db"
  obtain m where m: "newest_rowid db = Some m" "\<not> m \<le> step_next step"
    using assms(6) by (auto simp: step_def retention_step_def Let_def split: option.splits)
  then show ne: "events db \<noteq> []" by (auto simp: newest_rowid_def)
  show less: "step_next step < Max (r_rowid ` set (events db))"
    using m ne by (simp add: newest_rowid_def)
  have "Max (r_rowid ` set (events db)) \<in> r_rowid ` set (events db)" using ne by (intro Max_in) auto
  then have "Max (r_rowid ` set (events db)) \<le> I64_MAX"
    using assms(1) by (auto simp: rows_ok_def list_all_iff)
  with less have lt: "step_next step < I64_MAX" by simp
  show "after < step_next step"
  proof (cases "length ?rows = limit")
    case True
    then have "?rows \<noteq> []" using assms(2) by auto
    moreover have "step_next step = r_rowid (last ?rows)"
      using True calculation by (simp add: step_def retention_step_def Let_def)
    moreover have "last ?rows \<in> set (sort_key r_rowid (sel (\<lambda>r. in_window after (sat_add after span) r \<and> retention_rule cutoff db r) (events db)))"
      using calculation(1) unfolding retention_rows_def by (metis in_set_takeD last_in_set)
    ultimately show ?thesis by (simp add: in_window_def)
  next
    case False
    then have "step_next step = sat_add after span" by (simp add: step_def retention_step_def Let_def)
    then show ?thesis using lt assms(3,4) by (auto simp: sat_add_def)
  qed
qed

lemma due_split: "lo \<le> mid \<Longrightarrow> mid \<le> hi \<Longrightarrow> due cutoff lo hi db r = (due cutoff lo mid db r \<or> due cutoff mid hi db r)"
  by (auto simp: due_def in_window_def)

lemma due_dropped: "\<not> due cutoff lo hi db (drop_body r)"
  by (simp add: due_def retention_rule_def)

lemma due_compose:
  assumes "lo \<le> mid" "mid \<le> hi"
  shows "upd (due cutoff mid hi db) drop_body (upd (due cutoff lo mid db) drop_body t) = upd (due cutoff lo hi db) drop_body t"
  by (rule trans [OF _ upd_cong [of t, OF due_split [OF assms, symmetric]]]) (simp add: upd_def due_dropped)

lemma due_counts:
  assumes "lo \<le> mid" "mid \<le> hi"
  shows "length (sel (due cutoff lo mid db) t) + length (sel (due cutoff mid hi db) (upd (due cutoff lo mid db) drop_body t))
      = length (sel (due cutoff lo hi db) t)"
proof (induction t)
  case (Cons r t)
  have "\<not> (due cutoff lo mid db r \<and> due cutoff mid hi db r)" by (simp add: due_def in_window_def)
  then show ?case using Cons due_split [OF assms, of cutoff db r] due_dropped [of cutoff mid hi db r]
    by (simp add: sel_def upd_def)
qed (simp add: sel_def)

lemma rows_ok_upd: "rows_ok db \<Longrightarrow> events db' = upd P drop_body (events db) \<Longrightarrow> rows_ok db'"
  by (auto simp: rows_ok_def map_upd list_all_iff mem_upd)

lemma step_next_ge:
  fixes cutoff after span
  assumes "0 < limit" "0 < span" "after \<le> I64_MAX"
  shows "after \<le> step_next (retention_step cutoff after span limit db)"
proof -
  let ?rows = "retention_rows cutoff after (sat_add after span) limit db"
  have "after \<le> r_rowid (last ?rows)" if "?rows \<noteq> []"
  proof -
    have "last ?rows \<in> set (sort_key r_rowid (sel (\<lambda>r. in_window after (sat_add after span) r \<and> retention_rule cutoff db r) (events db)))"
      using that unfolding retention_rows_def by (metis in_set_takeD last_in_set)
    then show ?thesis by (simp add: in_window_def)
  qed
  then show ?thesis using assms
    by (auto simp: retention_step_def Let_def sat_add_def)
qed

lemma rowids_upd: "r_rowid ` set (upd P drop_body t) = r_rowid ` set t"
  by (rule keys_upd) simp

lemma list_ex_rowids: "list_ex (\<lambda>r. hi < r_rowid r) (upd P drop_body t) = list_ex (\<lambda>r. hi < r_rowid r) t"
  by (induction t) (simp_all add: upd_def)

definition pass_from :: "rstr \<Rightarrow> int \<Rightarrow> rstr \<Rightarrow> store \<Rightarrow> nat \<Rightarrow> bool \<Rightarrow> store \<Rightarrow> bool" where
  "pass_from cutoff cursor now db k finished db' = (\<exists>hi\<ge>cursor.
     events db' = upd (due cutoff cursor hi db) drop_body (events db)
     \<and> k = length (sel (due cutoff cursor hi db) (events db))
     \<and> injected db' = injected db \<and> recalled db' = recalled db \<and> event_vec db' = event_vec db
     \<and> (if finished then list_all (\<lambda>r. r_rowid r \<le> hi) (events db) \<and> retention_done_at db' = Some now
           \<and> state_get RETENTION_CURSOR db' = None
        else retention_cursor db' = hi \<and> cursor < hi \<and> list_ex (\<lambda>r. hi < r_rowid r) (events db)
           \<and> retention_done_at db' = retention_done_at db))"

lemma rowid_le_newest: "r \<in> set (events db) \<Longrightarrow> newest_rowid db = Some m \<Longrightarrow> r_rowid r \<le> m"
  by (auto simp: newest_rowid_def split: if_splits)

lemma pass_last:
  fixes cutoff
  assumes ok: "rows_ok db" "0 < chunk" "0 < span" "cursor \<le> I64_MAX"
  defines "step \<equiv> retention_step cutoff cursor span chunk db"
  defines "res \<equiv> commit_retention_step (step_ids step) (step_next step) db"
  assumes "step_end step"
  shows "pass_from cutoff cursor now db (fst res) True (finish_retention_pass now (snd res))"
proof -
  have "list_all (\<lambda>r. r_rowid r \<le> step_next step) (events db)"
    using assms(7) rowid_le_newest [of _ db]
    by (cases "newest_rowid db")
      (force simp: step_def retention_step_def Let_def list_all_iff newest_rowid_def split: if_splits)+
  moreover have "retention_done_at (finish_retention_pass now db1) = Some now"
    "state_get RETENTION_CURSOR (finish_retention_pass now db1) = None"
    "events (finish_retention_pass now db1) = events db1" "injected (finish_retention_pass now db1) = injected db1"
    "recalled (finish_retention_pass now db1) = recalled db1" "event_vec (finish_retention_pass now db1) = event_vec db1" for db1
    by (simp_all add: finish_retention_pass_def retention_done_at_def RETENTION_DONE_AT_def RETENTION_CURSOR_def
        split: option.splits)
  ultimately show ?thesis unfolding pass_from_def
    using step_next_ge [OF ok(2-4), of cutoff db] slice [OF ok(1,2), of cutoff cursor span]
    by (intro exI [of _ "step_next step"]) (simp add: res_def step_def commit_events(2-4))
qed

lemma pass_slice:
  fixes cutoff
  assumes ok: "rows_ok db" "0 < chunk" "0 < span" "I64_MIN \<le> cursor"
  defines "step \<equiv> retention_step cutoff cursor span chunk db"
  defines "res \<equiv> commit_retention_step (step_ids step) (step_next step) db"
  assumes "\<not> step_end step"
  shows "pass_from cutoff cursor now db (fst res) False (snd res)"
    "step_next step < Max (r_rowid ` set (events db))" "cursor < step_next step" "step_next step \<le> I64_MAX"
    "events db \<noteq> []"
proof -
  note prog = step_progress [OF ok, of cutoff, folded step_def, OF assms(7)]
  show "step_next step < Max (r_rowid ` set (events db))" "cursor < step_next step" "events db \<noteq> []"
    using prog by auto
  have "Max (r_rowid ` set (events db)) \<in> r_rowid ` set (events db)" using prog(3) by (intro Max_in) auto
  then obtain e where e: "e \<in> set (events db)" "step_next step < r_rowid e" using prog(2) by auto
  then show le: "step_next step \<le> I64_MAX" using ok(1) by (auto simp: rows_ok_def list_all_iff)
  have "retention_cursor (snd res) = step_next step"
    using parse_i64_dec_int [OF _ le] ok(4) prog(1)
    by (simp add: retention_cursor_def res_def commit_cursor)
  then show "pass_from cutoff cursor now db (fst res) False (snd res)" unfolding pass_from_def
    using prog(1) e slice [OF ok(1,2), of cutoff cursor span]
    by (intro exI [of _ "step_next step"]) (auto simp: res_def step_def list_ex_iff commit_events(2-4) commit_cursor(2))
qed

lemma pass_join:
  assumes a: "pass_from cutoff cursor now db k False db1" and b: "pass_from cutoff (retention_cursor db1) now db1 k' fin db2"
  shows "pass_from cutoff cursor now db (k + k') fin db2"
proof -
  let ?mid = "retention_cursor db1"
  have a': "cursor < ?mid" "events db1 = upd (due cutoff cursor ?mid db) drop_body (events db)"
    "k = length (sel (due cutoff cursor ?mid db) (events db))"
    "injected db1 = injected db" "recalled db1 = recalled db" "event_vec db1 = event_vec db"
    "retention_done_at db1 = retention_done_at db"
    using a by (auto simp: pass_from_def)
  have rule: "due cutoff lo hi db1 = due cutoff lo hi db" for lo hi
    using retention_rule_cong [OF a'(4-6)] by (simp add: due_def fun_eq_iff)
  obtain hi where hi: "?mid \<le> hi" "events db2 = upd (due cutoff ?mid hi db) drop_body (events db1)"
    "k' = length (sel (due cutoff ?mid hi db) (events db1))"
    "injected db2 = injected db1" "recalled db2 = recalled db1" "event_vec db2 = event_vec db1"
    "if fin then list_all (\<lambda>r. r_rowid r \<le> hi) (events db1) \<and> retention_done_at db2 = Some now
        \<and> state_get RETENTION_CURSOR db2 = None
     else retention_cursor db2 = hi \<and> ?mid < hi \<and> list_ex (\<lambda>r. hi < r_rowid r) (events db1)
        \<and> retention_done_at db2 = retention_done_at db1"
    using b unfolding pass_from_def rule by blast
  have "list_all (\<lambda>r. r_rowid r \<le> hi) (events db1) = list_all (\<lambda>r. r_rowid r \<le> hi) (events db)"
    by (simp add: a'(2) upd_def list.pred_map comp_def if_distrib [of r_rowid])
  moreover have "list_ex (\<lambda>r. hi < r_rowid r) (events db1) = list_ex (\<lambda>r. hi < r_rowid r) (events db)"
    unfolding a'(2) by (rule list_ex_rowids)
  ultimately show ?thesis unfolding pass_from_def using a' hi due_compose [of cursor ?mid hi cutoff db "events db"]
      due_counts [of cursor ?mid hi cutoff db "events db"]
    by (intro exI [of _ hi]) (auto split: if_splits)
qed

lemma retention_loop_runs:
  assumes "rows_ok db" "0 < chunk" "0 < span" "I64_MIN \<le> cursor" "cursor \<le> I64_MAX"
  shows "\<exists>k fin db'. retention_loop cutoff now spent chunk span n cursor dropped db = Some ((dropped + k, fin), db')
     \<and> pass_from cutoff cursor now db k fin db' \<and> ((\<forall>m. \<not> spent m) \<longrightarrow> fin)"
  using assms
proof (induction "nat (Max (r_rowid ` set (events db)) - cursor)" arbitrary: db cursor n dropped rule: less_induct)
  case less
  let ?step = "retention_step cutoff cursor span chunk db"
  let ?res = "commit_retention_step (step_ids ?step) (step_next ?step) db"
  let ?loop = "retention_loop cutoff now spent chunk span"
  have unf: "?loop n cursor dropped db =
     (if step_end ?step then Some ((dropped + fst ?res, True), finish_retention_pass now (snd ?res))
      else if spent n then Some ((dropped + fst ?res, False), snd ?res)
      else ?loop (Suc n) (step_next ?step) (dropped + fst ?res) (snd ?res))"
    by (subst retention_loop.simps) (simp add: Let_def case_prod_beta)
  show ?case
  proof (cases "step_end ?step")
    case True
    then show ?thesis using pass_last [OF less.prems(1-3,5) True, of now] unf by auto
  next
    case False
    note ps = pass_slice [OF less.prems(1-4) False]
    show ?thesis
    proof (cases "spent n")
      case True
      then show ?thesis using False ps(1) [of now] unf by auto
    next
      case spent: False
      let ?db = "snd ?res"
      have ok: "rows_ok ?db" using less.prems(1) slice(1) [OF less.prems(1,2)] by (rule rows_ok_upd)
      have mx: "Max (r_rowid ` set (events ?db)) = Max (r_rowid ` set (events db))"
        by (simp add: commit_events(1) rowids_upd)
      have cur: "retention_cursor ?db = step_next ?step"
        using ps(1) [of now] ps(4) less.prems(4) ps(3) parse_i64_dec_int [of "step_next ?step"]
        by (simp add: retention_cursor_def commit_cursor(1))
      obtain k fin db' where r: "?loop (Suc n) (step_next ?step) (dropped + fst ?res) ?db
          = Some ((dropped + fst ?res + k, fin), db')"
        "pass_from cutoff (step_next ?step) now ?db k fin db'" "(\<forall>m. \<not> spent m) \<longrightarrow> fin"
        using less.hyps [of ?db "step_next ?step" "Suc n" "dropped + fst ?res"] ps(2-4) ok less.prems mx by auto
      then show ?thesis using unf False spent pass_join [OF ps(1) [of now], of k fin db'] by (auto simp: cur)
    qed
  qed
qed

section \<open>What a run of the pass does\<close>

lemma retention_cursor_range: "I64_MIN \<le> retention_cursor db" "retention_cursor db \<le> I64_MAX"
proof -
  have "I64_MIN \<le> i \<and> i \<le> I64_MAX" if "parse_i64 v = Some i" for v i
    using that by (auto simp: parse_i64_def split: option.splits if_splits)
  then show "I64_MIN \<le> retention_cursor db" "retention_cursor db \<le> I64_MAX"
    by (auto simp: retention_cursor_def I64_MIN_def I64_MAX_def split: option.splits)
qed

text \<open>A pass may start: a day has passed since the last one finished, and the cutoff is a time jiff
  can express.\<close>

definition pass_open :: "clock \<Rightarrow> int \<Rightarrow> nat \<Rightarrow> int \<Rightarrow> rstr option \<Rightarrow> bool" where
  "pass_open c earliest days now done_at =
     (earliest \<le> now - int days * 24 * 3600 * SEC \<and>
      (case done_at of None \<Rightarrow> True | Some at \<Rightarrow>
         case parse_ts c at of None \<Rightarrow> True | Some t \<Rightarrow> RETENTION_REPEAT_SECS \<le> as_second now - as_second t))"

abbreviation "cutoff_at c days now \<equiv> show_ts c (now - int days * 24 * 3600 * SEC)"

lemma drop_old_bodies_runs:
  assumes "rows_ok db" "0 < chunk" "0 < span" "pass_open c earliest days now (retention_done_at db)"
  shows "\<exists>r db'. drop_old_bodies c earliest days now spent settle chunk span db = Some (Inr (r, db'))
     \<and> pass_from (cutoff_at c days now) (retention_cursor db) (show_ts c now) db (ret_dropped r) (ret_finished r) db'
     \<and> ((\<forall>m. \<not> spent m) \<longrightarrow> ret_finished r)"
proof -
  obtain k fin db' where r: "retention_loop (cutoff_at c days now) (show_ts c now) spent chunk span 0 (retention_cursor db) 0 db
      = Some ((0 + k, fin), db')"
    "pass_from (cutoff_at c days now) (retention_cursor db) (show_ts c now) db k fin db'" "(\<forall>m. \<not> spent m) \<longrightarrow> fin"
    using retention_loop_runs [OF assms(1-3) retention_cursor_range, where n = 0 and dropped = 0] by blast
  have "\<not> (now - int days * 24 * 3600 * SEC < earliest)"
    "\<not> (case (case retention_done_at db of None \<Rightarrow> None | Some at \<Rightarrow> parse_ts c at) of
        None \<Rightarrow> False | Some t \<Rightarrow> as_second now - as_second t < RETENTION_REPEAT_SECS)"
    using assms(4) by (auto simp: pass_open_def split: option.splits)
  then show ?thesis using r by (simp add: drop_old_bodies_def)
qed

text \<open>
  C15: a run of the retention pass returns, whatever its time budget, and drops exactly the bodies
  the rule names among the rowids between the cursor it started from and the one it stopped at:
  every other column and every other row is as it was. A run the budget never cut reaches the end of
  the table, records the day and clears the cursor; one that is cut leaves the cursor, strictly
  further on, for the next run.
\<close>
theorem retention_drops_exactly_the_rule:
  assumes "rows_ok db" "0 < chunk" "0 < span" "pass_open c earliest days now (retention_done_at db)"
  shows "\<exists>r db' hi. drop_old_bodies c earliest days now spent settle chunk span db = Some (Inr (r, db'))
     \<and> events db' = map (\<lambda>e. if retention_cursor db < r_rowid e \<and> r_rowid e \<le> hi \<and> retention_rule (cutoff_at c days now) db e
                              then e\<lparr>r_body := [], r_clamped := True\<rparr> else e) (events db)
     \<and> (if ret_finished r then list_all (\<lambda>e. r_rowid e \<le> hi) (events db) \<and> retention_done_at db' = Some (show_ts c now)
           \<and> state_get RETENTION_CURSOR db' = None
        else retention_cursor db' = hi \<and> retention_cursor db < hi \<and> retention_done_at db' = retention_done_at db
           \<and> (\<exists>m. spent m))"
proof -
  obtain r db' where r: "drop_old_bodies c earliest days now spent settle chunk span db = Some (Inr (r, db'))"
    "(\<forall>m. \<not> spent m) \<longrightarrow> ret_finished r"
    and p: "pass_from (cutoff_at c days now) (retention_cursor db) (show_ts c now) db (ret_dropped r) (ret_finished r) db'"
    using drop_old_bodies_runs [OF assms] by blast
  let ?cut = "cutoff_at c days now" and ?cur = "retention_cursor db"
  have due: "due ?cut ?cur hi db = (\<lambda>e. ?cur < r_rowid e \<and> r_rowid e \<le> hi \<and> retention_rule ?cut db e)" for hi
    by (simp add: due_def in_window_def fun_eq_iff)
  obtain hi where "events db' = upd (due ?cut ?cur hi db) drop_body (events db)"
    "if ret_finished r then list_all (\<lambda>e. r_rowid e \<le> hi) (events db) \<and> retention_done_at db' = Some (show_ts c now)
        \<and> state_get RETENTION_CURSOR db' = None
     else retention_cursor db' = hi \<and> ?cur < hi \<and> list_ex (\<lambda>r. hi < r_rowid r) (events db)
        \<and> retention_done_at db' = retention_done_at db"
    using p unfolding pass_from_def by (elim exE conjE) (rule that)
  then show ?thesis using r by (intro exI [of _ r] exI [of _ db'] exI [of _ hi], cases "ret_finished r")
      (simp_all only: due upd_def drop_body_def if_True if_False simp_thms, simp_all)
qed

definition sample_row :: "int \<Rightarrow> string \<Rightarrow> event_row" where
  "sample_row n i = \<lparr>r_rowid = n, r_id = lit i, r_ts = [], r_workspace = [], r_project = lit ''p'', r_session = lit ''s'',
     r_cli = lit ''c'', r_hook = lit ''post_tool_use'', r_kind = Observation, r_title = lit ''Edit: a.rs'', r_body = lit ''body'',
     r_files = [], r_topic = None, r_invocation = None, r_forgotten = 0, r_corrected_by = None, r_read_count = 0,
     r_injected_count = 0, r_confidence = 0, r_consolidated = True, r_team = False, r_agent = None, r_clamped = False,
     r_class = None, r_expires_at = None, r_stale_since = None, r_cites = None, r_scope = None\<rparr>"

definition sample_db :: store where
  "sample_db = empty_store\<lparr>events := [sample_row 1 ''a'', sample_row 2 ''b'']\<rparr>"

lemma sample_db_ok:
  "rows_ok sample_db" "pass_open sample_clock 0 30 (40 * 86400 * SEC) (retention_done_at sample_db)"
  "retention_cursor sample_db = 0"
  by (simp_all add: rows_ok_def sample_db_def sample_row_def I64_MAX_def pass_open_def SEC_def retention_done_at_def
      retention_cursor_def state_get_def empty_store_def)

theorem retention_drops_exactly_the_rule_witness:
  "\<exists>r db'. drop_old_bodies sample_clock 0 30 (40 * 86400 * SEC) (\<lambda>_. False) (\<lambda>_. None) RETENTION_CHUNK RETENTION_SPAN sample_db
      = Some (Inr (r, db')) \<and> map r_body (events db') = [[], []]"
proof -
  have pos: "0 < RETENTION_CHUNK" "0 < RETENTION_SPAN" by (simp_all add: RETENTION_CHUNK_def RETENTION_SPAN_def)
  obtain r db' hi where r: "drop_old_bodies sample_clock 0 30 (40 * 86400 * SEC) (\<lambda>_. False) (\<lambda>_. None) RETENTION_CHUNK RETENTION_SPAN sample_db
      = Some (Inr (r, db'))"
    and ev: "events db' = map (\<lambda>e. if retention_cursor sample_db < r_rowid e \<and> r_rowid e \<le> hi \<and>
        retention_rule (cutoff_at sample_clock 30 (40 * 86400 * SEC)) sample_db e then e\<lparr>r_body := [], r_clamped := True\<rparr> else e) (events sample_db)"
    and fin: "ret_finished r" "list_all (\<lambda>e. r_rowid e \<le> hi) (events sample_db)"
    using retention_drops_exactly_the_rule [OF sample_db_ok(1) pos sample_db_ok(2), of "\<lambda>_. False" "\<lambda>_. None"]
    by (auto split: if_splits)
  have "retention_rule (cutoff_at sample_clock 30 (40 * 86400 * SEC)) sample_db e" if "e \<in> set (events sample_db)" for e
    using that by (auto simp: sample_db_def sample_row_def retention_rule_def sample_clock_def empty_store_def
        embeddable_def PAYLOAD_HOOKS_def SEC_def)
  moreover have "0 < r_rowid e" if "e \<in> set (events sample_db)" for e
    using that by (auto simp: sample_db_def sample_row_def)
  ultimately have "map r_body (events db') = map (\<lambda>_. []) (events sample_db)"
    using fin(2) by (simp add: ev list_all_iff sample_db_ok(3))
  then show ?thesis using r by (simp add: sample_db_def)
qed

fun retention_runs ::
  "clock \<Rightarrow> int \<Rightarrow> nat \<Rightarrow> (int \<times> (nat \<Rightarrow> bool)) list \<Rightarrow> store \<Rightarrow> (bool list \<times> store) option" where
  "retention_runs c earliest days [] db = Some ([], db)"
| "retention_runs c earliest days ((now, spent) # runs) db =
     (case drop_old_bodies c earliest days now spent (\<lambda>_. None) RETENTION_CHUNK RETENTION_SPAN db of
        None \<Rightarrow> None
      | Some (Inl _) \<Rightarrow> map_option (\<lambda>(fs, db'). (False # fs, db')) (retention_runs c earliest days runs db)
      | Some (Inr (r, db1)) \<Rightarrow> map_option (\<lambda>(fs, db'). (ret_finished r # fs, db')) (retention_runs c earliest days runs db1))"

lemma pass_rows_ok: "rows_ok db \<Longrightarrow> pass_from cutoff cursor now db k fin db' \<Longrightarrow> rows_ok db'"
  by (auto simp: pass_from_def intro: rows_ok_upd)

lemma pass_keeps:
  assumes "pass_from cutoff cursor now db k finished db'" "\<And>lo hi. \<not> due cutoff lo hi db e" "e \<in> set (events db)"
  shows "e \<in> set (events db')"
  using assms(1) unfolding pass_from_def
  by (elim exE conjE) (simp only: mem_upd, rule bexI [of _ e], simp_all add: assms(2,3))

lemma chunk_span_pos: "0 < RETENTION_CHUNK" "0 < RETENTION_SPAN"
  by (simp_all add: RETENTION_CHUNK_def RETENTION_SPAN_def)

lemma drop_old_bodies_total:
  assumes "rows_ok db"
  shows "\<exists>res. drop_old_bodies c earliest days now spent settle RETENTION_CHUNK RETENTION_SPAN db = Some res
    \<and> (\<forall>r db'. res = Inr (r, db') \<longrightarrow> rows_ok db')"
proof (cases "pass_open c earliest days now (retention_done_at db)")
  case True
  then obtain r db' where "drop_old_bodies c earliest days now spent settle RETENTION_CHUNK RETENTION_SPAN db = Some (Inr (r, db'))"
    "pass_from (cutoff_at c days now) (retention_cursor db) (show_ts c now) db (ret_dropped r) (ret_finished r) db'"
    using drop_old_bodies_runs [OF assms chunk_span_pos] by blast
  then show ?thesis using pass_rows_ok [OF assms] by blast
next
  case False
  then show ?thesis using assms
    by (auto simp: drop_old_bodies_def pass_open_def Let_def split: option.splits)
qed

lemma retention_runs_total: "rows_ok db \<Longrightarrow> \<exists>fs db'. retention_runs c earliest days runs db = Some (fs, db')"
proof (induction runs arbitrary: db)
  case (Cons a runs)
  obtain now spent where a: "a = (now, spent)" by (cases a)
  obtain res where res: "drop_old_bodies c earliest days now spent (\<lambda>_. None) RETENTION_CHUNK RETENTION_SPAN db = Some res"
    "\<forall>r db'. res = Inr (r, db') \<longrightarrow> rows_ok db'"
    using drop_old_bodies_total [OF Cons.prems] by blast
  show ?case
  proof (cases res)
    case (Inl e)
    obtain fs db' where "retention_runs c earliest days runs db = Some (fs, db')" using Cons by blast
    then show ?thesis by (simp add: a res(1) Inl)
  next
    case (Inr rd)
    obtain r db1 where rd: "rd = (r, db1)" by (cases rd)
    then obtain fs db' where "retention_runs c earliest days runs db1 = Some (fs, db')" using Cons.IH res(2) Inr by blast
    then show ?thesis by (simp add: a res(1) Inr rd)
  qed
qed simp

text \<open>How many rowids a pass still has in front of it.\<close>

definition ahead :: "store \<Rightarrow> nat" where
  "ahead db = (case newest_rowid db of None \<Rightarrow> 0 | Some m \<Rightarrow> nat (m - retention_cursor db))"

lemma newest_upd: "events db' = upd P drop_body (events db) \<Longrightarrow> newest_rowid db' = newest_rowid db"
  by (auto simp: newest_rowid_def rowids_upd) (auto simp: upd_def)

lemma ahead_less:
  assumes "pass_from cutoff (retention_cursor db) now db k False db'"
  shows "ahead db' < ahead db"
proof -
  obtain e where e: "e \<in> set (events db)" "retention_cursor db' < r_rowid e" and lt: "retention_cursor db < retention_cursor db'"
    and nw: "newest_rowid db' = newest_rowid db"
    using assms newest_upd by (auto simp: pass_from_def list_ex_iff)
  then obtain m where m: "newest_rowid db = Some m" by (cases "newest_rowid db") (auto simp: newest_rowid_def split: if_splits)
  then have "r_rowid e \<le> m" using e rowid_le_newest by blast
  then show ?thesis using e lt by (simp add: ahead_def nw m)
qed

lemma retention_runs_finish:
  assumes "rows_ok db" "\<forall>(now, spent) \<in> set runs. pass_open c earliest days now (retention_done_at db)" "ahead db < length runs"
  shows "\<exists>fs db'. retention_runs c earliest days runs db = Some (fs, db') \<and> True \<in> set fs"
  using assms
proof (induction runs arbitrary: db)
  case (Cons a runs)
  obtain now spent where a: "a = (now, spent)" by (cases a)
  have "pass_open c earliest days now (retention_done_at db)" using Cons.prems(2) by (simp add: a)
  then obtain r db1 where r: "drop_old_bodies c earliest days now spent (\<lambda>_. None) RETENTION_CHUNK RETENTION_SPAN db = Some (Inr (r, db1))"
    and p: "pass_from (cutoff_at c days now) (retention_cursor db) (show_ts c now) db (ret_dropped r) (ret_finished r) db1"
    using drop_old_bodies_runs [OF Cons.prems(1) chunk_span_pos] by blast
  have ok: "rows_ok db1" using pass_rows_ok [OF Cons.prems(1) p] .
  show ?case
  proof (cases "ret_finished r")
    case True
    obtain fs db' where "retention_runs c earliest days runs db1 = Some (fs, db')" using retention_runs_total [OF ok] by blast
    then show ?thesis by (simp add: a r True)
  next
    case False
    then have "ahead db1 < ahead db" "retention_done_at db1 = retention_done_at db"
      using p ahead_less by (auto simp: pass_from_def)
    then obtain fs db' where "retention_runs c earliest days runs db1 = Some (fs, db')" "True \<in> set fs"
      using Cons.IH [OF ok] Cons.prems by auto
    then show ?thesis by (simp add: a r)
  qed
qed simp



text \<open>
  no configuration lets a run touch the index's copy of the last week. Whatever window is
  configured, zero and one day included, the run returns and a row stamped less than seven days
  before now (to the second) is in the index exactly as it was.
\<close>
theorem retention_keeps_last_week:
  assumes "clock_ok c" "rows_ok db" "e \<in> set (events db)" "r_ts e = show_ts c t"
    "(now - 7 * 86400 * SEC) div SEC < t div SEC" "case configured of None \<Rightarrow> True | Some d \<Rightarrow> int (max d 7) * 86400 * SEC \<le> now"
  shows "\<exists>k db'. run_retention c earliest configured now spent settle db = Some (k, db') \<and> e \<in> set (events db')"
proof (cases "case configured of None \<Rightarrow> None | Some d \<Rightarrow> effective_days d")
  case None
  then show ?thesis using assms(3) by (auto simp: run_retention_def split: option.splits)
next
  case (Some days)
  then obtain d0 where d0: "configured = Some d0" "effective_days d0 = Some days" by (auto split: option.splits)
  then have days: "days = max d0 7" by (auto simp: effective_days_def RETENTION_MIN_DAYS_def split: if_splits)
  let ?run = "drop_old_bodies c earliest days now spent settle RETENTION_CHUNK RETENTION_SPAN db"
  have old: "0 \<le> now - int days * 86400 * SEC" using assms(6) by (simp add: d0(1) days)
  have "now - int days * 86400 * SEC \<le> now - 7 * 86400 * SEC" by (simp add: days SEC_def)
  then have "(now - int days * 86400 * SEC) div SEC < t div SEC"
    using assms(5) zdiv_mono1 [of "now - int days * 86400 * SEC" "now - 7 * 86400 * SEC" SEC] by (simp add: SEC_def)
  then have "show_ts c (now - int days * 86400 * SEC) < show_ts c t"
    using assms(1) old unfolding clock_ok_def by blast
  then have "cutoff_at c days now < r_ts e" by (simp add: assms(4) mult.commute)
  then have keep: "\<not> due (cutoff_at c days now) lo hi db e" for lo hi by (auto simp: due_def retention_rule_def)
  show ?thesis
  proof (cases "pass_open c earliest days now (retention_done_at db)")
    case True
    then obtain r db' where r: "?run = Some (Inr (r, db'))"
      "pass_from (cutoff_at c days now) (retention_cursor db) (show_ts c now) db (ret_dropped r) (ret_finished r) db'"
      using drop_old_bodies_runs [OF assms(2) chunk_span_pos] by blast
    then have "e \<in> set (events db')" using pass_keeps keep assms(3) by blast
    then show ?thesis by (simp add: run_retention_def d0 r(1))
  next
    case False
    then show ?thesis using assms(3)
      by (auto simp: run_retention_def d0 drop_old_bodies_def pass_open_def Let_def split: option.splits)
  qed
qed

theorem retention_keeps_last_week_witness:
  "\<exists>k db'. run_retention sample_clock 0 (Some 1) (40 * 86400 * SEC) (\<lambda>_. False) (\<lambda>_. None)
       (empty_store\<lparr>events := [(sample_row 1 ''a'')\<lparr>r_ts := show_ts sample_clock (39 * 86400 * SEC)\<rparr>]\<rparr>) = Some (k, db')
     \<and> (sample_row 1 ''a'')\<lparr>r_ts := show_ts sample_clock (39 * 86400 * SEC)\<rparr> \<in> set (events db')"
  by (rule retention_keeps_last_week [OF sample_clock_ok, where t = "39 * 86400 * SEC"])
    (simp_all add: rows_ok_def sample_row_def I64_MAX_def SEC_def)

end
