(* ===== verification/Store_Stale.thy ===== *)
theory Store_Stale
  imports Store_Retention
begin

text \<open>
  When the index doubts a lesson, in \<open>src/src/store.rs\<close>: a lesson cites files, and an edit of a
  cited file later than the lesson marks it stale. The scan reads a project's events in batches
  past a cursor of timestamp and rowid. \<open>HashMap\<close> entries are lists in insertion order (the scan
  only ever looks one path up), and the \<open>BTreeMap\<close> of hits is an association list read in key order.
\<close>

section \<open>The scan\<close>

definition WRITE_TOOLS :: "rstr list" where
  "WRITE_TOOLS = map lit [''edit'', ''write'', ''multiedit'', ''notebookedit'', ''write_file'', ''edit_file'',
     ''create_file'', ''replace'', ''str_replace'', ''str_replace_editor'', ''str_replace_based_edit_tool'',
     ''apply_patch'', ''patch'', ''search_replace'', ''write_to_file'', ''replace_file_content'',
     ''multi_replace_file_content'']"

definition is_write_title :: "rstr \<Rightarrow> bool" where
  "is_write_title title =
     (case split_once (lit '': '') title of None \<Rightarrow> False
      | Some (tool, _) \<Rightarrow> list_ex (\<lambda>name. eq_ignore_case tool name) WRITE_TOOLS)"

definition stale_key :: "rstr \<Rightarrow> rstr" where
  "stale_key project = lit ''stale_scan_at:'' @ project"

definition scan_cursor :: "rstr \<Rightarrow> store \<Rightarrow> rstr \<times> int" where
  "scan_cursor project db =
     (let saved = (case state_get (stale_key project) db of None \<Rightarrow> [] | Some v \<Rightarrow> v)
      in case rsplit_char 124 saved of
           Some (ts, row) \<Rightarrow> (ts, case parse_i64 row of None \<Rightarrow> 0 | Some i \<Rightarrow> i)
         | None \<Rightarrow> (saved, 0))"

abbreviation scan_at :: "event_row \<Rightarrow> rstr \<times> int" where
  "scan_at r \<equiv> (r_ts r, r_rowid r)"

definition stale_scan :: "rstr \<Rightarrow> rstr \<Rightarrow> int \<Rightarrow> nat \<Rightarrow> store \<Rightarrow> event_row list" where
  "stale_scan project cursor_ts cursor_row limit db =
     take limit (sort_key scan_at
       (sel (\<lambda>r. r_project r = project \<and> cursor_ts \<le> r_ts r \<and> (cursor_ts < r_ts r \<or> cursor_row < r_rowid r))
         (events db)))"

definition is_edit :: "event_row \<Rightarrow> bool" where
  "is_edit r = (r_kind r = Observation \<and> is_write_title (r_title r))"

definition cited_lesson :: "rstr \<Rightarrow> event_row \<Rightarrow> bool" where
  "cited_lesson project r =
     (r_kind r = Knowledge \<and> r_project r = project \<and> r_forgotten r = 0 \<and> \<not> r_team r
      \<and> r_stale_since r = None \<and> r_cites r \<noteq> None)"

definition cited_paths :: "rstr \<Rightarrow> store \<Rightarrow> (rstr \<times> rstr \<times> rstr) list" where
  "cited_paths project db =
     concat (map (\<lambda>l. map (\<lambda>path. (path, r_id l, r_ts l)) (case r_cites l of None \<Rightarrow> [] | Some paths \<Rightarrow> paths))
       (sel (cited_lesson project) (events db)))"

definition edit_files :: "rstr \<Rightarrow> store \<Rightarrow> rstr list" where
  "edit_files i db = map f_path (sel (\<lambda>f. f_event f = i) (event_files db))"

definition edit_hits :: "(rstr \<times> rstr \<times> rstr) list \<Rightarrow> store \<Rightarrow> event_row \<Rightarrow> (rstr \<times> rstr) list" where
  "edit_hits cited db e =
     concat (map (\<lambda>path. map (\<lambda>(_, lesson, written). (lesson, r_ts e))
         (filter (\<lambda>(p, lesson, written). p = path \<and> written < r_ts e) cited))
       (edit_files (r_id e) db))"

definition or_insert :: "(rstr \<times> rstr) \<Rightarrow> (rstr \<times> rstr) list \<Rightarrow> (rstr \<times> rstr) list" where
  "or_insert kv m = (if fst kv \<in> fst ` set m then m else m @ [kv])"

definition mark_row :: "rstr \<times> rstr \<Rightarrow> store \<Rightarrow> store" where
  "mark_row kv db = db\<lparr>events := upd (\<lambda>r. r_id r = fst kv \<and> r_stale_since r = None)
     (\<lambda>r. r\<lparr>r_stale_since := Some (snd kv)\<rparr>) (events db)\<rparr>"

definition stale_hits :: "rstr \<Rightarrow> event_row list \<Rightarrow> store \<Rightarrow> (rstr \<times> rstr) list" where
  "stale_hits project rows db =
     fold or_insert (concat (map (edit_hits (cited_paths project db) db) (filter is_edit rows))) []"

definition mark_stale_knowledge :: "rstr \<Rightarrow> nat \<Rightarrow> store \<Rightarrow> nat \<times> store" where
  "mark_stale_knowledge project limit db =
     (let (cursor_ts, cursor_row) = scan_cursor project db;
          rows = stale_scan project cursor_ts cursor_row limit db
      in if rows = [] then (0, db)
         else let hit = stale_hits project rows db;
                  db1 = fold mark_row (sort_key fst hit) db;
                  at = r_ts (last rows) @ lit ''|'' @ dec_int (r_rowid (last rows))
              in (length hit, set_state (stale_key project) at db1))"

record stale_entry =
  st_id :: rstr
  st_title :: rstr
  st_body :: rstr
  st_cites :: "rstr list"

definition human_row :: "store \<Rightarrow> rstr \<Rightarrow> bool" where
  "human_row db i = list_ex (\<lambda>c. r_id c = i \<and> (r_hook c = lit ''correct'' \<or> r_cli c = lit ''human'')) (events db)"

definition stale_knowledge :: "rstr \<Rightarrow> nat \<Rightarrow> store \<Rightarrow> stale_entry list" where
  "stale_knowledge project limit db =
     map (\<lambda>r. \<lparr>st_id = r_id r, st_title = r_title r, st_body = r_body r,
               st_cites = (case r_cites r of None \<Rightarrow> [] | Some paths \<Rightarrow> paths)\<rparr>)
       (take limit (sort_key (\<lambda>r. (case r_stale_since r of None \<Rightarrow> [] | Some t \<Rightarrow> t, r_id r))
         (sel (\<lambda>r. r_kind r = Knowledge \<and> r_project r = project \<and> r_forgotten r = 0 \<and> \<not> r_team r
              \<and> r_stale_since r \<noteq> None
              \<and> \<not> (case r_corrected_by r of None \<Rightarrow> False | Some c \<Rightarrow> human_row db c)) (events db))))"

definition clear_stale :: "rstr \<Rightarrow> store \<Rightarrow> store" where
  "clear_stale i = upd_event i (\<lambda>r. r\<lparr>r_stale_since := None\<rparr>)"

section \<open>What one call marks\<close>

text \<open>The edit \<open>e\<close> makes the lesson \<open>r\<close> doubtful: it is later and touches a file the lesson cites.\<close>

definition contradicts :: "store \<Rightarrow> event_row \<Rightarrow> event_row \<Rightarrow> bool" where
  "contradicts db r e = (is_edit e \<and> r_ts r < r_ts e \<and>
     list_ex (\<lambda>path. path \<in> set (edit_files (r_id e) db)) (case r_cites r of None \<Rightarrow> [] | Some paths \<Rightarrow> paths))"

text \<open>The reference: a doubted lesson carries the first edit, in scan order, that contradicts it.\<close>

definition doubted :: "rstr \<Rightarrow> store \<Rightarrow> event_row list \<Rightarrow> event_row \<Rightarrow> event_row" where
  "doubted project db rows r =
     (if cited_lesson project r
      then case find (contradicts db r) rows of None \<Rightarrow> r | Some e \<Rightarrow> r\<lparr>r_stale_since := Some (r_ts e)\<rparr>
      else r)"

lemma map_of_or_insert: "map_of (or_insert kv m) k = (case map_of m k of None \<Rightarrow> if fst kv = k then Some (snd kv) else None | Some v \<Rightarrow> Some v)"
proof (cases "fst kv \<in> fst ` set m")
  case True
  then have "map_of m (fst kv) \<noteq> None" by (simp add: map_of_eq_None_iff)
  then show ?thesis using True by (auto simp: or_insert_def split: option.split)
next
  case False
  then have "map_of m (fst kv) = None" by (simp add: map_of_eq_None_iff)
  then show ?thesis using False by (cases kv) (auto simp: or_insert_def map_add_def split: option.split)
qed

lemma map_of_fold_or_insert:
  "map_of (fold or_insert kvs m) k = (case map_of m k of None \<Rightarrow> map_of kvs k | Some v \<Rightarrow> Some v)"
  by (induction kvs arbitrary: m) (auto simp: map_of_or_insert split: option.splits)

lemma distinct_or_insert: "distinct (map fst m) \<Longrightarrow> distinct (map fst (fold or_insert kvs m))"
  by (induction kvs arbitrary: m) (auto simp: or_insert_def)

lemma map_of_concat:
  assumes "\<And>e k v. (k, v) \<in> set (h e) \<Longrightarrow> v = g e"
  shows "map_of (concat (map h es)) i = map_option g (find (\<lambda>e. i \<in> fst ` set (h e)) es)"
proof (induction es)
  case (Cons e es)
  show ?case
  proof (cases "i \<in> fst ` set (h e)")
    case True
    then obtain v where v: "map_of (h e) i = Some v" by (metis map_of_eq_None_iff not_Some_eq)
    then have "v = g e" using assms map_of_SomeD by metis
    then show ?thesis using True v by simp
  next
    case False
    then have "map_of (h e) i = None" by (simp add: map_of_eq_None_iff)
    then show ?thesis using False Cons by (simp add: map_add_def)
  qed
qed simp

lemma find_filter: "find P (filter Q xs) = find (\<lambda>x. Q x \<and> P x) xs"
  by (induction xs) auto

lemma find_cong: "(\<And>x. x \<in> set xs \<Longrightarrow> P x = Q x) \<Longrightarrow> find P xs = find Q xs"
  by (induction xs) auto

lemma cited_paths_mem:
  "(path, i, w) \<in> set (cited_paths project db) \<longleftrightarrow>
     (\<exists>l\<in>set (events db). cited_lesson project l \<and> r_id l = i \<and> r_ts l = w
        \<and> path \<in> set (case r_cites l of None \<Rightarrow> [] | Some paths \<Rightarrow> paths))"
  unfolding cited_paths_def by (simp add: Bex_def image_iff) blast

lemma edit_hits_mem:
  "i \<in> fst ` set (edit_hits cited db e) \<longleftrightarrow>
     (\<exists>path w. path \<in> set (edit_files (r_id e) db) \<and> (path, i, w) \<in> set cited \<and> w < r_ts e)"
  unfolding edit_hits_def by (auto simp: image_iff)

lemma hits_at: "(i, v) \<in> set (edit_hits cited db e) \<Longrightarrow> v = r_ts e"
  by (auto simp: edit_hits_def)

lemma stale_hits_find:
  assumes "distinct (map r_id (events db))" "r \<in> set (events db)"
  shows "map_of (stale_hits project rows db) (r_id r) =
    (if cited_lesson project r then map_option r_ts (find (contradicts db r) rows) else None)"
proof -
  let ?cited = "cited_paths project db"
  have uniq: "l = r" if "l \<in> set (events db)" "r_id l = r_id r" for l
    using assms that by (auto simp: distinct_map inj_on_def)
  have hit: "(is_edit e \<and> r_id r \<in> fst ` set (edit_hits ?cited db e)) =
    (cited_lesson project r \<and> contradicts db r e)" for e
    unfolding edit_hits_mem cited_paths_mem contradicts_def list_ex_iff
    using uniq assms(2) by blast
  have "map_of (stale_hits project rows db) (r_id r) =
      map_option r_ts (find (\<lambda>e. cited_lesson project r \<and> contradicts db r e) rows)"
    unfolding stale_hits_def map_of_fold_or_insert
    by (subst map_of_concat [where g = r_ts]) (simp_all add: find_filter hit hits_at)
  moreover have "find (\<lambda>_. False) rows = None" by (simp add: find_None_iff)
  ultimately show ?thesis by simp
qed

lemma fold_mark_row:
  "distinct (map fst kvs) \<Longrightarrow> events (fold mark_row kvs db) = map (\<lambda>r. case map_of kvs (r_id r) of
      Some t \<Rightarrow> if r_stale_since r = None then r\<lparr>r_stale_since := Some t\<rparr> else r | None \<Rightarrow> r) (events db)"
proof (induction kvs arbitrary: db)
  case (Cons kv kvs)
  have "map_of kvs (fst kv) = None" using Cons.prems by (simp add: map_of_eq_None_iff)
  then show ?case using Cons by (cases kv) (auto simp: mark_row_def upd_def split: option.split)
qed simp

lemma fold_mark_frame:
  "event_files (fold mark_row kvs db) = event_files db" "schema_state (fold mark_row kvs db) = schema_state db"
  by (induction kvs arbitrary: db) (simp_all add: mark_row_def)

lemma distinct_fst_sort: "distinct (map fst m) \<Longrightarrow> distinct (map fst (sort_key fst m))"
  by (simp only: distinct_sort_map)

lemma map_of_sort_key: "distinct (map fst (m :: (rstr \<times> rstr) list)) \<Longrightarrow> map_of (sort_key fst m) = map_of m"
  by (subst map_of_inject_set) (simp_all add: distinct_fst_sort)

lemma mark_stale_events:
  assumes "distinct (map r_id (events db))" "rows = stale_scan project cts crow limit db" "scan_cursor project db = (cts, crow)"
  shows "events (snd (mark_stale_knowledge project limit db)) = map (doubted project db rows) (events db)"
proof (cases "rows = []")
  case True
  have "doubted project db [] = (\<lambda>r. r)" by (simp add: doubted_def fun_eq_iff)
  then show ?thesis using True assms(2,3) by (simp add: mark_stale_knowledge_def)
next
  case False
  let ?hit = "stale_hits project rows db"
  have d: "distinct (map fst ?hit)" unfolding stale_hits_def by (rule distinct_or_insert) simp
  then have ds: "distinct (map fst (sort_key fst ?hit))"
    by (rule distinct_fst_sort)
  have "events (snd (mark_stale_knowledge project limit db)) = events (fold mark_row (sort_key fst ?hit) db)"
    using False assms(2,3) by (simp add: mark_stale_knowledge_def Let_def set_state_def)
  also have "\<dots> = map (doubted project db rows) (events db)"
    unfolding fold_mark_row [OF ds] map_of_sort_key [OF d]
    by (rule map_cong [OF refl]) (auto simp: stale_hits_find [OF assms(1)] doubted_def cited_lesson_def split: option.split)
  finally show ?thesis .
qed

section \<open>Scanning to the end\<close>

fun scans :: "rstr \<Rightarrow> nat \<Rightarrow> nat \<Rightarrow> store \<Rightarrow> store" where
  "scans project limit 0 db = db"
| "scans project limit (Suc n) db = snd (mark_stale_knowledge project limit (scans project limit n db))"

definition project_events :: "rstr \<Rightarrow> store \<Rightarrow> event_row list" where
  "project_events project db = sort_key scan_at (sel (\<lambda>r. r_project r = project) (events db))"

definition past :: "rstr \<times> int \<Rightarrow> event_row \<Rightarrow> bool" where
  "past at r = (fst at \<le> r_ts r \<and> (fst at < r_ts r \<or> snd at < r_rowid r))"

lemma past_iff: "past at r \<longleftrightarrow> at < scan_at r"
  by (cases at) (auto simp: past_def less_prod_def')

lemma sort_key_map: "(\<And>r. f (g r) = f r) \<Longrightarrow> sort_key f (map g xs) = map g (sort_key f xs)"
proof (induction xs)
  case (Cons x xs)
  have "insort_key f (g x) (map g ys) = map g (insort_key f x ys)" for ys
    by (induction ys) (simp_all add: Cons.prems)
  then show ?case using Cons by simp
qed simp

lemma doubted_same [simp]:
  "r_id (doubted p db rows r) = r_id r" "r_ts (doubted p db rows r) = r_ts r" "r_rowid (doubted p db rows r) = r_rowid r"
  "r_project (doubted p db rows r) = r_project r" "is_edit (doubted p db rows r) = is_edit r"
  by (simp_all add: doubted_def is_edit_def split: option.split)

lemma stale_scan_map:
  assumes "events db' = map (doubted p db rows) (events db)"
  shows "stale_scan project (fst at) (snd at) limit db' =
    map (doubted p db rows) (take limit (filter (past at) (project_events project db)))"
proof -
  let ?g = "doubted p db rows"
  let ?P = "\<lambda>r. r_project r = project \<and> past at r"
  have P: "?P (?g r) = ?P r" for r by (simp add: past_def)
  have "sel ?P (events db') = map ?g (sel ?P (events db))"
    unfolding assms sel_def filter_map comp_def P ..
  then have "sort_key scan_at (sel ?P (events db')) = map ?g (sort_key scan_at (sel ?P (events db)))"
    by (simp add: sort_key_map)
  also have "sort_key scan_at (sel ?P (events db)) = filter (past at) (project_events project db)"
    unfolding project_events_def sel_def filter_sort [symmetric] filter_filter by (simp add: conj_commute)
  finally show ?thesis by (simp add: stale_scan_def past_def take_map)
qed

lemma distinct_map_pair: "distinct (map g xs) \<Longrightarrow> distinct (map (\<lambda>r. (f r, g r)) xs)"
  by (induction xs) auto

lemma project_events_sorted:
  assumes "distinct (map r_rowid (events db))"
  shows "sorted_wrt (\<lambda>a b. scan_at a < scan_at b) (project_events project db)"
proof -
  have "distinct (map r_rowid (sel (\<lambda>r. r_project r = project) (events db)))"
    using assms by (simp add: sel_def distinct_map_filter)
  then have "distinct (map scan_at (sel (\<lambda>r. r_project r = project) (events db)))"
    by (rule distinct_map_pair)
  then have "distinct (map scan_at (project_events project db))"
    unfolding project_events_def distinct_sort_map .
  then have "sorted_wrt (<) (map scan_at (project_events project db))"
    by (simp add: strict_sorted_iff project_events_def)
  then show ?thesis by (simp add: sorted_wrt_map)
qed

lemma filter_past:
  assumes "sorted_wrt (\<lambda>a b. scan_at a < scan_at b) (as @ bs)" "as \<noteq> []"
  shows "filter (past (scan_at (last as))) (as @ bs) = bs"
proof -
  have split: "as = butlast as @ [last as]" using assms(2) by simp
  have "sorted_wrt (\<lambda>a b. scan_at a < scan_at b) (butlast as @ [last as])"
    using assms(1) split by (simp add: sorted_wrt_append)
  then have "scan_at a < scan_at (last as)" if "a \<in> set (butlast as)" for a
    using that by (simp add: sorted_wrt_append)
  then have low: "\<not> scan_at (last as) < scan_at a" if "a \<in> set as" for a
    using that split by (metis (no_types, lifting) Un_iff empty_iff empty_set less_asym less_irrefl list.simps(15) insert_iff set_append)
  have "last as \<in> set as" using assms(2) by simp
  then have up: "scan_at (last as) < scan_at b" if "b \<in> set bs" for b
    using assms(1) that by (auto simp: sorted_wrt_append)
  show ?thesis using low up unfolding filter_append past_iff
    by (simp add: filter_empty_conv filter_id_conv)
qed

definition cursor_after :: "event_row list \<Rightarrow> rstr \<times> int" where
  "cursor_after seen = (if seen = [] then ([], 0) else scan_at (last seen))"

lemma cursor_after_app: "cursor_after (a @ b) = (if b = [] then cursor_after a else scan_at (last b))"
  by (simp add: cursor_after_def)

lemma filter_past_cursor:
  assumes "sorted_wrt (\<lambda>a b. scan_at a < scan_at b) s" "\<forall>r\<in>set s. 0 < r_rowid r"
  shows "filter (past (cursor_after (take n s))) s = drop n s"
proof (cases "take n s = []")
  case True
  then have "drop n s = s" by auto
  moreover have "past ([], 0) r" if "r \<in> set s" for r using assms(2) that by (simp add: past_def)
  ultimately show ?thesis using True by (simp add: cursor_after_def filter_id_conv)
next
  case False
  then show ?thesis using filter_past [of "take n s" "drop n s"] assms(1) by (simp add: cursor_after_def)
qed

lemma scan_cursor_set:
  assumes "I64_MIN \<le> row" "row \<le> I64_MAX"
  shows "scan_cursor project (set_state (stale_key project) (ts @ lit ''|'' @ dec_int row) db) = (ts, row)"
proof -
  have "124 \<notin> set (dec_int row)" using dec_int_plain [of 124 row] by (auto simp: is_ascii_digit_def)
  then have "rsplit_char 124 (ts @ lit ''|'' @ dec_int row) = Some (ts, dec_int row)"
    using rsplit_char_app [of 124 "dec_int row" ts] by (simp add: lit_def)
  then show ?thesis using parse_i64_dec_int [OF assms] by (simp add: scan_cursor_def)
qed

lemma doubted_join:
  assumes "event_files db' = event_files db"
  shows "doubted p db' (map (doubted p db as) bs) (doubted p db as r) = doubted p db (as @ bs) r"
proof (cases "cited_lesson p r \<and> find (contradicts db r) as = None")
  case True
  have c: "contradicts db' r (doubted p db as e) = contradicts db r e" for e
    by (simp add: contradicts_def edit_files_def assms)
  have "find (contradicts db' r) (map (doubted p db as) bs) = map_option (doubted p db as) (find (contradicts db r) bs)"
    by (induction bs) (simp_all add: c)
  moreover have "find (contradicts db r) (as @ bs) = find (contradicts db r) bs" using True
    by (induction as) (auto split: if_splits)
  moreover have "doubted p db as r = r" using True by (simp add: doubted_def)
  ultimately show ?thesis using True by (simp add: doubted_def split: option.split)
next
  case False
  show ?thesis
  proof (cases "cited_lesson p r")
    case True
    then obtain e where e: "find (contradicts db r) as = Some e" using False by (cases "find (contradicts db r) as") auto
    then have "find (contradicts db r) (as @ bs) = Some e" by (induction as) (auto split: if_splits)
    moreover have "\<not> cited_lesson p (r\<lparr>r_stale_since := Some (r_ts e)\<rparr>)" by (simp add: cited_lesson_def)
    ultimately show ?thesis using True e by (simp add: doubted_def)
  qed (simp add: doubted_def)
qed

lemma mark_frame:
  "event_files (snd (mark_stale_knowledge project limit db)) = event_files db"
  by (simp add: mark_stale_knowledge_def Let_def set_state_def fold_mark_frame split: prod.split)

lemma mark_cursor:
  assumes "rows = stale_scan project (fst (scan_cursor project db)) (snd (scan_cursor project db)) limit db"
    "\<forall>r\<in>set rows. 0 < r_rowid r \<and> r_rowid r \<le> I64_MAX"
  shows "scan_cursor project (snd (mark_stale_knowledge project limit db)) =
    (if rows = [] then scan_cursor project db else scan_at (last rows))"
proof (cases "rows = []")
  case True
  then show ?thesis using assms(1) by (simp add: mark_stale_knowledge_def Let_def case_prod_beta)
next
  case False
  then have "last rows \<in> set rows" by simp
  then have "I64_MIN \<le> r_rowid (last rows)" "r_rowid (last rows) \<le> I64_MAX"
    using assms(2) by (force simp: I64_MIN_def)+
  then show ?thesis using False assms(1) scan_cursor_set
    by (simp add: mark_stale_knowledge_def Let_def case_prod_beta)
qed

lemma scans_state:
  assumes ok: "rows_ok db" "\<forall>r\<in>set (events db). 0 < r_rowid r" "state_get (stale_key project) db = None"
  shows "events (scans project limit k db) = map (doubted project db (take (k * limit) (project_events project db))) (events db)
    \<and> event_files (scans project limit k db) = event_files db
    \<and> scan_cursor project (scans project limit k db) = cursor_after (take (k * limit) (project_events project db))"
proof (induction k)
  case 0
  have "doubted project db [] = (\<lambda>r. r)" by (simp add: doubted_def fun_eq_iff)
  then show ?case using ok(3) by (simp add: scan_cursor_def rsplit_char_def cursor_after_def)
next
  case (Suc k)
  let ?s = "project_events project db" and ?db = "scans project limit k db"
  let ?seen = "take (k * limit) ?s" and ?new = "take limit (drop (k * limit) ?s)"
  let ?rows = "stale_scan project (fst (scan_cursor project ?db)) (snd (scan_cursor project ?db)) limit ?db"
  have mem: "set ?s \<subseteq> set (events db)" by (auto simp: project_events_def)
  have pos: "\<forall>r\<in>set ?s. 0 < r_rowid r" using ok(2) mem by blast
  have flt: "filter (past (cursor_after ?seen)) ?s = drop (k * limit) ?s"
    using ok(1) by (intro filter_past_cursor [OF project_events_sorted pos]) (simp add: rows_ok_def)
  have rows: "?rows = map (doubted project db ?seen) ?new"
    using stale_scan_map [of ?db project db ?seen project "cursor_after ?seen" limit] Suc by (simp add: flt)
  have join: "?seen @ ?new = take (Suc k * limit) ?s" by (simp add: take_add [of "k * limit" limit, symmetric] add.commute)
  have dist: "distinct (map r_id (events ?db))" using ok(1) Suc by (simp add: rows_ok_def comp_def)
  have "set ?new \<subseteq> set (events db)" using mem by (auto dest!: in_set_takeD in_set_dropD)
  then have range: "\<forall>r\<in>set ?rows. 0 < r_rowid r \<and> r_rowid r \<le> I64_MAX"
    using ok(1,2) unfolding rows by (auto simp: rows_ok_def list_all_iff)
  have "events (scans project limit (Suc k) db) = map (doubted project ?db ?rows) (events ?db)"
    using mark_stale_events [OF dist refl, of project "fst (scan_cursor project ?db)" "snd (scan_cursor project ?db)" limit] by simp
  also have "\<dots> = map (doubted project db (take (Suc k * limit) ?s)) (events db)"
    using Suc doubted_join [of ?db db project ?seen ?new] unfolding rows join by (simp add: comp_def)
  finally have ev: "events (scans project limit (Suc k) db) = map (doubted project db (take (Suc k * limit) ?s)) (events db)" .
  have "scan_cursor project (scans project limit (Suc k) db) =
      (if ?rows = [] then cursor_after ?seen else scan_at (last ?rows))"
    using mark_cursor [OF refl range] Suc by simp
  also have "\<dots> = cursor_after (?seen @ ?new)"
    unfolding rows cursor_after_app by (cases "?new = []") (simp_all only: list.map(1) map_is_Nil_conv last_map doubted_same if_True if_False simp_thms)
  finally show ?case using ev Suc mark_frame [of project limit ?db] unfolding join by simp
qed

text \<open>
  C17: the stale scan loses nothing to its batches. On a store scanned from the start, once enough
  calls have been made to cover a project's events (in batches of any size, events of one instant
  split between two of them included), a live lesson of the project is doubted exactly when some
  edit of a file it cites is later than it, with the timestamp of the first such edit, and no other
  row has changed.
\<close>
theorem stale_scan_reaches_every_edit:
  assumes "rows_ok db" "\<forall>r\<in>set (events db). 0 < r_rowid r" "state_get (stale_key project) db = None"
    "length (project_events project db) \<le> k * limit"
  shows "events (scans project limit k db) =
    map (\<lambda>r. if cited_lesson project r
             then case find (contradicts db r) (project_events project db) of
                    None \<Rightarrow> r | Some e \<Rightarrow> r\<lparr>r_stale_since := Some (r_ts e)\<rparr>
             else r) (events db)"
  using scans_state [OF assms(1-3), of limit k] assms(4) by (simp add: doubted_def)

definition stale_sample :: store where
  "stale_sample = empty_store\<lparr>
     events := [(sample_row 1 ''k'')\<lparr>r_kind := Knowledge, r_ts := [1], r_cites := Some [lit ''a.rs'']\<rparr>,
                (sample_row 2 ''x'')\<lparr>r_ts := [2], r_title := lit ''Read: a.rs''\<rparr>,
                (sample_row 3 ''e'')\<lparr>r_ts := [2]\<rparr>],
     event_files := [\<lparr>f_event = lit ''x'', f_path = lit ''a.rs'', f_project = lit ''p''\<rparr>,
                     \<lparr>f_event = lit ''e'', f_path = lit ''a.rs'', f_project = lit ''p''\<rparr>]\<rparr>"

lemma sample_titles: "is_write_title (lit ''Edit: a.rs'')" "\<not> is_write_title (lit ''Read: a.rs'')"
  by (simp_all add: is_write_title_def WRITE_TOOLS_def lit_def strip_pre_def starts_with_def eq_ignore_case_def
      ascii_lower_def is_ascii_upper_def)

theorem stale_scan_reaches_every_edit_witness:
  "map r_stale_since (events (scans (lit ''p'') 1 3 stale_sample)) = [Some [2], None, None]"
proof -
  have ev: "events stale_sample = [(sample_row 1 ''k'')\<lparr>r_kind := Knowledge, r_ts := [1], r_cites := Some [lit ''a.rs'']\<rparr>,
      (sample_row 2 ''x'')\<lparr>r_ts := [2], r_title := lit ''Read: a.rs''\<rparr>, (sample_row 3 ''e'')\<lparr>r_ts := [2]\<rparr>]"
    by (simp add: stale_sample_def)
  have pe: "project_events (lit ''p'') stale_sample = events stale_sample"
    unfolding ev project_events_def by (simp add: sel_def sample_row_def)
  have "rows_ok stale_sample" "\<forall>r\<in>set (events stale_sample). 0 < r_rowid r"
    by (simp_all add: rows_ok_def ev sample_row_def I64_MAX_def)
  moreover have "state_get (stale_key (lit ''p'')) stale_sample = None"
    by (simp add: state_get_def stale_sample_def empty_store_def)
  moreover have "length (project_events (lit ''p'') stale_sample) \<le> 3 * 1" unfolding pe by (simp add: ev)
  ultimately have main: "events (scans (lit ''p'') 1 3 stale_sample) =
      map (\<lambda>r. if cited_lesson (lit ''p'') r
             then case find (contradicts stale_sample r) (events stale_sample) of
                    None \<Rightarrow> r | Some e \<Rightarrow> r\<lparr>r_stale_since := Some (r_ts e)\<rparr>
             else r) (events stale_sample)"
    using stale_scan_reaches_every_edit [of stale_sample "lit ''p''" 3 1] unfolding pe by blast
  show ?thesis unfolding main unfolding ev
    by (simp add: cited_lesson_def contradicts_def is_edit_def sample_row_def sample_titles edit_files_def
        stale_sample_def sel_def)
qed

end
