(* ===== verification/Ids.thy ===== *)
theory Ids
  imports Store_Queue
begin

text \<open>
  Who a project is, in \<open>src/src/ids.rs\<close>, and where its memory lives, in \<open>src/src/config.rs\<close>: the
  slug and directory names, the resolution of a working directory to a scope (marker file, git root,
  worktrees, the identity cache), and the choice of the project's directory.

  A path is its list of components, the root \<open>/\<close> one of them; \<open>disk\<close> holds the regular files with
  their text and the directories. The record \<open>host\<close> is what the code asks of others: symbolic-link
  resolution, the TOML and JSON parsers, the \<open>git\<close> command's output when it succeeds, and the \<open>uuid\<close>
  crate (version-5 ids, their parser and their hyphenated form; an id is its 32 hex digits). Creating
  the cache file is taken to succeed when the data directory exists.
\<close>

section \<open>Names\<close>

fun slug_go :: "bool \<Rightarrow> rstr \<Rightarrow> rstr" where
  "slug_go last_dash [] = []"
| "slug_go last_dash (c # s) =
     (if is_ascii_alnum c then ascii_lower c # slug_go False s
      else if \<not> last_dash then 45 # slug_go True s
      else slug_go True s)"

definition slugify :: "rstr \<Rightarrow> rstr" where
  "slugify s = (let out = trim_end_by (\<lambda>c. c = 45) (slug_go True s)
                in if out = [] then lit ''unnamed'' else out)"

text \<open>\<open>rsplit_once("--")\<close>: the last place where two dashes stand.\<close>

fun rsplit_dashes :: "rstr \<Rightarrow> (rstr \<times> rstr) option" where
  "rsplit_dashes [] = None"
| "rsplit_dashes (c # s) =
     (case rsplit_dashes s of Some (a, b) \<Rightarrow> Some (c # a, b)
      | None \<Rightarrow> map_option (\<lambda>t. ([], t)) (strip_pre (c # s) (lit ''--'')))"

definition strip_dir_suffix :: "rstr \<Rightarrow> rstr" where
  "strip_dir_suffix name =
     (case rsplit_dashes name of
        Some (stem, tail) \<Rightarrow> if blen tail = 8 \<and> list_all is_ascii_hexdigit tail then stem else name
      | None \<Rightarrow> name)"

text \<open>The spellings of a remote: scheme, \<open>git@\<close> form, trailing slashes and \<open>.git\<close>.\<close>

fun strip_scheme :: "rstr list \<Rightarrow> rstr \<Rightarrow> rstr" where
  "strip_scheme [] s = s"
| "strip_scheme (p # ps) s = (case strip_pre s p of Some t \<Rightarrow> t | None \<Rightarrow> strip_scheme ps s)"

fun colon_to_slash :: "rstr \<Rightarrow> rstr" where
  "colon_to_slash [] = []"
| "colon_to_slash (c # s) = (if c = 58 then 47 # s else c # colon_to_slash s)"

function trim_dot_git :: "rstr \<Rightarrow> rstr" where
  "trim_dot_git s =
     (if lit ''.git'' = drop (length s - 4) s \<and> 4 \<le> length s then trim_dot_git (take (length s - 4) s) else s)"
  by auto
termination by (relation "measure length") auto

declare trim_dot_git.simps [simp del]

definition normalize_remote :: "rstr \<Rightarrow> rstr" where
  "normalize_remote url =
     (let rest = strip_scheme (map lit [''https://'', ''http://'', ''ssh://'', ''git://'']) (map ascii_lower (trim url));
          rest2 = (case strip_pre rest (lit ''git@'') of Some t \<Rightarrow> colon_to_slash t | None \<Rightarrow> rest)
      in trim_dot_git (trim_end_by (\<lambda>c. c = 47) rest2))"

datatype agent_kind = ClaudeCode | Codex | OtherAgent rstr

fun agent_as_str :: "agent_kind \<Rightarrow> rstr" where
  "agent_as_str ClaudeCode = lit ''claude-code''"
| "agent_as_str Codex = lit ''codex''"
| "agent_as_str (OtherAgent raw) = raw"

definition parse_agent :: "rstr \<Rightarrow> agent_kind" where
  "parse_agent raw =
     (if raw = lit ''claude-code'' \<or> raw = lit ''claude'' then ClaudeCode
      else if raw = lit ''codex'' then Codex else OtherAgent raw)"

section \<open>Paths and the disk\<close>

type_synonym path = "rstr list"

definition ROOT_DIR :: rstr where "ROOT_DIR = [47]"

definition is_rooted :: "path \<Rightarrow> bool" where
  "is_rooted p = (p \<noteq> [] \<and> hd p = ROOT_DIR)"

definition path_components :: "rstr \<Rightarrow> path" where
  "path_components s =
     (let parts = split_on (\<lambda>c. c = 47) s;
          keep = filter (\<lambda>w. w \<noteq> [] \<and> w \<noteq> lit ''.'')
      in if starts_with s [47] then ROOT_DIR # keep parts
         else if hd parts = lit ''.'' then lit ''.'' # keep (tl parts) else keep parts)"

definition parent :: "path \<Rightarrow> path option" where
  "parent p = (if p = [] \<or> p = [ROOT_DIR] then None else Some (butlast p))"

definition file_name :: "path \<Rightarrow> rstr option" where
  "file_name p = (if p = [] \<or> last p \<in> {ROOT_DIR, lit ''.'', lit ''..''} then None else Some (last p))"

text \<open>\<open>Path::ancestors\<close>: the path itself, then its parents up to the root.\<close>

definition ancestors :: "path \<Rightarrow> path list" where
  "ancestors p = map (\<lambda>n. take n p) (rev [(if is_rooted p then 1 else 0)..<Suc (length p)])"

fun join_path :: "path \<Rightarrow> rstr" where
  "join_path [] = []"
| "join_path [c] = c"
| "join_path (c # d # cs) = c @ [47] @ join_path (d # cs)"

definition path_text :: "path \<Rightarrow> rstr" where
  "path_text p = (if is_rooted p then ROOT_DIR @ join_path (tl p) else join_path p)"

record disk =
  d_files :: "(path \<times> rstr) list"
  d_dirs :: "path list"

definition read_file :: "disk \<Rightarrow> path \<Rightarrow> rstr option" where
  "read_file d p = map_of (d_files d) p"

definition is_file :: "disk \<Rightarrow> path \<Rightarrow> bool" where
  "is_file d p = (read_file d p \<noteq> None)"

definition is_dir :: "disk \<Rightarrow> path \<Rightarrow> bool" where
  "is_dir d p = (p \<in> set (d_dirs d))"

definition path_exists :: "disk \<Rightarrow> path \<Rightarrow> bool" where
  "path_exists d p = (is_file d p \<or> is_dir d p)"

definition write_file :: "path \<Rightarrow> rstr \<Rightarrow> disk \<Rightarrow> disk" where
  "write_file p text d = d\<lparr>d_files := (p, text) # d_files d\<rparr>"

definition create_dir_all :: "path \<Rightarrow> disk \<Rightarrow> disk" where
  "create_dir_all p d = d\<lparr>d_dirs := ancestors p @ d_dirs d\<rparr>"

record host =
  x_canonical :: "path \<Rightarrow> path"
  x_toml :: "rstr \<Rightarrow> (rstr option \<times> rstr option) option"
  x_parse_json :: "rstr \<Rightarrow> json option"
  x_git :: "path \<Rightarrow> rstr list \<Rightarrow> rstr option"
  x_uuid5 :: "rstr \<Rightarrow> rstr"
  x_parse_uuid :: "rstr \<Rightarrow> rstr option"
  x_show_uuid :: "rstr \<Rightarrow> rstr"
  x_data_dir :: "path option"

section \<open>Roots\<close>

definition MARKER_FILE :: rstr where "MARKER_FILE = lit ''.rolepod-brain.toml''"

fun find_marker_in :: "host \<Rightarrow> disk \<Rightarrow> path list \<Rightarrow> (path \<times> rstr option \<times> rstr option) option" where
  "find_marker_in h d [] = None"
| "find_marker_in h d (dir # dirs) =
     (case read_file d (dir @ [MARKER_FILE]) of
        Some text \<Rightarrow> Some (dir, case x_toml h text of Some m \<Rightarrow> m | None \<Rightarrow> (None, None))
      | None \<Rightarrow> find_marker_in h d dirs)"

definition find_marker :: "host \<Rightarrow> disk \<Rightarrow> path \<Rightarrow> (path \<times> rstr option \<times> rstr option) option" where
  "find_marker h d start = find_marker_in h d (ancestors start)"

definition worktree_main_root :: "rstr \<Rightarrow> path option" where
  "worktree_main_root text =
     (case strip_pre (trim text) (lit ''gitdir:'') of
        None \<Rightarrow> None
      | Some raw \<Rightarrow>
          (case ancestors (path_components (trim raw)) of
             _ # _ # dot_git # _ \<Rightarrow> if file_name dot_git = Some (lit ''.git'') then parent dot_git else None
           | _ \<Rightarrow> None))"

fun git_root_in :: "disk \<Rightarrow> path list \<Rightarrow> path option" where
  "git_root_in d [] = None"
| "git_root_in d (dir # dirs) =
     (let dot_git = dir @ [lit ''.git'']
      in if is_dir d dot_git then Some dir
         else case read_file d dot_git of
           Some text \<Rightarrow> (case worktree_main_root text of Some main \<Rightarrow> Some main | None \<Rightarrow> Some dir)
         | None \<Rightarrow> git_root_in d dirs)"

definition git_root :: "disk \<Rightarrow> path \<Rightarrow> path option" where
  "git_root d start = git_root_in d (ancestors start)"

definition git :: "host \<Rightarrow> path \<Rightarrow> rstr list \<Rightarrow> rstr option" where
  "git h root args =
     (case x_git h root args of None \<Rightarrow> None | Some out \<Rightarrow> let text = trim out in if text = [] then None else Some text)"

definition git_anchor :: "host \<Rightarrow> path \<Rightarrow> rstr option" where
  "git_anchor h root =
     (case git h root (map lit [''rev-parse'', ''--is-shallow-repository'']) of
        None \<Rightarrow> None
      | Some shallow \<Rightarrow>
          let first_root =
            (if shallow \<noteq> lit ''true''
             then case git h root (map lit [''rev-list'', ''--max-parents=0'', ''HEAD'']) of
                    None \<Rightarrow> None
                  | Some roots \<Rightarrow>
                      let ls = filter (\<lambda>l. l \<noteq> []) (map trim (text_lines roots))
                      in if ls = [] then None else Some (Min (set ls))
             else None)
          in case first_root of
               Some r \<Rightarrow> Some (lit ''git-root:'' @ r)
             | None \<Rightarrow> map_option (\<lambda>url. lit ''git-remote:'' @ normalize_remote url)
                 (git h root (map lit [''remote'', ''get-url'', ''origin''])))"

section \<open>Scopes\<close>

record scope =
  sc_workspace :: rstr
  sc_workspace_id :: rstr
  sc_project :: rstr
  sc_project_id :: rstr
  sc_root :: path

definition dir_name :: "scope \<Rightarrow> rstr" where
  "dir_name sc = slugify (sc_project sc) @ lit ''--'' @ take 8 (sc_project_id sc)"

definition machine_id :: "host \<Rightarrow> rstr" where
  "machine_id h = x_uuid5 h (lit ''machine'')"

definition wiki_dir :: "disk \<Rightarrow> path \<Rightarrow> path" where
  "wiki_dir d data =
     (let pretty = data @ [lit ''Rolepod Brain'']; legacy = data @ [lit ''wiki'']
      in if is_dir d pretty then pretty else if is_dir d legacy then legacy else pretty)"

text \<open>\<open>dir_belongs_to\<close>: the first line of the first log file that parses names the project.\<close>

definition events_files :: "disk \<Rightarrow> path \<Rightarrow> (path \<times> rstr) list" where
  "events_files d dir =
     sort_key fst (filter (\<lambda>(p, _). butlast p = dir @ [lit ''events''] \<and> p \<noteq> [] \<and> is_jsonl (last p)) (d_files d))"

definition read_line :: "rstr \<Rightarrow> rstr" where
  "read_line text = (let l = takeWhile (\<lambda>c. c \<noteq> 10) text in if length l < length text then l @ [10] else l)"

fun json_get :: "rstr \<Rightarrow> json \<Rightarrow> json option" where
  "json_get k (JObj fs) = map_of fs k"
| "json_get k _ = None"

fun first_log_project :: "host \<Rightarrow> (path \<times> rstr) list \<Rightarrow> json option" where
  "first_log_project h [] = None"
| "first_log_project h ((_, text) # files) =
     (case x_parse_json h (read_line text) of Some v \<Rightarrow> Some v | None \<Rightarrow> first_log_project h files)"

definition dir_belongs_to :: "host \<Rightarrow> disk \<Rightarrow> path \<Rightarrow> rstr \<Rightarrow> bool" where
  "dir_belongs_to h d dir project_id =
     (is_dir d (dir @ [lit ''events'']) \<and>
      (case first_log_project h (events_files d dir) of
         None \<Rightarrow> False
       | Some v \<Rightarrow> (case json_get (lit ''project'') v of None \<Rightarrow> None | Some p \<Rightarrow> as_str p) = Some (x_show_uuid h project_id)))"

definition project_dir :: "host \<Rightarrow> disk \<Rightarrow> path \<Rightarrow> scope \<Rightarrow> path" where
  "project_dir h d data sc =
     (if sc_project_id sc = machine_id h then data @ [lit ''machine'']
      else
        let wiki = wiki_dir d data;
            home = (if sc_workspace sc = lit ''default'' then wiki else wiki @ [slugify (sc_workspace sc)]);
            suffixed = home @ [dir_name sc];
            legacy = wiki @ [lit ''default'', dir_name sc];
            clean = home @ [slugify (sc_project sc)]
        in if is_dir d suffixed then suffixed
           else if sc_workspace sc = lit ''default'' \<and> is_dir d legacy then legacy
           else if \<not> path_exists d clean \<or> dir_belongs_to h d clean (sc_project_id sc) then clean
           else suffixed)"

definition identity_cache :: "path \<Rightarrow> rstr \<Rightarrow> path" where
  "identity_cache data path_id = data @ [lit ''identity'', path_id]"

definition cached_id :: "host \<Rightarrow> disk \<Rightarrow> path \<Rightarrow> rstr option" where
  "cached_id h d cache =
     (case read_file d cache of None \<Rightarrow> None | Some text \<Rightarrow> x_parse_uuid h (trim text))"

definition stable_project_id :: "host \<Rightarrow> path \<Rightarrow> rstr \<Rightarrow> rstr \<Rightarrow> disk \<Rightarrow> rstr \<times> disk" where
  "stable_project_id h root workspace project d =
     (let path_id = x_uuid5 h (path_text root)
      in if git_root d root = None then (path_id, d)
         else case x_data_dir h of
           None \<Rightarrow> (path_id, d)
         | Some data \<Rightarrow>
             (case cached_id h d (identity_cache data path_id) of
                Some cached \<Rightarrow> (cached, d)
              | None \<Rightarrow>
                  let candidate = \<lparr>sc_workspace = workspace, sc_workspace_id = x_uuid5 h workspace,
                        sc_project = project, sc_project_id = path_id, sc_root = root\<rparr>;
                      chosen = (if is_dir d (project_dir h d data candidate) then path_id
                                else case git_anchor h root of Some anchor \<Rightarrow> x_uuid5 h anchor | None \<Rightarrow> path_id)
                  in (chosen,
                      if is_dir d data
                      then write_file (identity_cache data path_id) (x_show_uuid h chosen)
                             (create_dir_all (data @ [lit ''identity'']) d)
                      else d)))"

definition named :: "rstr option \<Rightarrow> rstr option" where
  "named n = (case n of None \<Rightarrow> None | Some w \<Rightarrow> if trim w = [] then None else Some w)"

definition scope_root :: "host \<Rightarrow> disk \<Rightarrow> path \<Rightarrow> path \<times> rstr option \<times> rstr option" where
  "scope_root h d start =
     (case find_marker h d start of
        Some found \<Rightarrow> found
      | None \<Rightarrow> (case git_root d start of Some r \<Rightarrow> r | None \<Rightarrow> start, None, None))"

definition resolve_scope :: "host \<Rightarrow> path \<Rightarrow> disk \<Rightarrow> scope \<times> disk" where
  "resolve_scope h cwd d =
     (let (root, ws, name) = scope_root h d (x_canonical h cwd);
          workspace = (case named ws of Some w \<Rightarrow> w | None \<Rightarrow> lit ''default'');
          project = (case named name of Some n \<Rightarrow> n
                     | None \<Rightarrow> case file_name root of Some n \<Rightarrow> n | None \<Rightarrow> lit ''unnamed'');
          (project_id, d') = (if named name \<noteq> None then (x_uuid5 h (lit ''project:'' @ project), d)
                              else stable_project_id h root workspace project d)
      in (\<lparr>sc_workspace = workspace, sc_workspace_id = x_uuid5 h workspace, sc_project = project,
           sc_project_id = project_id, sc_root = root\<rparr>, d'))"

definition known_project_id :: "host \<Rightarrow> path \<Rightarrow> disk \<Rightarrow> rstr option" where
  "known_project_id h cwd d =
     (let (root, ws, name) = scope_root h d (x_canonical h cwd)
      in case named name of
           Some n \<Rightarrow> Some (x_uuid5 h (lit ''project:'' @ n))
         | None \<Rightarrow>
             let path_id = x_uuid5 h (path_text root)
             in if git_root d root = None then Some path_id
                else case x_data_dir h of None \<Rightarrow> None
                     | Some data \<Rightarrow> cached_id h d (identity_cache data path_id))"

definition named_by_dir :: "scope \<Rightarrow> path \<Rightarrow> scope" where
  "named_by_dir sc dir =
     (case file_name dir of Some name \<Rightarrow> sc\<lparr>sc_project := strip_dir_suffix name\<rparr> | None \<Rightarrow> sc)"

section \<open>Slugs\<close>

text \<open>A slug: lower-case letters, digits and single dashes. The flag says a dash may not come next.\<close>

fun slug_text :: "bool \<Rightarrow> rstr \<Rightarrow> bool" where
  "slug_text b [] = True"
| "slug_text b (c # s) = (if c = 45 then \<not> b \<and> slug_text True s else (is_ascii_lower c \<or> is_ascii_digit c) \<and> slug_text False s)"

lemma ascii_lower_alnum: "is_ascii_alnum c \<Longrightarrow> (is_ascii_lower (ascii_lower c) \<or> is_ascii_digit (ascii_lower c)) \<and> ascii_lower c \<noteq> 45"
  by (auto simp: ascii_class_defs ascii_lower_def)

lemma slug_go_text: "slug_text b (slug_go b s)"
  by (induction b s rule: slug_go.induct) (auto simp: ascii_lower_alnum)

lemma slug_go_fixed: "slug_text b s \<Longrightarrow> slug_go b s = s"
proof (induction b s rule: slug_go.induct)
  case (2 b c s)
  have "\<not> is_ascii_alnum 45" by (simp add: ascii_class_defs)
  moreover have "is_ascii_alnum c \<and> ascii_lower c = c" if "is_ascii_lower c \<or> is_ascii_digit c"
    using that by (auto simp: ascii_class_defs ascii_lower_def)
  ultimately show ?case using 2 by (auto split: if_splits)
qed simp

lemma slug_text_prefix: "slug_text b (s @ t) \<Longrightarrow> slug_text b s"
  by (induction b s rule: slug_text.induct) (auto split: if_splits)

lemma trim_end_prefix: "\<exists>t. s = trim_end_by p s @ t"
  by (metis trim_end_by_def rev_append rev_rev_ident takeWhile_dropWhile_id)

lemma trim_end_last: "trim_end_by p s \<noteq> [] \<Longrightarrow> \<not> p (last (trim_end_by p s))"
  by (simp add: trim_end_by_def last_rev hd_dropWhile)

lemma trim_end_fixed: "s \<noteq> [] \<Longrightarrow> \<not> p (last s) \<Longrightarrow> trim_end_by p s = s"
  by (cases s rule: rev_cases) (simp_all add: trim_end_by_def)

lemma slugify_slug: "slug_text True (slugify s)" "slugify s \<noteq> []" "last (slugify s) \<noteq> 45"
proof -
  let ?t = "trim_end_by (\<lambda>c. c = 45) (slug_go True s)"
  have "slug_text True ?t" by (metis slug_go_text slug_text_prefix trim_end_prefix)
  moreover have "slug_text True (lit ''unnamed'')" by (simp add: lit_def is_ascii_lower_def)
  ultimately show "slug_text True (slugify s)" by (simp add: slugify_def Let_def)
  show "slugify s \<noteq> []" by (simp add: slugify_def Let_def)
  show "last (slugify s) \<noteq> 45"
    using trim_end_last [of "\<lambda>c. c = 45" "slug_go True s"] by (auto simp: slugify_def Let_def lit_def)
qed

lemma slugify_idem: "slugify (slugify s) = slugify s"
  using slugify_slug [of s] by (simp add: slugify_def [of "slugify s"] slug_go_fixed trim_end_fixed Let_def)

lemma strip_dashes: "strip_pre (c # s) (lit ''--'') = (if c = 45 \<and> s \<noteq> [] \<and> hd s = 45 then Some (tl s) else None)"
  by (cases s) (auto simp: strip_pre_def starts_with_def lit_def)

lemma rsplit_slug: "slug_text b s \<Longrightarrow> rsplit_dashes s = None"
proof (induction s arbitrary: b)
  case (Cons c s)
  then have "rsplit_dashes s = None" by (auto split: if_splits)
  moreover have "\<not> (c = 45 \<and> s \<noteq> [] \<and> hd s = 45)" using Cons.prems by (cases s) auto
  ultimately show ?case by (simp add: strip_dashes)
qed simp

lemma rsplit_no_dash: "45 \<notin> set s \<Longrightarrow> rsplit_dashes s = None"
  by (induction s) (auto simp: strip_dashes)

lemma rsplit_suffix: "45 \<notin> set t \<Longrightarrow> rsplit_dashes (a @ 45 # 45 # t) = Some (a, t)"
proof (induction a)
  case Nil
  then show ?case by (cases t) (auto simp: strip_dashes rsplit_no_dash)
qed simp

definition hex_id :: "rstr \<Rightarrow> bool" where
  "hex_id i = (length i = 32 \<and> list_all is_ascii_hexdigit i)"

lemma hex_prefix: "hex_id i \<Longrightarrow> length (take 8 i) = 8 \<and> list_all is_ascii_hexdigit (take 8 i) \<and> 45 \<notin> set (take 8 i) \<and> blen (take 8 i) = 8"
proof -
  assume i: "hex_id i"
  then have h: "list_all is_ascii_hexdigit (take 8 i)" "length (take 8 i) = 8"
    by (auto simp: hex_id_def list_all_iff dest: in_set_takeD)
  then have "list_all (\<lambda>c. c < 128) (take 8 i)" by (auto simp: list_all_iff ascii_class_defs)
  then have "blen (take 8 i) = 8" using blen_ascii [of "take 8 i"] h(2) by (simp add: ascii_text_def)
  then show ?thesis using h by (auto simp: list_all_iff ascii_class_defs)
qed

lemma dir_name_split: "hex_id (sc_project_id sc) \<Longrightarrow> rsplit_dashes (dir_name sc) = Some (slugify (sc_project sc), take 8 (sc_project_id sc))"
  using rsplit_suffix [of "take 8 (sc_project_id sc)" "slugify (sc_project sc)"] hex_prefix [of "sc_project_id sc"]
  by (simp add: dir_name_def lit_def)

text \<open>
  the directory names of projects. Taking the disambiguation suffix off the suffixed name of any
  project gives back its slug, a bare slug is never mistaken for a suffixed name, and slugging a slug
  changes nothing: so a scope named after its folder (\<open>named_by_dir\<close>) has the same slug whichever of the two
  homes it lives in.
\<close>
theorem dir_name_roundtrip:
  assumes "hex_id (sc_project_id sc)"
  shows "strip_dir_suffix (dir_name sc) = slugify (sc_project sc)
    \<and> strip_dir_suffix (slugify name) = slugify name
    \<and> slugify (slugify name) = slugify name
    \<and> slugify (sc_project (named_by_dir sc (home @ [dir_name sc]))) = slugify (sc_project sc)"
proof (intro conjI)
  show strip: "strip_dir_suffix (dir_name sc) = slugify (sc_project sc)"
    using hex_prefix [OF assms] by (simp add: strip_dir_suffix_def dir_name_split [OF assms])
  show "strip_dir_suffix (slugify name) = slugify name"
    using rsplit_slug [OF slugify_slug(1)] by (simp add: strip_dir_suffix_def)
  show "slugify (slugify name) = slugify name" by (rule slugify_idem)
  have "45 \<in> set (dir_name sc)" "length (dir_name sc) > 2" using slugify_slug(2) [of "sc_project sc"]
    by (auto simp: dir_name_def lit_def)
  then have "file_name (home @ [dir_name sc]) = Some (dir_name sc)"
    by (auto simp: file_name_def ROOT_DIR_def lit_def)
  then show "slugify (sc_project (named_by_dir sc (home @ [dir_name sc]))) = slugify (sc_project sc)"
    by (simp add: named_by_dir_def strip slugify_idem)
qed

definition sample_scope :: scope where
  "sample_scope = \<lparr>sc_workspace = lit ''default'', sc_workspace_id = [], sc_project = lit ''My App!'',
     sc_project_id = replicate 32 97, sc_root = []\<rparr>"

theorem dir_name_roundtrip_witness:
  "strip_dir_suffix (dir_name sample_scope) = lit ''my-app''"
proof -
  have "hex_id (sc_project_id sample_scope)" by (simp add: hex_id_def sample_scope_def list_all_iff ascii_class_defs)
  then have "strip_dir_suffix (dir_name sample_scope) = slugify (sc_project sample_scope)" by (simp only: dir_name_roundtrip)
  also have "\<dots> = lit ''my-app''"
    by (simp add: sample_scope_def slugify_def lit_def trim_end_by_def ascii_class_defs ascii_lower_def Let_def)
  finally show ?thesis .
qed

section \<open>One directory, one project\<close>

lemma dir_name_not_slug: "hex_id (sc_project_id sc) \<Longrightarrow> dir_name sc \<noteq> slugify name"
  using dir_name_split rsplit_slug [OF slugify_slug(1), of name] by fastforce

lemma belongs_unique:
  "dir_belongs_to h d dir a \<Longrightarrow> dir_belongs_to h d dir b \<Longrightarrow> x_show_uuid h a = x_show_uuid h b"
  by (simp add: dir_belongs_to_def split: option.splits)

definition home_of :: "disk \<Rightarrow> path \<Rightarrow> scope \<Rightarrow> path" where
  "home_of d data sc =
     (if sc_workspace sc = lit ''default'' then wiki_dir d data else wiki_dir d data @ [slugify (sc_workspace sc)])"

lemma project_dir_cases:
  assumes "sc_project_id sc \<noteq> machine_id h"
  obtains (suffixed) home where "project_dir h d data sc = home @ [dir_name sc]"
  | (clean) "project_dir h d data sc = home_of d data sc @ [slugify (sc_project sc)]"
      "\<not> path_exists d (project_dir h d data sc) \<or> dir_belongs_to h d (project_dir h d data sc) (sc_project_id sc)"
proof -
  let ?home = "home_of d data sc"
  have "project_dir h d data sc = ?home @ [dir_name sc]
      \<or> project_dir h d data sc = (wiki_dir d data @ [lit ''default'']) @ [dir_name sc]
      \<or> project_dir h d data sc = ?home @ [slugify (sc_project sc)] \<and>
          (\<not> path_exists d (?home @ [slugify (sc_project sc)]) \<or> dir_belongs_to h d (?home @ [slugify (sc_project sc)]) (sc_project_id sc))"
    using assms by (simp add: project_dir_def home_of_def Let_def)
  then show ?thesis using that by metis
qed

text \<open>
  C18: two projects never share a directory that exists. If the directory chosen for one project is
  there, no other project (another id, and not the same slug with the same eight hex digits) is given
  it, whatever workspaces they are in: the bare slug goes to the project whose log it holds, and
  everyone else gets a suffixed name. Only a name nobody has created yet can be offered twice.
\<close>
theorem project_dirs_disjoint:
  assumes ids: "hex_id (sc_project_id a)" "hex_id (sc_project_id b)"
    "x_show_uuid h (sc_project_id a) \<noteq> x_show_uuid h (sc_project_id b)" "dir_name a \<noteq> dir_name b"
    and projects: "sc_project_id a \<noteq> machine_id h" "sc_project_id b \<noteq> machine_id h"
    and there: "path_exists d (project_dir h d data a)"
  shows "project_dir h d data a \<noteq> project_dir h d data b"
proof
  assume eq: "project_dir h d data a = project_dir h d data b"
  show False
  proof (cases rule: project_dir_cases [OF projects(1), of d data, case_names suffixed clean])
    case a: (suffixed home)
    show False
    proof (cases rule: project_dir_cases [OF projects(2), of d data, case_names suffixed clean])
      case (suffixed home')
      then show False using a eq ids(4) by simp
    next
      case clean
      then show False using a eq dir_name_not_slug [OF ids(1), of "sc_project b"] by simp
    qed
  next
    case a: clean
    show False
    proof (cases rule: project_dir_cases [OF projects(2), of d data, case_names suffixed clean])
      case (suffixed home')
      then show False using a(1) eq dir_name_not_slug [OF ids(2), of "sc_project a"] by simp
    next
      case clean
      then show False using a(2) there eq belongs_unique ids(3) by metis
    qed
  qed
qed

definition sample_host :: host where
  "sample_host = \<lparr>x_canonical = (\<lambda>p. p), x_toml = (\<lambda>_. None),
     x_parse_json = (\<lambda>l. Some (JObj [(lit ''project'', JStr (takeWhile (\<lambda>c. c \<noteq> 10) l))])),
     x_git = (\<lambda>_ _. None), x_uuid5 = (\<lambda>_. replicate 32 48), x_parse_uuid = (\<lambda>s. Some s), x_show_uuid = (\<lambda>u. u),
     x_data_dir = Some [lit ''data'']\<rparr>"

definition sample_disk :: disk where
  "sample_disk = \<lparr>d_files = [([lit ''data'', lit ''Rolepod Brain'', lit ''my-app'', lit ''events'', lit ''1.jsonl''], replicate 32 97)],
     d_dirs = [[lit ''data''], [lit ''data'', lit ''Rolepod Brain''], [lit ''data'', lit ''Rolepod Brain'', lit ''my-app''],
       [lit ''data'', lit ''Rolepod Brain'', lit ''my-app'', lit ''events'']]\<rparr>"

theorem project_dirs_disjoint_witness:
  "project_dir sample_host sample_disk [lit ''data''] sample_scope
     \<noteq> project_dir sample_host sample_disk [lit ''data''] (sample_scope\<lparr>sc_project_id := replicate 32 98\<rparr>)"
proof (rule project_dirs_disjoint)
  have slug: "slugify (lit ''My App!'') = lit ''my-app''"
    by (simp add: slugify_def lit_def trim_end_by_def ascii_class_defs ascii_lower_def Let_def)
  have home: "wiki_dir sample_disk [lit ''data''] = [lit ''data'', lit ''Rolepod Brain'']"
    by (simp add: wiki_dir_def is_dir_def sample_disk_def)
  show "hex_id (sc_project_id sample_scope)" "hex_id (sc_project_id (sample_scope\<lparr>sc_project_id := replicate 32 98\<rparr>))"
    by (simp_all add: hex_id_def sample_scope_def list_all_iff ascii_class_defs)
  show "x_show_uuid sample_host (sc_project_id sample_scope) \<noteq> x_show_uuid sample_host (sc_project_id (sample_scope\<lparr>sc_project_id := replicate 32 98\<rparr>))"
    "sc_project_id sample_scope \<noteq> machine_id sample_host"
    "sc_project_id (sample_scope\<lparr>sc_project_id := replicate 32 98\<rparr>) \<noteq> machine_id sample_host"
    by (simp_all add: sample_host_def sample_scope_def machine_id_def numeral_eq_Suc)
  show "dir_name sample_scope \<noteq> dir_name (sample_scope\<lparr>sc_project_id := replicate 32 98\<rparr>)"
    by (simp add: dir_name_def sample_scope_def numeral_eq_Suc)
  have files: "events_files sample_disk [lit ''data'', lit ''Rolepod Brain'', lit ''my-app''] = d_files sample_disk"
    by (simp add: events_files_def sample_disk_def is_jsonl_def lit_def Let_def)
  have "dir_belongs_to sample_host sample_disk [lit ''data'', lit ''Rolepod Brain'', lit ''my-app''] (replicate 32 97)"
    unfolding dir_belongs_to_def files
    by (simp add: sample_disk_def is_dir_def sample_host_def read_line_def takeWhile_replicate)
  then show "path_exists sample_disk (project_dir sample_host sample_disk [lit ''data''] sample_scope)"
    by (simp add: project_dir_def home sample_scope_def dir_name_def slug Let_def)
      (simp add: path_exists_def is_dir_def sample_disk_def lit_def sample_host_def machine_id_def)
qed

section \<open>A settled identity\<close>

definition uuids_ok :: "host \<Rightarrow> bool" where
  "uuids_ok h = (\<forall>s. hex_id (x_uuid5 h s) \<and> x_parse_uuid h (trim (x_show_uuid h (x_uuid5 h s))) = Some (x_uuid5 h s))"

definition dirs_closed :: "disk \<Rightarrow> bool" where
  "dirs_closed d = list_all (\<lambda>p. set (ancestors p) \<subseteq> set (d_dirs d)) (d_dirs d)"

text \<open>Two disks that answer the same to every question about markers and repositories.\<close>

definition same_roots :: "disk \<Rightarrow> disk \<Rightarrow> bool" where
  "same_roots d d' = (\<forall>p. last p \<in> {MARKER_FILE, lit ''.git''} \<and> p \<noteq> [] \<longrightarrow> read_file d' p = read_file d p \<and> is_dir d' p = is_dir d p)"

lemma find_marker_same: "same_roots d d' \<Longrightarrow> find_marker_in h d' dirs = find_marker_in h d dirs"
  by (induction dirs) (simp_all add: same_roots_def split: option.split)

lemma git_root_same: "same_roots d d' \<Longrightarrow> git_root_in d' dirs = git_root_in d dirs"
  by (induction dirs) (simp_all add: same_roots_def Let_def split: option.split)

lemma scope_root_same: "same_roots d d' \<Longrightarrow> scope_root h d' start = scope_root h d start"
  by (simp add: scope_root_def find_marker_def git_root_def find_marker_same git_root_same split: option.split)

lemma ancestors_snoc: "p \<noteq> [] \<or> c \<noteq> ROOT_DIR \<Longrightarrow> ancestors (p @ [c]) = (p @ [c]) # ancestors p"
proof -
  assume c: "p \<noteq> [] \<or> c \<noteq> ROOT_DIR"
  let ?k = "if is_rooted p then 1 else 0 :: nat"
  have "is_rooted (p @ [c]) = is_rooted p" using c by (cases p) (auto simp: is_rooted_def)
  moreover have "[?k..<Suc (length (p @ [c]))] = [?k..<Suc (length p)] @ [Suc (length p)]"
    by (simp add: upt_Suc_append)
  moreover have "map (\<lambda>n. take n (p @ [c])) (rev [?k..<Suc (length p)]) = map (\<lambda>n. take n p) (rev [?k..<Suc (length p)])"
    by (rule map_cong) auto
  ultimately show ?thesis unfolding ancestors_def by simp
qed

lemma write_identity_same:
  assumes "is_dir d data" "dirs_closed d" "hex_id path_id"
  shows "same_roots d (write_file (identity_cache data path_id) text (create_dir_all (data @ [lit ''identity'']) d))"
proof -
  have names: "path_id \<notin> {MARKER_FILE, lit ''.git''}" using assms(3)
    by (auto simp: hex_id_def MARKER_FILE_def lit_def)
  have anc: "set (ancestors (data @ [lit ''identity''])) \<subseteq> insert (data @ [lit ''identity'']) (set (d_dirs d))"
    using assms(1,2) ancestors_snoc [of data "lit ''identity''"]
    by (auto simp: dirs_closed_def is_dir_def list_all_iff ROOT_DIR_def lit_def)
  show ?thesis unfolding same_roots_def
  proof (intro allI impI conjI)
    fix p assume p: "last p \<in> {MARKER_FILE, lit ''.git''} \<and> p \<noteq> []"
    then have ne: "p \<noteq> identity_cache data path_id" "p \<noteq> data @ [lit ''identity'']"
      using names by (auto simp: identity_cache_def MARKER_FILE_def lit_def)
    then show "read_file (write_file (identity_cache data path_id) text (create_dir_all (data @ [lit ''identity'']) d)) p = read_file d p"
      by (auto simp: read_file_def write_file_def create_dir_all_def)
    show "is_dir (write_file (identity_cache data path_id) text (create_dir_all (data @ [lit ''identity'']) d)) p = is_dir d p"
      using ne(2) anc by (auto simp: is_dir_def write_file_def create_dir_all_def)
  qed
qed

lemma stable_settles:
  assumes "uuids_ok h" "x_data_dir h = Some data" "is_dir d data" "dirs_closed d" "git_root d root \<noteq> None"
    "stable_project_id h root workspace project d = (i, d')"
  shows "same_roots d d' \<and> cached_id h d' (identity_cache data (x_uuid5 h (path_text root))) = Some i"
proof -
  obtain r where r: "git_root d root = Some r" using assms(5) by blast
  let ?pid = "x_uuid5 h (path_text root)"
  show ?thesis
  proof (cases "cached_id h d (identity_cache data ?pid)")
    case (Some c)
    then show ?thesis using assms(2,6) r by (simp add: stable_project_id_def Let_def same_roots_def)
  next
    case None
    have "d' = write_file (identity_cache data ?pid) (x_show_uuid h i) (create_dir_all (data @ [lit ''identity'']) d)"
      and i: "\<exists>s. i = x_uuid5 h s"
      using assms(2,3,6) None r by (auto simp: stable_project_id_def Let_def split: option.splits if_splits)
    then show ?thesis using assms(1,3,4) write_identity_same [OF assms(3,4), of ?pid "x_show_uuid h i"]
      by (auto simp: uuids_ok_def cached_id_def read_file_def write_file_def)
  qed
qed

lemma resolve_parts:
  assumes "scope_root h d (x_canonical h cwd) = (root, ws, name)"
  defines "workspace \<equiv> (case named ws of Some w \<Rightarrow> w | None \<Rightarrow> lit ''default'')"
  defines "project \<equiv> (case named name of Some n \<Rightarrow> n | None \<Rightarrow> case file_name root of Some n \<Rightarrow> n | None \<Rightarrow> lit ''unnamed'')"
  shows "resolve_scope h cwd d =
    (let (i, d') = (if named name \<noteq> None then (x_uuid5 h (lit ''project:'' @ project), d)
                   else stable_project_id h root workspace project d)
     in (\<lparr>sc_workspace = workspace, sc_workspace_id = x_uuid5 h workspace, sc_project = project,
          sc_project_id = i, sc_root = root\<rparr>, d'))"
  using assms by (simp add: resolve_scope_def Let_def)

lemma known_agrees:
  assumes "known_project_id h cwd d = Some i"
  shows "sc_project_id (fst (resolve_scope h cwd d)) = i \<and> snd (resolve_scope h cwd d) = d"
proof -
  obtain root ws name where sr: "scope_root h d (x_canonical h cwd) = (root, ws, name)" by (cases "scope_root h d (x_canonical h cwd)")
  note parts = resolve_parts [OF sr]
  show ?thesis
  proof (cases "named name")
    case (Some n)
    then show ?thesis using assms sr by (simp add: parts known_project_id_def)
  next
    case None
    have "stable_project_id h root workspace project d = (i, d)" for workspace project
      using assms None sr by (auto simp: known_project_id_def stable_project_id_def Let_def split: if_splits option.splits)
    then show ?thesis using None by (simp add: parts)
  qed
qed

lemma other_git_cache: "cached_id (h\<lparr>x_git := g\<rparr>) = cached_id h"
  by (simp add: cached_id_def fun_eq_iff split: option.split)

lemma other_git_root: "scope_root (h\<lparr>x_git := g\<rparr>) d start = scope_root h d start"
proof -
  have "find_marker_in (h\<lparr>x_git := g\<rparr>) d dirs = find_marker_in h d dirs" for dirs
    by (induction dirs) (simp_all split: option.split)
  then show ?thesis by (simp add: scope_root_def find_marker_def)
qed

text \<open>
  C19: an identity once settled is settled. When a data directory exists, the project that the first
  hook resolves for a directory is the project every later hook resolves for it, whatever \<open>git\<close>
  answers by then (a new root commit, another remote, no \<open>git\<close> at all), and without another write;
  and the read-only lookup then gives the same id.
\<close>
theorem identity_settles:
  assumes "uuids_ok h" "x_data_dir h = Some data" "is_dir d data" "dirs_closed d"
    "resolve_scope h cwd d = (sc, d')"
  shows "resolve_scope (h\<lparr>x_git := g\<rparr>) cwd d' = (sc, d') \<and> known_project_id (h\<lparr>x_git := g\<rparr>) cwd d' = Some (sc_project_id sc)"
proof -
  let ?h = "h\<lparr>x_git := g\<rparr>"
  obtain root ws name where sr: "scope_root h d (x_canonical h cwd) = (root, ws, name)" by (cases "scope_root h d (x_canonical h cwd)")
  note parts = resolve_parts [OF sr]
  have known: "same_roots d d' \<and> known_project_id ?h cwd d' = Some (sc_project_id sc)"
  proof (cases "named name")
    case (Some n)
    then have "d' = d" "sc_project_id sc = x_uuid5 h (lit ''project:'' @ n)" using assms(5) parts by auto
    then show ?thesis using Some sr by (simp add: known_project_id_def other_git_root same_roots_def)
  next
    case None
    then obtain workspace project where st: "stable_project_id h root workspace project d = (sc_project_id sc, d')"
      using assms(5) parts by (auto split: prod.splits)
    show ?thesis
    proof (cases "git_root d root")
      case no_git: None
      then have "d' = d" "sc_project_id sc = x_uuid5 h (path_text root)" using st by (auto simp: stable_project_id_def Let_def)
      then show ?thesis using None sr no_git by (simp add: known_project_id_def other_git_root same_roots_def Let_def)
    next
      case (Some r)
      have s: "same_roots d d'" "cached_id h d' (identity_cache data (x_uuid5 h (path_text root))) = Some (sc_project_id sc)"
        using stable_settles [OF assms(1-4) _ st] Some by auto
      then have "scope_root ?h d' (x_canonical h cwd) = (root, ws, name)" "git_root d' root = Some r"
        using scope_root_same [of d d' h] sr Some by (simp_all add: other_git_root git_root_def git_root_same)
      then show ?thesis using s None assms(2) by (simp add: known_project_id_def other_git_cache Let_def)
    qed
  qed
  have "scope_root ?h d' (x_canonical ?h cwd) = (root, ws, name)"
    using known scope_root_same [of d d' h] sr by (simp add: other_git_root)
  note parts' = resolve_parts [OF this]
  have "fst (resolve_scope ?h cwd d') = sc\<lparr>sc_project_id := sc_project_id (fst (resolve_scope ?h cwd d'))\<rparr>"
    using assms(5) unfolding parts parts' by (auto split: prod.splits)
  then show ?thesis using known known_agrees [of ?h cwd d' "sc_project_id sc"] by (auto simp: prod_eq_iff)
qed

lemma trim_plain: "list_all (\<lambda>c. \<not> is_ws c) s \<Longrightarrow> trim s = s"
proof -
  assume "list_all (\<lambda>c. \<not> is_ws c) s"
  then have "dropWhile is_ws t = t" if "set t = set s" for t
    using that by (cases t) (auto simp: list_all_iff)
  then show ?thesis by (simp add: trim_defs)
qed

definition git_disk :: disk where
  "git_disk = \<lparr>d_files = [], d_dirs = [[], [lit ''data''], [lit ''repo''], [lit ''repo'', lit ''.git'']]\<rparr>"

theorem identity_settles_witness:
  "resolve_scope (sample_host\<lparr>x_git := \<lambda>_ _. Some (lit ''other'')\<rparr>) [lit ''repo''] (snd (resolve_scope sample_host [lit ''repo''] git_disk))
     = resolve_scope sample_host [lit ''repo''] git_disk"
proof -
  have trim: "trim (replicate 32 48) = replicate 32 48" by (rule trim_plain) (simp add: list_all_iff is_ws_def)
  have "uuids_ok sample_host" by (simp add: uuids_ok_def sample_host_def hex_id_def list_all_iff ascii_class_defs trim)
  moreover have "dirs_closed git_disk"
    by (auto simp: dirs_closed_def git_disk_def ancestors_def is_rooted_def ROOT_DIR_def lit_def take_Cons')
  moreover have "x_data_dir sample_host = Some [lit ''data'']" "is_dir git_disk [lit ''data'']"
    by (simp_all add: sample_host_def is_dir_def git_disk_def)
  ultimately show ?thesis
    using identity_settles [of sample_host "[lit ''data'']" git_disk "[lit ''repo'']" "fst (resolve_scope sample_host [lit ''repo''] git_disk)"
        "snd (resolve_scope sample_host [lit ''repo''] git_disk)"] by simp
qed

end
