(* ===== verification/Update.thy ===== *)
theory Update
  imports Ids Store_Retention
begin

text \<open>
  The self-updater, \<open>src/src/update.rs\<close>: versions and the decision to install, the signed comment,
  one run (\<open>attempt\<close>) as a sequence of steps any of which may stop it, the placement of the new
  binary, the list of versions that failed here, and the watch over a fresh install that rolls it
  back after repeated failures.

  What the run learns from outside is the record \<open>world\<close>: file metadata, what \<open>curl\<close> delivered for a
  URL, the JSON parser, the signature library, \<open>codesign\<close>, the output of the new binary, and which
  file operations succeed. A debug build's overrides are not modelled: \<open>source\<close> is the release one.
  One run reads the clock once.
\<close>

section \<open>Versions\<close>

datatype ver = Ver (ver_nums: "nat \<times> nat \<times> nat") (ver_pre: "rstr option")

instantiation ver :: linorder
begin

definition less_eq_ver :: "ver \<Rightarrow> ver \<Rightarrow> bool" where
  "less_eq_ver a b = (ver_nums a < ver_nums b \<or> ver_nums a = ver_nums b \<and>
     (case (ver_pre a, ver_pre b) of (None, None) \<Rightarrow> True | (None, Some _) \<Rightarrow> False
      | (Some _, None) \<Rightarrow> True | (Some x, Some y) \<Rightarrow> x \<le> y))"

definition less_ver :: "ver \<Rightarrow> ver \<Rightarrow> bool" where
  "less_ver a b = (a \<le> b \<and> a \<noteq> b)"

instance
proof
  fix a b c :: ver
  show "(a < b) = (a \<le> b \<and> \<not> b \<le> a)"
    by (cases a; cases b) (auto simp: less_ver_def less_eq_ver_def split: option.splits)
  show "a \<le> a" by (cases a) (auto simp: less_eq_ver_def split: option.splits)
  show "a \<le> b \<Longrightarrow> b \<le> a \<Longrightarrow> a = b"
    by (cases a; cases b) (auto simp: less_eq_ver_def split: option.splits)
  show "a \<le> b \<or> b \<le> a"
    by (cases a; cases b) (auto simp: less_eq_ver_def split: option.splits)
  show "a \<le> b \<Longrightarrow> b \<le> c \<Longrightarrow> a \<le> c"
    by (cases a; cases b; cases c) (auto simp: less_eq_ver_def split: option.splits)
qed

end

definition strip_v :: "rstr \<Rightarrow> rstr" where
  "strip_v t = (case strip_pre t (lit ''v'') of Some u \<Rightarrow> u | None \<Rightarrow> t)"

definition ver_part :: "rstr \<Rightarrow> nat option" where
  "ver_part p = (if p = [] \<or> 9 < blen p \<or> \<not> list_all is_ascii_digit p then None else parse_u64 p)"

definition parse_ver :: "rstr \<Rightarrow> ver option" where
  "parse_ver text =
     (let t = strip_v text;
          (core, pre) = (case split_once (lit ''-'') t of Some (a, b) \<Rightarrow> (a, Some b) | None \<Rightarrow> (t, None))
      in case map ver_part (split_on (\<lambda>c. c = 46) core) of
           [Some a, Some b, Some c] \<Rightarrow>
             (if (case pre of None \<Rightarrow> True | Some p \<Rightarrow> p \<noteq> [] \<and> list_all (\<lambda>b. is_ascii_alnum b \<or> b = 46 \<or> b = 45) p)
              then Some (Ver (a, b, c) pre) else None)
         | _ \<Rightarrow> None)"

section \<open>The decision\<close>

definition MIN_AGE_SECS :: int where "MIN_AGE_SECS = 24 * 3600"

definition sat_sub :: "int \<Rightarrow> int \<Rightarrow> int" where
  "sat_sub a b = max I64_MIN (min I64_MAX (a - b))"

datatype update_verdict = Install | Skip rstr

definition age_of :: "clock \<Rightarrow> rstr option \<Rightarrow> int \<Rightarrow> int option" where
  "age_of c published now =
     (case published of None \<Rightarrow> None | Some p \<Rightarrow>
        (case parse_ts c p of None \<Rightarrow> None | Some at \<Rightarrow> Some (sat_sub now (as_second at))))"

text \<open>Only a strictly newer release, not on the bad list, whose publication is known to be a day old.\<close>

definition decide :: "clock \<Rightarrow> rstr \<Rightarrow> rstr \<Rightarrow> rstr option \<Rightarrow> rstr list \<Rightarrow> int \<Rightarrow> update_verdict" where
  "decide c running candidate published bad now =
     (case parse_ver candidate of None \<Rightarrow> Skip (lit ''bad-tag'')
      | Some cand \<Rightarrow>
          if ver_pre cand \<noteq> None then Skip (lit ''prerelease'')
          else case parse_ver running of None \<Rightarrow> Skip (lit ''running-unparsable'')
          | Some own \<Rightarrow>
              if cand \<le> own then Skip (lit ''not-newer'')
              else if list_ex (\<lambda>b. strip_v b = strip_v candidate) bad then Skip (lit ''marked-bad'')
              else case age_of c published now of None \<Rightarrow> Skip (lit ''published-unknown'')
              | Some age \<Rightarrow> if age < MIN_AGE_SECS then Skip (lit ''too-young'') else Install)"

definition version_output_matches :: "rstr \<Rightarrow> rstr \<Rightarrow> bool" where
  "version_output_matches output version = (trim output = lit ''brain '' @ version)"

definition platform_target :: "rstr \<Rightarrow> rstr \<Rightarrow> rstr option" where
  "platform_target os arch =
     (if os = lit ''macos'' \<and> arch = lit ''aarch64'' then Some (lit ''aarch64-apple-darwin'')
      else if os = lit ''macos'' \<and> arch = lit ''x86_64'' then Some (lit ''x86_64-apple-darwin'')
      else if os = lit ''linux'' \<and> arch = lit ''x86_64'' then Some (lit ''x86_64-unknown-linux-gnu'')
      else if os = lit ''linux'' \<and> arch = lit ''aarch64'' then Some (lit ''aarch64-unknown-linux-gnu'')
      else None)"

section \<open>The world of a run\<close>

type_synonym bytes = "nat list"

datatype file_kind = Plain_file | Directory | Symlink

record file_meta =
  m_kind :: file_kind
  m_uid :: nat
  m_mode :: nat

record world =
  w_running :: rstr
  w_now :: int
  w_clock :: clock
  w_pid :: nat
  w_triple :: rstr
  w_exe :: "path option"
  w_bin_dir :: "path option"
  w_canon :: "path \<Rightarrow> path option"
  w_meta :: "path \<Rightarrow> file_meta option"
  w_euid :: "nat option"
  w_stale :: "rstr \<Rightarrow> nat \<Rightarrow> bool"
  w_key :: "rstr option"
  w_curl :: "rstr \<Rightarrow> bytes option"
  w_json :: "bytes \<Rightarrow> json option"
  w_utf8 :: "bytes \<Rightarrow> rstr option"
  w_key_ok :: "rstr \<Rightarrow> bool"
  w_sig_comment :: "rstr \<Rightarrow> rstr option"
  w_verify :: "rstr \<Rightarrow> bytes \<Rightarrow> rstr \<Rightarrow> bool"
  w_staging_ok :: bool
  w_chmod_ok :: bool
  w_macos :: bool
  w_codesign :: "bytes \<Rightarrow> bytes option"
  w_snap_before :: "int list option"
  w_snap_after :: "int list option"
  w_late :: "bytes \<Rightarrow> bytes"
  w_output :: "bytes \<Rightarrow> rstr \<Rightarrow> rstr option"
  w_link_ok :: bool
  w_copy_ok :: bool
  w_rename_prev_ok :: bool
  w_rename_ok :: bool

text \<open>What a run changes: the store when it opened, the text files of the data directory, the install
  directory by file name; \<open>u_ran\<close> records every file content that was executed and \<open>u_dirs\<close> every state
  of the install directory a placement went through.\<close>

record upd =
  u_store :: "store option"
  u_data :: "(rstr \<times> rstr) list"
  u_bin :: "(rstr \<times> bytes) list"
  u_ran :: "bytes list"
  u_dirs :: "(rstr \<times> bytes) list list"

datatype stop = Stop_skip rstr | Stop_young int | Stop_bad rstr rstr

type_synonym 'a run_step = "upd \<Rightarrow> (stop + 'a) \<times> upd"

definition bind :: "'a run_step \<Rightarrow> ('a \<Rightarrow> 'b run_step) \<Rightarrow> 'b run_step" where
  "bind m f = (\<lambda>s. case m s of (Inl e, s') \<Rightarrow> (Inl e, s') | (Inr a, s') \<Rightarrow> f a s')"

definition ok :: "'a \<Rightarrow> 'a run_step" where "ok a = (\<lambda>s. (Inr a, s))"
definition stop_with :: "stop \<Rightarrow> 'a run_step" where "stop_with e = (\<lambda>s. (Inl e, s))"
definition guard :: "bool \<Rightarrow> stop \<Rightarrow> unit run_step" where "guard b e = (if b then ok () else stop_with e)"
definition get_or :: "'a option \<Rightarrow> stop \<Rightarrow> 'a run_step" where
  "get_or x e = (case x of Some a \<Rightarrow> ok a | None \<Rightarrow> stop_with e)"
definition lift_stop :: "rstr + 'a \<Rightarrow> 'a run_step" where
  "lift_stop r = (case r of Inr a \<Rightarrow> ok a | Inl e \<Rightarrow> stop_with (Stop_skip e))"
definition effect :: "(upd \<Rightarrow> upd) \<Rightarrow> unit run_step" where "effect g = (\<lambda>s. (Inr (), g s))"
definition ask :: "(upd \<Rightarrow> 'a) \<Rightarrow> 'a run_step" where "ask g = (\<lambda>s. (Inr (g s), s))"

abbreviation skip_as :: "string \<Rightarrow> stop" where "skip_as r \<equiv> Stop_skip (lit r)"

lemma bind_simps [simp]:
  "bind (ok a) f1 s = f1 a s" "bind (stop_with e) f2 s = (Inl e, s)" "bind (effect g) f3 s = f3 () (g s)"
  "bind (ask h) f4 s = f4 (h s) s"
  by (simp_all add: bind_def ok_def stop_with_def effect_def ask_def)

lemma bind_cases [simp]:
  "bind (guard b e) f1 s = (if b then f1 () s else (Inl e, s))"
  "bind (get_or x e) f2 s = (case x of Some a \<Rightarrow> f2 a s | None \<Rightarrow> (Inl e, s))"
  "bind (lift_stop r) f3 s = (case r of Inr a \<Rightarrow> f3 a s | Inl e' \<Rightarrow> (Inl (Stop_skip e'), s))"
  by (simp_all add: guard_def get_or_def lift_stop_def split: option.split sum.split)

definition dir_put :: "rstr \<Rightarrow> bytes \<Rightarrow> (rstr \<times> bytes) list \<Rightarrow> (rstr \<times> bytes) list" where
  "dir_put n b d = (n, b) # filter (\<lambda>f. fst f \<noteq> n) d"
definition dir_del :: "rstr \<Rightarrow> (rstr \<times> bytes) list \<Rightarrow> (rstr \<times> bytes) list" where
  "dir_del n d = filter (\<lambda>f. fst f \<noteq> n) d"

lemma map_of_filter_ne: "map_of (filter (\<lambda>f. fst f \<noteq> n) d) m = (if m = n then None else map_of d m)"
  by (induction d) auto

lemma dir_get [simp]:
  "map_of (dir_put n b d) m = (if m = n then Some b else map_of d m)"
  "map_of (dir_del n d) m = (if m = n then None else map_of d m)"
  by (simp_all add: dir_put_def dir_del_def map_of_filter_ne)

definition BRAIN :: rstr where "BRAIN = lit ''brain''"
definition BRAIN_PREV :: rstr where "BRAIN_PREV = lit ''brain.prev''"
definition staging_name :: "nat \<Rightarrow> rstr" where "staging_name pid = lit ''.brain.new-'' @ dec pid"
definition prev_tmp :: "nat \<Rightarrow> rstr" where "prev_tmp pid = lit ''.brain.prev-'' @ dec pid"
definition rollback_tmp :: "nat \<Rightarrow> rstr" where "rollback_tmp pid = lit ''.brain.rollback-'' @ dec pid"

definition set_bin :: "(rstr \<times> bytes) list \<Rightarrow> upd \<Rightarrow> upd" where
  "set_bin d s = s\<lparr>u_bin := d, u_dirs := u_dirs s @ [d]\<rparr>"

section \<open>What the updater writes down\<close>

definition BAD_CAP :: nat where "BAD_CAP = 20"

definition rec_set :: "string \<Rightarrow> rstr \<Rightarrow> upd \<Rightarrow> upd" where
  "rec_set key value s = s\<lparr>u_store := map_option (set_state (lit key) value) (u_store s)\<rparr>"

definition write_data :: "string \<Rightarrow> rstr \<Rightarrow> upd \<Rightarrow> upd" where
  "write_data name text s = s\<lparr>u_data := (lit name, text) # filter (\<lambda>f. fst f \<noteq> lit name) (u_data s)\<rparr>"

definition data_text :: "string \<Rightarrow> upd \<Rightarrow> rstr" where
  "data_text name s = (case map_of (u_data s) (lit name) of Some t \<Rightarrow> t | None \<Rightarrow> [])"

definition rec_skip :: "int \<Rightarrow> rstr \<Rightarrow> upd \<Rightarrow> upd" where
  "rec_skip now reason = rec_set ''update_skip'' (reason @ lit ''@'' @ dec_int now)"

definition add_new :: "rstr \<Rightarrow> rstr list \<Rightarrow> rstr list" where
  "add_new v xs = (if v \<in> set xs then xs else xs @ [v])"

definition bad_versions :: "rstr \<Rightarrow> rstr \<Rightarrow> rstr list" where
  "bad_versions stored filed = fold add_new (split_whitespace stored @ split_whitespace filed) []"

definition bad_list :: "upd \<Rightarrow> rstr list" where
  "bad_list s =
     (let stored = (case u_store s of None \<Rightarrow> [] | Some db \<Rightarrow>
                      (case state_get (lit ''update_bad'') db of None \<Rightarrow> [] | Some v \<Rightarrow> v))
      in bad_versions stored (data_text ''update.bad'' s))"

definition mark_bad :: "rstr \<Rightarrow> upd \<Rightarrow> upd" where
  "mark_bad version s =
     (let all = add_new version (bad_list s);
          kept = drop (length all - BAD_CAP) all;
          joined = join_spaces kept
      in write_data ''update.bad'' joined (rec_set ''update_bad'' joined s))"

definition installing :: "world \<Rightarrow> rstr \<Rightarrow> upd \<Rightarrow> upd" where
  "installing w version s =
     (let installed = version @ [32] @ dec_int (w_now w * 1000);
          s1 = write_data ''update.installed'' installed (rec_set ''update_installed'' installed s)
      in write_data ''update.prev'' (w_running w) (rec_set ''update_prev'' (w_running w) s1))"

section \<open>The signature and the addresses\<close>

definition accept :: "world \<Rightarrow> bytes \<Rightarrow> rstr \<Rightarrow> rstr \<Rightarrow> rstr \<Rightarrow> rstr + rstr" where
  "accept w bytes sig key tag =
     (if trim sig = [] then Inl (lit ''unsigned'')
      else if \<not> w_key_ok w key then Inl (lit ''bad-key'')
      else case w_sig_comment w sig of None \<Rightarrow> Inl (lit ''bad-signature'')
      | Some comment \<Rightarrow>
          if \<not> w_verify w key bytes sig then Inl (lit ''bad-signature'')
          else case strip_pre comment (lit ''brain-'') of None \<Rightarrow> Inl (lit ''signed-target-mismatch'')
          | Some rest \<Rightarrow>
              case split_once (lit '' '') rest of None \<Rightarrow> Inl (lit ''signed-target-mismatch'')
              | Some (comment_target, version) \<Rightarrow>
                  if comment_target \<noteq> w_triple w then Inl (lit ''signed-target-mismatch'')
                  else case parse_ver version of None \<Rightarrow> Inl (lit ''signed-version-mismatch'')
                  | Some v \<Rightarrow>
                      if ver_pre v \<noteq> None \<or> starts_with version (lit ''v'') then Inl (lit ''signed-version-mismatch'')
                      else case parse_ver tag of None \<Rightarrow> Inl (lit ''bad-tag'')
                      | Some tv \<Rightarrow> if v \<noteq> tv then Inl (lit ''signed-version-mismatch'') else Inr version)"

definition RELEASES_API :: rstr where
  "RELEASES_API = lit ''https://api.github.com/repos/nuttaruj/rolepod-brain/releases/latest''"
definition DOWNLOAD_PREFIX :: rstr where
  "DOWNLOAD_PREFIX = lit ''https://github.com/nuttaruj/rolepod-brain/releases/download/''"
definition MAX_JSON :: nat where "MAX_JSON = 2 ^ 20"
definition MAX_SIG :: nat where "MAX_SIG = 64 * 2 ^ 10"
definition MAX_BIN :: nat where "MAX_BIN = 200 * 2 ^ 20"

definition url_allowed :: "rstr \<Rightarrow> bool" where
  "url_allowed url =
     (url = RELEASES_API \<or>
      (case strip_pre url DOWNLOAD_PREFIX of None \<Rightarrow> False
       | Some rest \<Rightarrow> rest \<noteq> [] \<and> \<not> starts_with rest (lit ''/'') \<and> \<not> contains rest (lit ''..'')
           \<and> list_all (\<lambda>c. is_ascii_alnum c \<or> c \<in> {46, 45, 95, 47}) rest))"

definition asset_url :: "rstr \<Rightarrow> rstr \<Rightarrow> rstr option" where
  "asset_url tag name = (let url = DOWNLOAD_PREFIX @ tag @ lit ''/'' @ name in if url_allowed url then Some url else None)"

definition fetch :: "world \<Rightarrow> rstr \<Rightarrow> nat \<Rightarrow> bytes option" where
  "fetch w url limit =
     (if \<not> url_allowed url then None
      else case w_curl w url of None \<Rightarrow> None | Some b \<Rightarrow> if limit < length b then None else Some b)"

section \<open>Where the binary lives\<close>

definition install_dir :: "world \<Rightarrow> path \<Rightarrow> path \<Rightarrow> rstr + path" where
  "install_dir w exe bin_dir =
     (case w_canon w bin_dir of None \<Rightarrow> Inl (lit ''not-bootstrap-install'')
      | Some dir \<Rightarrow>
          case w_canon w exe of None \<Rightarrow> Inl (lit ''not-bootstrap-install'')
          | Some e \<Rightarrow> if parent e \<noteq> Some dir \<or> file_name e \<noteq> Some BRAIN then Inl (lit ''not-bootstrap-install'') else Inr dir)"

definition others_write :: "file_meta \<Rightarrow> bool" where
  "others_write m = odd (m_mode m div 2)"

definition bin_safety :: "world \<Rightarrow> path \<Rightarrow> nat \<Rightarrow> bool" where
  "bin_safety w dir euid =
     (case (w_meta w dir, w_meta w (dir @ [BRAIN])) of
        (Some d, Some b) \<Rightarrow> m_kind d = Directory \<and> m_uid d = euid \<and> \<not> others_write d
                          \<and> m_kind b = Plain_file \<and> m_uid b = euid \<and> \<not> others_write b
      | _ \<Rightarrow> False)"

definition sweep_pid :: "rstr \<Rightarrow> nat option" where
  "sweep_pid name =
     (let pids = List.map_filter (\<lambda>p. case strip_pre name (lit p) of None \<Rightarrow> None | Some t \<Rightarrow> parse_u32 t)
                   [''.brain.new-'', ''.brain.prev-'', ''.brain.rollback-'']
      in if pids = [] then None else Some (hd pids))"

definition sweep_stale :: "world \<Rightarrow> upd \<Rightarrow> upd" where
  "sweep_stale w s = s\<lparr>u_bin := filter (\<lambda>(name, _).
     (case sweep_pid name of None \<Rightarrow> True | Some pid \<Rightarrow> \<not> (w_stale w name pid \<and> pid \<noteq> w_pid w))) (u_bin s)\<rparr>"

section \<open>Self-test and placement\<close>

definition execute :: "world \<Rightarrow> bytes \<Rightarrow> string \<Rightarrow> rstr option run_step" where
  "execute w file arg = bind (effect (\<lambda>s. s\<lparr>u_ran := u_ran s @ [file]\<rparr>)) (\<lambda>_. ok (w_output w file (lit arg)))"

definition self_test_file :: "world \<Rightarrow> bytes \<Rightarrow> rstr \<Rightarrow> unit run_step" where
  "self_test_file w file version =
     bind (execute w file ''--version'') (\<lambda>out.
       case out of None \<Rightarrow> stop_with (Stop_bad (lit ''selftest-failed'') version)
       | Some o1 \<Rightarrow>
           bind (guard (version_output_matches o1 version) (Stop_bad (lit ''selftest-version'') version)) (\<lambda>_.
           bind (execute w file ''self-test'') (\<lambda>out2.
             guard (out2 \<noteq> None) (Stop_bad (lit ''selftest-failed'') version))))"

definition sign_step :: "world \<Rightarrow> bytes \<Rightarrow> bytes run_step" where
  "sign_step w file = (if w_macos w then get_or (w_codesign w file) (skip_as ''codesign-failed'') else ok file)"

text \<open>\<open>place\<close>: the old binary is linked (or copied) to a temporary name and renamed to \<open>brain.prev\<close>, then
  one rename puts the staged file over \<open>brain\<close>.\<close>

definition place :: "world \<Rightarrow> bytes \<Rightarrow> unit run_step" where
  "place w staged =
     bind (effect (\<lambda>s. set_bin (dir_del (prev_tmp (w_pid w)) (u_bin s)) s)) (\<lambda>_.
     bind (ask (\<lambda>s. map_of (u_bin s) BRAIN)) (\<lambda>bin.
     bind (get_or bin (skip_as ''place-failed'')) (\<lambda>current.
     bind (guard (w_link_ok w \<or> w_copy_ok w) (skip_as ''place-failed'')) (\<lambda>_.
     bind (effect (\<lambda>s. set_bin (dir_put (prev_tmp (w_pid w)) current (u_bin s)) s)) (\<lambda>_.
     bind (guard (w_rename_prev_ok w) (skip_as ''place-failed'')) (\<lambda>_.
     bind (effect (\<lambda>s. set_bin (dir_put BRAIN_PREV current (dir_del (prev_tmp (w_pid w)) (u_bin s))) s)) (\<lambda>_.
     bind (guard (w_rename_ok w) (skip_as ''place-failed'')) (\<lambda>_.
       effect (\<lambda>s. set_bin (dir_put BRAIN staged (dir_del (staging_name (w_pid w)) (u_bin s))) s)))))))))"

section \<open>One run\<close>

definition str_field :: "string \<Rightarrow> json \<Rightarrow> rstr option" where
  "str_field k j = (case json_get (lit k) j of None \<Rightarrow> None | Some v \<Rightarrow> as_str v)"

definition stop_for :: "world \<Rightarrow> rstr \<Rightarrow> rstr option \<Rightarrow> stop" where
  "stop_for w reason published =
     (case age_of (w_clock w) published (w_now w) of
        Some age \<Rightarrow> if reason = lit ''too-young'' then Stop_young (max age 0) else Stop_skip reason
      | None \<Rightarrow> Stop_skip reason)"

definition decided :: "world \<Rightarrow> rstr \<Rightarrow> rstr option \<Rightarrow> rstr list \<Rightarrow> unit run_step" where
  "decided w candidate published bad =
     (case decide (w_clock w) (w_running w) candidate published bad (w_now w) of
        Install \<Rightarrow> ok () | Skip reason \<Rightarrow> stop_with (stop_for w reason published))"

definition create_staging :: "world \<Rightarrow> unit run_step" where
  "create_staging w =
     bind (ask (\<lambda>s. map_of (u_bin s) (staging_name (w_pid w)))) (\<lambda>there.
     bind (guard (there = None \<and> w_staging_ok w) (skip_as ''staging-failed'')) (\<lambda>_.
       effect (\<lambda>s. s\<lparr>u_bin := dir_put (staging_name (w_pid w)) [] (u_bin s)\<rparr>)))"

text \<open>The release: what the two downloads and the signature check give.\<close>

definition verified_release :: "world \<Rightarrow> rstr \<Rightarrow> rstr \<Rightarrow> rstr option \<Rightarrow> rstr list \<Rightarrow> (bytes \<times> rstr) run_step" where
  "verified_release w key tag published bad =
     bind (get_or (asset_url tag (lit ''brain-'' @ w_triple w @ lit ''.minisig'')) (skip_as ''bad-tag'')) (\<lambda>sig_url.
     bind (get_or (asset_url tag (lit ''brain-'' @ w_triple w)) (skip_as ''bad-tag'')) (\<lambda>bin_url.
     bind (get_or (fetch w sig_url MAX_SIG) (skip_as ''unsigned'')) (\<lambda>sig_bytes.
     bind (create_staging w) (\<lambda>_.
     bind (get_or (fetch w bin_url MAX_BIN) (skip_as ''download-failed'')) (\<lambda>bytes.
     bind (effect (\<lambda>s. s\<lparr>u_bin := dir_put (staging_name (w_pid w)) bytes (u_bin s)\<rparr>)) (\<lambda>_.
     bind (lift_stop (accept w bytes (case w_utf8 w sig_bytes of Some t \<Rightarrow> t | None \<Rightarrow> []) key tag)) (\<lambda>version.
     bind (decided w version published bad) (\<lambda>_. ok (bytes, version)))))))))"

definition attempt :: "world \<Rightarrow> rstr run_step" where
  "attempt w =
     bind (get_or (w_exe w) (skip_as ''not-bootstrap-install'')) (\<lambda>exe.
     bind (get_or (w_bin_dir w) (skip_as ''not-bootstrap-install'')) (\<lambda>bin.
     bind (lift_stop (install_dir w exe bin)) (\<lambda>dir.
     bind (get_or (w_euid w) (skip_as ''bin-unsafe'')) (\<lambda>euid.
     bind (guard (bin_safety w dir euid) (skip_as ''bin-unsafe'')) (\<lambda>_.
     bind (effect (sweep_stale w)) (\<lambda>_.
     bind (effect (rec_set ''update_checked_at'' (dec_int (w_now w)))) (\<lambda>_.
     bind (get_or (w_key w) (skip_as ''no-key'')) (\<lambda>key.
     bind (get_or (fetch w RELEASES_API MAX_JSON) (skip_as ''fetch-failed'')) (\<lambda>meta_bytes.
     bind (get_or (w_json w meta_bytes) (skip_as ''fetch-failed'')) (\<lambda>meta.
     bind (get_or (str_field ''tag_name'' meta) (skip_as ''bad-tag'')) (\<lambda>tag.
     bind (ask bad_list) (\<lambda>bad.
     bind (decided w tag (str_field ''published_at'' meta) bad) (\<lambda>_.
     bind (verified_release w key tag (str_field ''published_at'' meta) bad) (\<lambda>(bytes, version).
     bind (guard (w_chmod_ok w) (skip_as ''staging-failed'')) (\<lambda>_.
     bind (sign_step w bytes) (\<lambda>signed.
     bind (effect (\<lambda>s. s\<lparr>u_bin := dir_put (staging_name (w_pid w)) signed (u_bin s)\<rparr>)) (\<lambda>_.
     bind (get_or (w_snap_before w) (skip_as ''staging-changed'')) (\<lambda>before.
     bind (self_test_file w signed version) (\<lambda>_.
     bind (effect (installing w version)) (\<lambda>_.
     bind (guard (w_snap_after w = Some before) (skip_as ''staging-changed'')) (\<lambda>_.
     bind (place w (w_late w signed)) (\<lambda>_. ok version))))))))))))))))))))))"

definition record_stop :: "int \<Rightarrow> stop \<Rightarrow> upd \<Rightarrow> upd" where
  "record_stop now e s =
     (case e of Stop_skip reason \<Rightarrow> rec_skip now reason s
      | Stop_young _ \<Rightarrow> rec_skip now (lit ''too-young'') s
      | Stop_bad reason version \<Rightarrow> rec_skip now reason (mark_bad version s))"

text \<open>\<open>unix_run\<close> under the lock: the staging file the run owns is removed however it ends.\<close>

definition unix_run :: "world \<Rightarrow> bool \<Rightarrow> upd \<Rightarrow> (stop + rstr) option \<times> upd" where
  "unix_run w lock s =
     (if \<not> lock then (None, s)
      else case attempt w s of (outcome, s1) \<Rightarrow>
        let s2 = s1\<lparr>u_bin := dir_del (staging_name (w_pid w)) (u_bin s1)\<rparr>;
            s3 = (case outcome of Inr _ \<Rightarrow> s2\<lparr>u_store := map_option (clear_state (lit ''update_skip'')) (u_store s2)\<rparr>
                  | Inl e \<Rightarrow> record_stop (w_now w) e s2)
        in (Some outcome, s3\<lparr>u_data := filter (\<lambda>f. fst f \<noteq> lit ''update.running'') (u_data s3)\<rparr>))"

section \<open>Reasoning about a run\<close>

text \<open>\<open>wp m Q s\<close>: running \<open>m\<close> from \<open>s\<close> ends with a result and a state that satisfy \<open>Q\<close>.\<close>

definition wp :: "'a run_step \<Rightarrow> (stop + 'a \<Rightarrow> upd \<Rightarrow> bool) \<Rightarrow> upd \<Rightarrow> bool" where
  "wp m Q s = Q (fst (m s)) (snd (m s))"

named_theorems wp_rules \<open>one rule per step of a run\<close>

lemma wp_last [wp_rules]:
  "Q1 (Inr a) s \<Longrightarrow> wp (ok a) Q1 s"
  "Q2 (Inl e) s \<Longrightarrow> wp (stop_with e) Q2 s"
  "Q3 (Inr ()) (g s) \<Longrightarrow> wp (effect g) Q3 s"
  "(b \<Longrightarrow> Q4 (Inr ()) s) \<Longrightarrow> (\<not> b \<Longrightarrow> Q4 (Inl e) s) \<Longrightarrow> wp (guard b e) Q4 s"
  by (simp_all add: wp_def ok_def stop_with_def effect_def guard_def)

lemma wp_get_or [wp_rules]:
  "(\<And>a. x = Some a \<Longrightarrow> Q (Inr a) s) \<Longrightarrow> (x = None \<Longrightarrow> Q (Inl e) s) \<Longrightarrow> wp (get_or x e) Q s"
  by (cases x) (simp_all add: wp_def get_or_def ok_def stop_with_def)

lemma wp_bind_step [wp_rules]:
  "wp (f1 ()) Q1 (g s) \<Longrightarrow> wp (bind (effect g) f1) Q1 s"
  "wp (f2 (h s)) Q2 s \<Longrightarrow> wp (bind (ask h) f2) Q2 s"
  "(b \<Longrightarrow> wp (f3 ()) Q3 s) \<Longrightarrow> (\<not> b \<Longrightarrow> Q3 (Inl e) s) \<Longrightarrow> wp (bind (guard b e) f3) Q3 s"
  by (simp_all add: wp_def)

lemma wp_bind_get_or [wp_rules]:
  "(\<And>a. x = Some a \<Longrightarrow> wp (f' a) Q s) \<Longrightarrow> (x = None \<Longrightarrow> Q (Inl e) s) \<Longrightarrow> wp (bind (get_or x e) f') Q s"
  by (cases x) (simp_all add: wp_def)

lemma wp_bind_lift [wp_rules]:
  "(\<And>a. r = Inr a \<Longrightarrow> wp (f' a) Q s) \<Longrightarrow> (\<And>e. r = Inl e \<Longrightarrow> Q (Inl (Stop_skip e)) s) \<Longrightarrow> wp (bind (lift_stop r) f') Q s"
  by (cases r) (simp_all add: wp_def)

lemma wp_bind:
  assumes "wp m R s" "\<And>a s1. R (Inr a) s1 \<Longrightarrow> wp (f a) Q s1" "\<And>e s1. R (Inl e) s1 \<Longrightarrow> Q (Inl e) s1"
  shows "wp (bind m f) Q s"
  using assms by (cases "m s") (auto simp: wp_def bind_def split: sum.split)

lemma wp_mono: "wp m R s \<Longrightarrow> (\<And>r s1. R r s1 \<Longrightarrow> Q r s1) \<Longrightarrow> wp m Q s"
  by (simp add: wp_def)

lemma record_frame [simp]:
  "u_bin (rec_set k v s) = u_bin s" "u_ran (rec_set k v s) = u_ran s" "u_dirs (rec_set k v s) = u_dirs s"
  "u_bin (write_data k v s) = u_bin s" "u_ran (write_data k v s) = u_ran s" "u_dirs (write_data k v s) = u_dirs s"
  "u_bin (installing w v s) = u_bin s" "u_ran (installing w v s) = u_ran s" "u_dirs (installing w v s) = u_dirs s"
  "u_ran (sweep_stale w s) = u_ran s" "u_dirs (sweep_stale w s) = u_dirs s"
  by (simp_all add: rec_set_def write_data_def installing_def sweep_stale_def Let_def)

text \<open>What no step before the self-test and the placement touches.\<close>

definition quiet :: "upd \<Rightarrow> upd \<Rightarrow> bool" where
  "quiet s s' = (u_ran s' = u_ran s \<and> u_dirs s' = u_dirs s \<and> map_of (u_bin s') BRAIN = map_of (u_bin s) BRAIN)"

lemma names_ne [simp]:
  "staging_name p \<noteq> BRAIN" "prev_tmp p \<noteq> BRAIN" "BRAIN_PREV \<noteq> BRAIN" "BRAIN \<noteq> staging_name p" "BRAIN \<noteq> prev_tmp p"
  "BRAIN \<noteq> BRAIN_PREV" "BRAIN_PREV \<noteq> staging_name p" "BRAIN_PREV \<noteq> prev_tmp p" "staging_name p \<noteq> BRAIN_PREV"
  by (simp_all add: staging_name_def prev_tmp_def BRAIN_def BRAIN_PREV_def lit_def)

lemma sweep_keeps_brain: "map_of (u_bin (sweep_stale w s)) BRAIN = map_of (u_bin s) BRAIN"
proof -
  have "sweep_pid BRAIN = None"
    by (simp add: sweep_pid_def BRAIN_def strip_pre_def starts_with_def lit_def List.map_filter_def)
  then have "map_of (filter (\<lambda>(name, _). case sweep_pid name of None \<Rightarrow> True | Some pid \<Rightarrow> P name pid) d) BRAIN = map_of d BRAIN" for P d
    by (induction d) auto
  then show ?thesis by (simp add: sweep_stale_def)
qed

declare sweep_keeps_brain [simp]

lemma quiet_simps [simp]:
  "quiet s s" "quiet s0 (rec_set k v s) = quiet s0 s" "quiet s0 (sweep_stale w s) = quiet s0 s"
  "map_of d BRAIN = map_of (u_bin s) BRAIN \<Longrightarrow> quiet s0 (s\<lparr>u_bin := d\<rparr>) = quiet s0 s"
  "quiet s0 (write_data n x s) = quiet s0 s" "quiet s0 (installing w v s) = quiet s0 s"
  by (simp_all add: quiet_def)

lemma decided_wp [wp_rules]:
  "(decide (w_clock w) (w_running w) v pub bad (w_now w) = Install \<Longrightarrow> wp (f ()) Q s) \<Longrightarrow> (\<And>e. Q (Inl e) s) \<Longrightarrow>
   wp (bind (decided w v pub bad) f) Q s"
  by (auto simp: decided_def wp_def split: update_verdict.split)

lemma create_staging_wp [wp_rules]:
  assumes "wp (f ()) Q (s\<lparr>u_bin := dir_put (staging_name (w_pid w)) [] (u_bin s)\<rparr>)" "\<And>e. Q (Inl e) s"
  shows "wp (bind (create_staging w) f) Q s"
  using assms by (auto simp: create_staging_def wp_def bind_def ask_def guard_def ok_def stop_with_def effect_def)

definition genuine :: "world \<Rightarrow> bytes \<Rightarrow> rstr \<Rightarrow> bool" where
  "genuine w bytes version =
     (\<exists>sig key tag pub bad. accept w bytes sig key tag = Inr version \<and> w_verify w key bytes sig \<and> w_key w = Some key
        \<and> decide (w_clock w) (w_running w) version pub bad (w_now w) = Install)"

lemma accept_verifies: "accept w bytes sig key tag = Inr version \<Longrightarrow> w_verify w key bytes sig"
  by (auto simp: accept_def split: if_splits option.splits prod.splits)

lemma verified_release_wp:
  assumes "w_key w = Some key"
  shows "wp (verified_release w key tag pub bad)
    (\<lambda>r s'. quiet s s' \<and> (case r of Inr (bytes, version) \<Rightarrow> genuine w bytes version | Inl _ \<Rightarrow> True)) s"
  unfolding verified_release_def
  by (intro wp_rules) (auto simp: genuine_def dest: accept_verifies intro: assms)

definition signed_as :: "world \<Rightarrow> bytes \<Rightarrow> bytes option" where
  "signed_as w bytes = (if w_macos w then w_codesign w bytes else Some bytes)"

lemma sign_step_wp [wp_rules]:
  "(\<And>b. signed_as w bytes = Some b \<Longrightarrow> wp (f b) Q s) \<Longrightarrow> (\<And>e. Q (Inl e) s) \<Longrightarrow> wp (bind (sign_step w bytes) f) Q s"
  by (auto simp: sign_step_def signed_as_def wp_def split: option.split)

lemma self_test_wp:
  "wp (self_test_file w file version)
    (\<lambda>r s'. u_bin s' = u_bin s \<and> u_dirs s' = u_dirs s \<and> set (u_ran s') \<subseteq> insert file (set (u_ran s))) s"
  unfolding self_test_file_def execute_def
  by (auto simp: wp_def bind_def effect_def ok_def guard_def stop_with_def split: option.split)

definition runnable :: "upd \<Rightarrow> bool" where
  "runnable s = list_all (\<lambda>d. map_of d BRAIN \<noteq> None) (u_dirs s)"

lemma place_wp:
  assumes "map_of (u_bin s) BRAIN \<noteq> None" "runnable s"
  shows "wp (place w staged)
    (\<lambda>r s'. u_ran s' = u_ran s \<and> runnable s' \<and>
       (case r of Inl _ \<Rightarrow> map_of (u_bin s') BRAIN = map_of (u_bin s) BRAIN
        | Inr _ \<Rightarrow> map_of (u_bin s') BRAIN = Some staged \<and> map_of (u_bin s') BRAIN_PREV = map_of (u_bin s) BRAIN)) s"
  unfolding place_def using assms
  by (intro wp_rules) (auto simp: set_bin_def runnable_def)

definition run_post :: "world \<Rightarrow> upd \<Rightarrow> stop + rstr \<Rightarrow> upd \<Rightarrow> bool" where
  "run_post w s0 r s' =
     (runnable s' \<and>
      ((\<exists>e. r = Inl e) \<and> u_ran s' = u_ran s0 \<and> map_of (u_bin s') BRAIN = map_of (u_bin s0) BRAIN
       \<or> (\<exists>bytes version signed. genuine w bytes version \<and> signed_as w bytes = Some signed
            \<and> set (u_ran s') \<subseteq> insert signed (set (u_ran s0))
            \<and> (case r of Inl _ \<Rightarrow> map_of (u_bin s') BRAIN = map_of (u_bin s0) BRAIN
               | Inr v \<Rightarrow> v = version \<and> map_of (u_bin s') BRAIN = Some signed
                         \<and> map_of (u_bin s') BRAIN_PREV = map_of (u_bin s0) BRAIN))))"

lemma quiet_post: "quiet s0 s \<Longrightarrow> runnable s0 \<Longrightarrow> run_post w s0 (Inl e) s"
  by (simp add: quiet_def run_post_def runnable_def)

text \<open>After the self-test: the records, the last look at the staged file, the placement.\<close>

lemma placed_wp:
  assumes late: "w_snap_after w = w_snap_before w \<Longrightarrow> w_late w signed = signed"
    and g: "genuine w bytes version" "signed_as w bytes = Some signed" "w_snap_before w = Some before"
    and s: "runnable s" "set (u_ran s) \<subseteq> insert signed (set (u_ran s0))" "map_of (u_bin s) BRAIN = map_of (u_bin s0) BRAIN"
    and there: "map_of (u_bin s0) BRAIN \<noteq> None"
  shows "wp (bind (guard (w_snap_after w = Some before) (skip_as ''staging-changed'')) (\<lambda>_.
     bind (place w (w_late w signed)) (\<lambda>_. ok version))) (run_post w s0) s"
proof (intro wp_rules)
  assume "w_snap_after w = Some before"
  then have l: "w_late w signed = signed" using late g(3) by simp
  show "wp (bind (place w (w_late w signed)) (\<lambda>_. ok version)) (run_post w s0) s"
    unfolding l
  proof (rule wp_bind [OF place_wp])
    show "map_of (u_bin s) BRAIN \<noteq> None" "runnable s" using s there by auto
  next
    fix a s1
    assume "u_ran s1 = u_ran s \<and> runnable s1 \<and> (case Inr a of Inl _ \<Rightarrow> map_of (u_bin s1) BRAIN = map_of (u_bin s) BRAIN
        | Inr _ \<Rightarrow> map_of (u_bin s1) BRAIN = Some signed \<and> map_of (u_bin s1) BRAIN_PREV = map_of (u_bin s) BRAIN)"
    then show "wp (ok version) (run_post w s0) s1" using g s by (intro wp_rules) (auto simp: run_post_def)
  next
    fix e :: stop and s1
    assume "u_ran s1 = u_ran s \<and> runnable s1 \<and> (case Inl e of Inl _ \<Rightarrow> map_of (u_bin s1) BRAIN = map_of (u_bin s) BRAIN
        | Inr _ \<Rightarrow> map_of (u_bin s1) BRAIN = Some signed \<and> map_of (u_bin s1) BRAIN_PREV = map_of (u_bin s) BRAIN)"
    then show "run_post w s0 (Inl e) s1" using g s by (auto simp: run_post_def)
  qed
next
  assume "w_snap_after w \<noteq> Some before"
  then show "run_post w s0 (Inl (skip_as ''staging-changed'')) s" using g s by (auto simp: run_post_def)
qed

lemma attempt_wp:
  assumes late: "\<And>b. w_snap_after w = w_snap_before w \<Longrightarrow> w_late w b = b"
    and s: "runnable s" "map_of (u_bin s) BRAIN \<noteq> None"
  shows "wp (attempt w) (run_post w s) s"
proof -
  have q: "run_post w s (Inl e) s'" if "quiet s s'" for e s' using quiet_post [OF that s(1)] .
  have rest: "wp (bind (guard (w_chmod_ok w) (skip_as ''staging-failed'')) (\<lambda>_.
     bind (sign_step w bytes) (\<lambda>signed.
     bind (effect (\<lambda>s. s\<lparr>u_bin := dir_put (staging_name (w_pid w)) signed (u_bin s)\<rparr>)) (\<lambda>_.
     bind (get_or (w_snap_before w) (skip_as ''staging-changed'')) (\<lambda>before.
     bind (self_test_file w signed version) (\<lambda>_.
     bind (effect (installing w version)) (\<lambda>_.
     bind (guard (w_snap_after w = Some before) (skip_as ''staging-changed'')) (\<lambda>_.
     bind (place w (w_late w signed)) (\<lambda>_. ok version)))))))) ) (run_post w s) s1"
    if g: "genuine w bytes version" and q1: "quiet s s1" for bytes version s1
  proof (intro wp_rules)
    fix signed before
    assume sg: "signed_as w bytes = Some signed" and b: "w_snap_before w = Some before"
    let ?s2 = "s1\<lparr>u_bin := dir_put (staging_name (w_pid w)) signed (u_bin s1)\<rparr>"
    have q2: "quiet s ?s2" using q1 by simp
    show "wp (bind (self_test_file w signed version) (\<lambda>_. bind (effect (installing w version)) (\<lambda>_.
       bind (guard (w_snap_after w = Some before) (skip_as ''staging-changed'')) (\<lambda>_.
       bind (place w (w_late w signed)) (\<lambda>_. ok version))))) (run_post w s) ?s2"
    proof (rule wp_bind [OF self_test_wp])
      fix a and s3 :: upd
      assume s3: "u_bin s3 = u_bin ?s2 \<and> u_dirs s3 = u_dirs ?s2 \<and> set (u_ran s3) \<subseteq> insert signed (set (u_ran ?s2))"
      show "wp (bind (effect (installing w version)) (\<lambda>_.
         bind (guard (w_snap_after w = Some before) (skip_as ''staging-changed'')) (\<lambda>_.
         bind (place w (w_late w signed)) (\<lambda>_. ok version)))) (run_post w s) s3"
        using s3 q2 s by (intro wp_bind_step(1) placed_wp [OF late g sg b]) (auto simp: runnable_def quiet_def)
    next
      fix e and s3 :: upd
      assume "u_bin s3 = u_bin ?s2 \<and> u_dirs s3 = u_dirs ?s2 \<and> set (u_ran s3) \<subseteq> insert signed (set (u_ran ?s2))"
      then show "run_post w s (Inl e) s3" using g sg q2 s by (auto simp: run_post_def runnable_def quiet_def)
    qed
  qed (use q1 q in auto)
  show ?thesis unfolding attempt_def
  proof (intro wp_rules)
    fix exe bin dir euid key meta_bytes meta tag
    assume key: "w_key w = Some key"
    let ?s1 = "rec_set ''update_checked_at'' (dec_int (w_now w)) (sweep_stale w s)" and ?pub = "str_field ''published_at'' meta"
    show "wp (bind (verified_release w key tag ?pub (bad_list ?s1)) (\<lambda>(bytes, version).
       bind (guard (w_chmod_ok w) (skip_as ''staging-failed'')) (\<lambda>_.
       bind (sign_step w bytes) (\<lambda>signed.
       bind (effect (\<lambda>s. s\<lparr>u_bin := dir_put (staging_name (w_pid w)) signed (u_bin s)\<rparr>)) (\<lambda>_.
       bind (get_or (w_snap_before w) (skip_as ''staging-changed'')) (\<lambda>before.
       bind (self_test_file w signed version) (\<lambda>_.
       bind (effect (installing w version)) (\<lambda>_.
       bind (guard (w_snap_after w = Some before) (skip_as ''staging-changed'')) (\<lambda>_.
       bind (place w (w_late w signed)) (\<lambda>_. ok version))))))))))
       (run_post w s) ?s1"
    proof (rule wp_bind [OF verified_release_wp [OF key]], goal_cases)
      case (1 bv s1)
      then have "quiet s s1" by (simp add: quiet_def)
      then show ?case using 1 rest [of "fst bv" "snd bv" s1] by (cases bv) simp
    next
      case (2 e s1)
      then show ?case by (intro q) (simp add: quiet_def)
    qed
  qed (use q in simp_all)
qed

lemma run_frame [simp]:
  "u_bin (rec_skip now r s) = u_bin s" "u_ran (rec_skip now r s) = u_ran s" "u_dirs (rec_skip now r s) = u_dirs s"
  "u_bin (mark_bad v s) = u_bin s" "u_ran (mark_bad v s) = u_ran s" "u_dirs (mark_bad v s) = u_dirs s"
  "u_bin (record_stop now e s) = u_bin s" "u_ran (record_stop now e s) = u_ran s" "u_dirs (record_stop now e s) = u_dirs s"
  by (simp_all add: rec_skip_def mark_bad_def record_stop_def Let_def split: stop.split)

text \<open>
  C20: no byte that did not verify is executed or installed, and the binary is there at every instant.
  Whatever the network delivers and wherever a run stops: the install directory holds a \<open>brain\<close>
  after every step of a placement; if anything was executed, or \<open>brain\<close> changed, then it is one
  release whose signature verified with the build's key, whose signed comment names this platform,
  and whose signed version \<open>decide\<close> accepts (on macOS as \<open>codesign\<close> rewrote it); a run that stops leaves
  \<open>brain\<close> as it was, and one that installs keeps the old one as \<open>brain.prev\<close>. The hypothesis on \<open>w_late\<close>
  is that two equal snapshots of the staged file mean the same bytes.
\<close>
theorem update_installs_only_verified:
  assumes snaps: "w_snap_after w = w_snap_before w \<longrightarrow> (\<forall>b. w_late w b = b)"
    and start: "map_of (u_bin s) BRAIN \<noteq> None" "u_ran s = []" "u_dirs s = []"
    and run: "unix_run w lock s = (outcome, s')"
  shows "list_all (\<lambda>d. map_of d BRAIN \<noteq> None) (u_dirs s') \<and> map_of (u_bin s') BRAIN \<noteq> None
    \<and> (u_ran s' \<noteq> [] \<or> map_of (u_bin s') BRAIN \<noteq> map_of (u_bin s) BRAIN \<longrightarrow>
        (\<exists>bytes sig key tag version pub bad signed.
           accept w bytes sig key tag = Inr version \<and> w_verify w key bytes sig \<and> w_key w = Some key
           \<and> decide (w_clock w) (w_running w) version pub bad (w_now w) = Install
           \<and> signed_as w bytes = Some signed \<and> set (u_ran s') \<subseteq> {signed}
           \<and> map_of (u_bin s') BRAIN \<in> {map_of (u_bin s) BRAIN, Some signed}))
    \<and> (case outcome of Some (Inr v) \<Rightarrow> map_of (u_bin s') BRAIN_PREV = map_of (u_bin s) BRAIN
       | _ \<Rightarrow> map_of (u_bin s') BRAIN = map_of (u_bin s) BRAIN)"
proof (cases lock)
  case False
  then show ?thesis using run start by (auto simp: unix_run_def)
next
  case True
  obtain r s1 where a: "attempt w s = (r, s1)" by (cases "attempt w s")
  have post: "run_post w s r s1"
    using attempt_wp [of w s] snaps start by (simp add: wp_def a runnable_def)
  have out: "outcome = Some r" "u_ran s' = u_ran s1" "u_dirs s' = u_dirs s1"
    "u_bin s' = dir_del (staging_name (w_pid w)) (u_bin s1)"
    using run True a by (auto simp: unix_run_def Let_def split: sum.splits)
  have bins: "map_of (u_bin s') BRAIN = map_of (u_bin s1) BRAIN" "map_of (u_bin s') BRAIN_PREV = map_of (u_bin s1) BRAIN_PREV"
    by (simp_all add: out(4))
  show ?thesis
  proof (cases "u_ran s1 = u_ran s \<and> map_of (u_bin s1) BRAIN = map_of (u_bin s) BRAIN \<and> (\<exists>e. r = Inl e)")
    case True
    then show ?thesis using post start by (auto simp: run_post_def runnable_def out bins)
  next
    case False
    then obtain bytes version signed where g: "genuine w bytes version" "signed_as w bytes = Some signed"
      "set (u_ran s1) \<subseteq> {signed}"
      "case r of Inl _ \<Rightarrow> map_of (u_bin s1) BRAIN = map_of (u_bin s) BRAIN
       | Inr v \<Rightarrow> v = version \<and> map_of (u_bin s1) BRAIN = Some signed \<and> map_of (u_bin s1) BRAIN_PREV = map_of (u_bin s) BRAIN"
      using post start by (auto simp: run_post_def)
    then have "map_of (u_bin s1) BRAIN \<in> {map_of (u_bin s) BRAIN, Some signed}" "map_of (u_bin s1) BRAIN \<noteq> None"
      using start by (auto split: sum.splits)
    moreover have "runnable s1" using post by (simp add: run_post_def)
    ultimately show ?thesis using g unfolding out bins genuine_def runnable_def
      by (cases r) (simp_all, blast+)
  qed
qed

definition sample_world :: world where
  "sample_world = \<lparr>w_running = lit ''1.0.0'', w_now = 200000, w_clock = sample_clock, w_pid = 7, w_triple = lit ''t'',
     w_exe = Some [lit ''bin'', BRAIN], w_bin_dir = Some [lit ''bin''], w_canon = Some,
     w_meta = (\<lambda>p. Some \<lparr>m_kind = (if length p = 1 then Directory else Plain_file), m_uid = 1, m_mode = 64\<rparr>),
     w_euid = Some 1, w_stale = (\<lambda>_ _. False), w_key = Some (lit ''key''), w_curl = (\<lambda>_. Some [1]),
     w_json = (\<lambda>_. Some (JObj [(lit ''tag_name'', JStr (lit ''v1.1.0'')), (lit ''published_at'', JStr [0])])),
     w_utf8 = Some, w_key_ok = (\<lambda>_. True), w_sig_comment = (\<lambda>_. Some (lit ''brain-t 1.1.0'')),
     w_verify = (\<lambda>_ _ _. True), w_staging_ok = True, w_chmod_ok = True, w_macos = False, w_codesign = Some,
     w_snap_before = Some [0], w_snap_after = Some [0], w_late = (\<lambda>b. b),
     w_output = (\<lambda>_ arg. if arg = lit ''--version'' then Some (lit ''brain 1.1.0'') else Some []),
     w_link_ok = True, w_copy_ok = True, w_rename_prev_ok = True, w_rename_ok = True\<rparr>"

definition sample_upd :: upd where
  "sample_upd = \<lparr>u_store = None, u_data = [], u_bin = [(BRAIN, [0])], u_ran = [], u_dirs = []\<rparr>"

lemmas text_defs = strip_pre_def starts_with_def lit_def ascii_class_defs

lemma sample_versions:
  "parse_ver (lit ''1.0.0'') = Some (Ver (1, 0, 0) None)" "parse_ver (lit ''1.1.0'') = Some (Ver (1, 1, 0) None)"
  "parse_ver (lit ''v1.1.0'') = Some (Ver (1, 1, 0) None)"
  by (simp_all add: parse_ver_def strip_v_def text_defs ver_part_def split_on_def len_utf8_def parse_u64_def
      parse_digits_def digits_value_def U64_MAX_def)

lemma sample_decide:
  "decide sample_clock (lit ''1.0.0'') (lit ''1.1.0'') (Some [0]) [] 200000 = Install"
  "decide sample_clock (lit ''1.0.0'') (lit ''v1.1.0'') (Some [0]) [] 200000 = Install"
  by (simp_all add: decide_def sample_versions less_eq_ver_def age_of_def sample_clock_def sat_sub_def I64_MIN_def I64_MAX_def
      as_second_def MIN_AGE_SECS_def)

lemma sample_accept: "accept sample_world [1] [1] (lit ''key'') (lit ''v1.1.0'') = Inr (lit ''1.1.0'')"
  by (simp add: accept_def sample_world_def trim_defs is_ws_def sample_versions)
    (simp add: text_defs sample_versions [unfolded lit_def, simplified])

lemma sample_places:
  "install_dir sample_world [lit ''bin'', BRAIN] [lit ''bin''] = Inr [lit ''bin'']" "bin_safety sample_world [lit ''bin''] 1"
  "asset_url (lit ''v1.1.0'') (lit ''brain-t'') \<noteq> None" "asset_url (lit ''v1.1.0'') (lit ''brain-t.minisig'') \<noteq> None"
  "version_output_matches (lit ''brain 1.1.0'') (lit ''1.1.0'')"
  by (simp_all add: install_dir_def bin_safety_def asset_url_def url_allowed_def strip_pre_Some parent_def file_name_def sample_world_def
      BRAIN_def others_write_def version_output_matches_def trim_defs is_ws_def ROOT_DIR_def DOWNLOAD_PREFIX_def strip_pre_def starts_with_def
      lit_def ascii_class_defs Let_def)

lemma sample_fetch: "url_allowed u \<Longrightarrow> 1 \<le> n \<Longrightarrow> fetch sample_world u n = Some [1]"
  by (simp add: fetch_def sample_world_def)

lemma sample_release: "url_allowed RELEASES_API"
  by (simp add: url_allowed_def)

lemma bind_assoc: "bind (bind m f) g = bind m (\<lambda>a. bind (f a) g)"
  by (simp add: bind_def fun_eq_iff split: prod.split sum.split)

lemma sample_fields:
  "w_exe sample_world = Some [lit ''bin'', BRAIN]" "w_bin_dir sample_world = Some [lit ''bin'']" "w_euid sample_world = Some 1"
  "w_key sample_world = Some (lit ''key'')" "w_json sample_world b = Some (JObj [(lit ''tag_name'', JStr (lit ''v1.1.0'')), (lit ''published_at'', JStr [0])])"
  "w_triple sample_world = lit ''t''" "w_utf8 sample_world = Some" "w_staging_ok sample_world" "w_chmod_ok sample_world" "\<not> w_macos sample_world"
  "w_snap_before sample_world = Some [0]" "w_snap_after sample_world = Some [0]" "w_late sample_world b = b"
  "w_link_ok sample_world" "w_rename_prev_ok sample_world" "w_rename_ok sample_world" "w_running sample_world = lit ''1.0.0''"
  "w_now sample_world = 200000" "w_clock sample_world = sample_clock" "w_pid sample_world = 7"
  "w_output sample_world f a = (if a = lit ''--version'' then Some (lit ''brain 1.1.0'') else Some [])" "w_stale sample_world n k = False"
  by (simp_all add: sample_world_def)

lemma sample_bad: "u_store s = None \<Longrightarrow> u_data s = [] \<Longrightarrow> bad_list s = []"
  by (simp add: bad_list_def data_text_def bad_versions_def split_whitespace_def split_on_def)

lemma sample_sweep: "sweep_stale sample_world s = s"
  by (simp add: sweep_stale_def sample_fields case_prod_beta split: option.split)

lemma sample_attempt: "fst (attempt sample_world sample_upd) = Inr (lit ''1.1.0'')"
proof -
  obtain u1 where u1: "asset_url (lit ''v1.1.0'') (lit ''brain-t'') = Some u1" using sample_places(3) by blast
  obtain u2 where u2: "asset_url (lit ''v1.1.0'') (lit ''brain-t.minisig'') = Some u2" using sample_places(4) by blast
  have ok: "url_allowed u1" "url_allowed u2" using u1 u2 by (auto simp: asset_url_def Let_def split: if_splits)
  have names: "lit ''brain-'' @ lit ''t'' @ lit ''.minisig'' = lit ''brain-t.minisig''" "lit ''brain-'' @ lit ''t'' = lit ''brain-t''"
    by (simp_all flip: lit_append)
  have st: "u_store (rec_set k v s) = map_option (set_state (lit k) v) (u_store s)" "u_data (rec_set k v s) = u_data s" for k v s
    by (simp_all add: rec_set_def)
  show ?thesis
    unfolding attempt_def verified_release_def bind_assoc
    by (simp add: sample_fields sample_places sample_fetch sample_release str_field_def sample_bad st sample_upd_def
        MAX_JSON_def MAX_SIG_def MAX_BIN_def decided_def sample_decide names u1 u2 ok sample_accept create_staging_def bind_assoc
        sign_step_def self_test_file_def execute_def place_def set_bin_def sample_sweep del: One_nat_def)
      (simp add: ok_def)
qed

theorem update_installs_only_verified_witness:
  "fst (unix_run sample_world True sample_upd) = Some (Inr (lit ''1.1.0''))
     \<and> map_of (u_bin (snd (unix_run sample_world True sample_upd))) BRAIN_PREV = Some [0]"
proof -
  let ?r = "unix_run sample_world True sample_upd"
  have out: "fst ?r = Some (Inr (lit ''1.1.0''))"
    using sample_attempt by (auto simp: unix_run_def Let_def split: prod.split sum.split)
  have start: "map_of (u_bin sample_upd) BRAIN = Some [0]" "u_ran sample_upd = []" "u_dirs sample_upd = []"
    by (simp_all add: sample_upd_def)
  have "case fst ?r of Some (Inr v) \<Rightarrow> map_of (u_bin (snd ?r)) BRAIN_PREV = map_of (u_bin sample_upd) BRAIN
      | _ \<Rightarrow> map_of (u_bin (snd ?r)) BRAIN = map_of (u_bin sample_upd) BRAIN"
    using update_installs_only_verified [of sample_world sample_upd True "fst ?r" "snd ?r"] start by (simp add: sample_fields)
  then show ?thesis by (simp add: out start)
qed

section \<open>Versions that failed here\<close>

lemma split_once_Some: "split_once p s = Some (a, b) \<Longrightarrow> s = a @ p @ b"
  by (induction p s arbitrary: a rule: split_once.induct) (auto simp: strip_pre_Some split: if_splits option.splits)

lemma split_on_chars: "c \<in> set s \<Longrightarrow> p c \<or> (\<exists>w\<in>set (split_on p s). c \<in> set w)"
proof -
  have "c \<in> set s \<union> set w0 \<Longrightarrow> p c \<or> (\<exists>w\<in>set (split_acc p w0 s). c \<in> set w)" for w0
  proof (induction s arbitrary: w0)
    case (Cons a s)
    then show ?case using Cons.IH [of "a # w0"] Cons.IH [of "[]"] by (cases "p a") auto
  qed simp
  then show "c \<in> set s \<Longrightarrow> p c \<or> (\<exists>w\<in>set (split_on p s). c \<in> set w)" by (simp add: split_on_def)
qed

definition one_word :: "rstr \<Rightarrow> bool" where
  "one_word w = (w \<noteq> [] \<and> list_all (\<lambda>c. \<not> is_ws c) w)"

lemma ver_chars: "parse_ver v = Some x \<Longrightarrow> c \<in> set v \<Longrightarrow> is_ascii_alnum c \<or> c = 46 \<or> c = 45"
proof -
  assume p: "parse_ver v = Some x" and c: "c \<in> set v"
  have "set v \<subseteq> {118} \<union> set (strip_v v)" by (auto simp: strip_v_def strip_pre_Some lit_def split: option.splits)
  moreover have "is_ascii_alnum 118" by (simp add: ascii_class_defs)
  moreover have "is_ascii_alnum c \<or> c = 46 \<or> c = 45" if t: "c \<in> set (strip_v v)"
  proof -
    obtain core pre where cp: "(case split_once (lit ''-'') (strip_v v) of Some (a, b) \<Rightarrow> (a, Some b) | None \<Rightarrow> (strip_v v, None)) = (core, pre)"
      by (cases "case split_once (lit ''-'') (strip_v v) of Some (a, b) \<Rightarrow> (a, Some b) | None \<Rightarrow> (strip_v v, None)")
    obtain a b d where parts: "map ver_part (split_on (\<lambda>c. c = 46) core) = [Some a, Some b, Some d]"
      and pre: "case pre of None \<Rightarrow> True | Some q \<Rightarrow> q \<noteq> [] \<and> list_all (\<lambda>b. is_ascii_alnum b \<or> b = 46 \<or> b = 45) q"
      using p cp by (auto simp: parse_ver_def Let_def split: list.splits option.splits if_splits)
    have dig: "is_ascii_digit c" if "w \<in> set (split_on (\<lambda>c. c = 46) core)" "c \<in> set w" for w c
    proof -
      have "ver_part w \<in> {Some a, Some b, Some d}" using that(1) parts by (metis image_eqI list.set(1) list.set_map list.simps(15))
      then show ?thesis using that(2) by (auto simp: ver_part_def list_all_iff split: if_splits)
    qed
    have "set (strip_v v) \<subseteq> set core \<union> {45} \<union> (case pre of None \<Rightarrow> {} | Some q \<Rightarrow> set q)"
      using cp by (auto simp: lit_def split: option.splits dest!: split_once_Some)
    moreover have "is_ascii_alnum c \<or> c = 46" if "c \<in> set core" for c
      using split_on_chars [OF that, of "\<lambda>c. c = 46"] dig by (auto simp: is_ascii_alnum_def)
    ultimately show ?thesis using t pre by (auto simp: list_all_iff split: option.splits)
  qed
  ultimately show ?thesis using c by auto
qed

lemma ver_one_word: "parse_ver v \<noteq> None \<Longrightarrow> one_word v"
proof -
  assume "parse_ver v \<noteq> None"
  then obtain x where x: "parse_ver v = Some x" by blast
  have "v \<noteq> []" using x by (auto simp: parse_ver_def strip_v_def strip_pre_def starts_with_def lit_def split_on_def ver_part_def)
  moreover have "\<not> is_ws c" if "is_ascii_alnum c \<or> c = 46 \<or> c = 45" for c
    using that by (auto simp: is_ws_def ascii_class_defs)
  ultimately show ?thesis using ver_chars [OF x] by (auto simp: one_word_def list_all_iff)
qed

lemma split_join_spaces: "list_all one_word ws \<Longrightarrow> split_whitespace (join_spaces ws) = ws"
proof (induction ws rule: join_spaces.induct)
  case 1
  then show ?case by (simp add: split_whitespace_def split_on_def)
next
  case (2 w)
  then show ?case by (simp add: split_whitespace_def split_on_def one_word_def split_acc_plain list_all_iff)
next
  case (3 w v ws)
  have "split_acc is_ws [] (w @ 32 # join_spaces (v # ws)) = split_acc is_ws [] w @ split_acc is_ws [] (join_spaces (v # ws))"
    by (rule split_acc_append) (simp add: is_ws_def)
  moreover have "split_acc is_ws [] w = [w]" using 3(2) by (simp add: split_acc_plain one_word_def list_all_iff)
  ultimately show ?case using 3 by (simp add: split_whitespace_def split_on_def one_word_def)
qed

lemma fold_add_new: "set (fold add_new ws xs) = set xs \<union> set ws" "distinct xs \<Longrightarrow> distinct (fold add_new ws xs)"
  by (induction ws arbitrary: xs) (auto simp: add_new_def)

lemma fold_add_new_id: "set ws \<subseteq> set xs \<Longrightarrow> fold add_new ws xs = xs"
  by (induction ws arbitrary: xs) (auto simp: add_new_def)

lemma fold_add_new_distinct: "distinct (xs @ ws) \<Longrightarrow> fold add_new ws xs = xs @ ws"
  by (induction ws arbitrary: xs) (auto simp: add_new_def)

lemma split_whitespace_words: "w \<in> set (split_whitespace s) \<Longrightarrow> one_word w"
  using split_on_no_sep [of w is_ws s] by (auto simp: split_whitespace_def one_word_def list_all_iff)

lemma bad_list_words: "list_all one_word (bad_list s)" "distinct (bad_list s)"
  by (auto simp: bad_list_def bad_versions_def list_all_iff fold_add_new dest: split_whitespace_words)

lemma bad_list_marked:
  assumes "one_word version"
  shows "bad_list (mark_bad version s) = drop (length (add_new version (bad_list s)) - BAD_CAP) (add_new version (bad_list s))"
proof -
  let ?kept = "drop (length (add_new version (bad_list s)) - BAD_CAP) (add_new version (bad_list s))"
  have "list_all one_word (add_new version (bad_list s))" "distinct (add_new version (bad_list s))"
    using assms bad_list_words [of s] by (auto simp: add_new_def)
  then have kept: "list_all one_word ?kept" "distinct ?kept" by (auto simp: list_all_iff dest: in_set_dropD)
  have "bad_versions (join_spaces ?kept) (join_spaces ?kept) = ?kept"
    using kept fold_add_new_distinct [of "[]" ?kept] by (simp add: bad_versions_def split_join_spaces fold_add_new_id)
  moreover have "bad_versions [] (join_spaces ?kept) = ?kept"
    using kept fold_add_new_distinct [of "[]" ?kept] by (simp add: bad_versions_def split_join_spaces split_whitespace_def [of "[]"] split_on_def)
  ultimately show ?thesis unfolding bad_list_def [of "mark_bad version s"]
    by (simp add: mark_bad_def Let_def rec_set_def write_data_def data_text_def split: option.split)
qed

lemma skip_keeps_bad: "bad_list (rec_skip now reason s) = bad_list s"
  by (simp add: bad_list_def rec_skip_def rec_set_def data_text_def split: option.split)



end
