(* ===== verification/Update_Watch.thy ===== *)
theory Update_Watch
  imports Update
begin

text \<open>
  The watch over a fresh install, \<open>src/src/update.rs\<close>: the failures file and its two readings, the
  start and the end of a watched hook, the rollback, and what the updater says about itself. A hook
  is a process; the file is what they share, so it is text here and every operation parses and
  prints it.
\<close>

section \<open>The failures file\<close>

record failures =
  fl_version :: rstr
  fl_count :: nat
  fl_pids :: "nat list"

definition u32_inc :: "nat \<Rightarrow> nat" where "u32_inc n = (n + 1) mod 2 ^ 32"

definition fresh_failures :: "rstr \<Rightarrow> failures" where
  "fresh_failures v = \<lparr>fl_version = v, fl_count = 0, fl_pids = []\<rparr>"

definition parse_failures :: "rstr \<Rightarrow> failures" where
  "parse_failures text =
     (let ls = text_lines text;
          head = split_whitespace (if ls = [] then [] else hd ls)
      in \<lparr>fl_version = (case head of [] \<Rightarrow> [] | v # _ \<Rightarrow> v),
          fl_count = (case head of _ # n # _ \<Rightarrow> (case parse_u32 n of Some k \<Rightarrow> k | None \<Rightarrow> 0) | _ \<Rightarrow> 0),
          fl_pids = List.map_filter (\<lambda>l. case strip_pre l (lit ''pid '') of None \<Rightarrow> None | Some t \<Rightarrow> parse_u32 (trim t)) (tl ls)\<rparr>)"

definition render_failures :: "failures \<Rightarrow> rstr" where
  "render_failures f =
     fl_version f @ [32] @ dec (fl_count f) @ [10] @ concat (map (\<lambda>p. lit ''pid '' @ dec p @ [10]) (fl_pids f))"

definition begin_one :: "nat \<Rightarrow> (nat \<Rightarrow> bool) \<Rightarrow> nat \<Rightarrow> failures \<Rightarrow> failures" where
  "begin_one me alive pid f =
     (if pid = me \<or> alive pid then f\<lparr>fl_pids := fl_pids f @ [pid]\<rparr> else f\<lparr>fl_count := u32_inc (fl_count f)\<rparr>)"

definition begin_hook :: "rstr \<Rightarrow> nat \<Rightarrow> (nat \<Rightarrow> bool) \<Rightarrow> failures \<Rightarrow> nat \<times> failures" where
  "begin_hook running me alive f0 =
     (let f1 = (if fl_version f0 \<noteq> running then fresh_failures running else f0);
          f2 = fold (begin_one me alive) (fl_pids f1) (f1\<lparr>fl_pids := []\<rparr>);
          f3 = (if me \<in> set (fl_pids f2) then f2 else f2\<lparr>fl_pids := fl_pids f2 @ [me]\<rparr>)
      in (fl_count f3, f3))"

definition end_hook :: "rstr \<Rightarrow> nat \<Rightarrow> bool \<Rightarrow> failures \<Rightarrow> nat \<times> failures" where
  "end_hook running me succeeded f0 =
     (let f1 = (if fl_version f0 \<noteq> running then fresh_failures running else f0);
          f2 = f1\<lparr>fl_pids := filter (\<lambda>p. p \<noteq> me) (fl_pids f1)\<rparr>;
          f3 = f2\<lparr>fl_count := (if succeeded then 0 else u32_inc (fl_count f2))\<rparr>
      in (fl_count f3, f3))"

text \<open>\<open>locked_failures\<close>: \<open>None\<close> when the file or its lock cannot be had.\<close>

definition locked_failures :: "bool \<Rightarrow> (failures \<Rightarrow> nat \<times> failures) \<Rightarrow> upd \<Rightarrow> nat option \<times> upd" where
  "locked_failures lock f s =
     (if \<not> lock then (None, s)
      else case f (parse_failures (data_text ''update.failures'' s)) of
        (n, fails) \<Rightarrow> (Some n, write_data ''update.failures'' (render_failures fails) s))"

section \<open>A watched hook\<close>

definition FAIL_LIMIT :: nat where "FAIL_LIMIT = 3"
definition WINDOW_MS :: int where "WINDOW_MS = 3600 * 1000"

definition installed_recently :: "rstr \<Rightarrow> rstr \<Rightarrow> int \<Rightarrow> bool" where
  "installed_recently value running now_ms =
     (case split_whitespace value of
        version # at # _ \<Rightarrow>
          (case parse_i64 at of None \<Rightarrow> False
           | Some t \<Rightarrow> version = running \<and> 0 < t \<and> sat_sub now_ms t < WINDOW_MS)
      | _ \<Rightarrow> False)"

text \<open>\<open>fresh\<close> is the age of the executable, \<open>lock\<close> the file's lock. The result is the guard: whether the
  count was already at the limit.\<close>

definition hook_begin :: "world \<Rightarrow> bool \<Rightarrow> bool \<Rightarrow> (nat \<Rightarrow> bool) \<Rightarrow> upd \<Rightarrow> bool option \<times> upd" where
  "hook_begin w fresh lock alive s =
     (if \<not> fresh then (None, s)
      else case map_of (u_data s) (lit ''update.installed'') of None \<Rightarrow> (None, s)
      | Some installed \<Rightarrow>
          if \<not> installed_recently installed (w_running w) (w_now w * 1000) then (None, s)
          else case locked_failures lock (begin_hook (w_running w) (w_pid w) alive) s of
            (None, s') \<Rightarrow> (None, s') | (Some n, s') \<Rightarrow> (Some (FAIL_LIMIT \<le> n), s'))"

definition check_prev :: "world \<Rightarrow> path \<Rightarrow> nat \<Rightarrow> rstr \<Rightarrow> unit run_step" where
  "check_prev w dir euid prev_version =
     bind (get_or (w_meta w (dir @ [BRAIN_PREV])) (skip_as ''rollback-unavailable'')) (\<lambda>m.
     bind (guard (m_kind m = Plain_file \<and> m_uid m = euid \<and> prev_version \<noteq> []) (skip_as ''rollback-unavailable'')) (\<lambda>_.
     bind (ask (\<lambda>s. map_of (u_bin s) BRAIN_PREV)) (\<lambda>f.
     bind (get_or f (skip_as ''rollback-unavailable'')) (\<lambda>prev.
     bind (execute w prev ''--version'') (\<lambda>out.
       guard (case out of None \<Rightarrow> False | Some text \<Rightarrow> version_output_matches text prev_version) (skip_as ''rollback-unavailable''))))))"

definition restore_prev :: "world \<Rightarrow> unit run_step" where
  "restore_prev w =
     bind (effect (\<lambda>s. set_bin (dir_del (rollback_tmp (w_pid w)) (u_bin s)) s)) (\<lambda>_.
     bind (ask (\<lambda>s. map_of (u_bin s) BRAIN_PREV)) (\<lambda>f.
     bind (get_or f (skip_as ''rollback-unavailable'')) (\<lambda>prev.
     bind (guard (w_link_ok w \<or> w_copy_ok w) (skip_as ''rollback-unavailable'')) (\<lambda>_.
     bind (effect (\<lambda>s. set_bin (dir_put (rollback_tmp (w_pid w)) prev (u_bin s)) s)) (\<lambda>_.
       if w_rename_ok w
       then effect (\<lambda>s. set_bin (dir_put BRAIN prev (dir_del (rollback_tmp (w_pid w)) (u_bin s))) s)
       else bind (effect (\<lambda>s. set_bin (dir_del (rollback_tmp (w_pid w)) (u_bin s)) s)) (\<lambda>_.
              stop_with (skip_as ''rollback-unavailable'')))))))"

definition unavailable :: "rstr + 'a \<Rightarrow> 'a option" where
  "unavailable r = (case r of Inl _ \<Rightarrow> None | Inr a \<Rightarrow> Some a)"

definition roll_back_steps :: "world \<Rightarrow> rstr \<Rightarrow> unit run_step" where
  "roll_back_steps w prev =
     bind (get_or (w_exe w) (skip_as ''rollback-unavailable'')) (\<lambda>exe.
     bind (get_or (w_bin_dir w) (skip_as ''rollback-unavailable'')) (\<lambda>bin.
     bind (get_or (unavailable (install_dir w exe bin)) (skip_as ''rollback-unavailable'')) (\<lambda>dir.
     bind (get_or (w_euid w) (skip_as ''rollback-unavailable'')) (\<lambda>euid.
     bind (guard (bin_safety w dir euid) (skip_as ''rollback-unavailable'')) (\<lambda>_.
     bind (check_prev w dir euid prev) (\<lambda>_.
     bind (effect (mark_bad (w_running w))) (\<lambda>_. restore_prev w)))))))"

definition rollback :: "world \<Rightarrow> bool \<Rightarrow> upd \<Rightarrow> upd" where
  "rollback w lock s =
     (if \<not> lock then s
      else
        let s1 = (if installed_recently (data_text ''update.installed'' s) (w_running w) (w_now w * 1000)
          then let prev = trim (data_text ''update.prev'' s)
               in case roll_back_steps w prev s of
                 (Inr _, s') \<Rightarrow>
                   let closed = prev @ lit '' 0''
                   in rec_skip (w_now w) (lit ''rolled-back'')
                        (write_data ''update.installed'' closed (rec_set ''update_installed'' closed s'))
               | (Inl e, s') \<Rightarrow> record_stop (w_now w) e s'
          else s)
        in s1\<lparr>u_data := filter (\<lambda>f. fst f \<noteq> lit ''update.failures'') (u_data s1)\<rparr>)"

text \<open>\<open>HookGuard::end\<close>: whether a rollback is asked for, and the state it leaves.\<close>

definition hook_end :: "world \<Rightarrow> bool \<Rightarrow> bool \<Rightarrow> bool \<Rightarrow> upd \<Rightarrow> bool \<times> upd" where
  "hook_end w over lock succeeded s =
     (case locked_failures lock (end_hook (w_running w) (w_pid w) succeeded) s of
        (n, s') \<Rightarrow> (over \<or> (case n of None \<Rightarrow> False | Some k \<Rightarrow> FAIL_LIMIT \<le> k), s'))"

definition watched_end :: "world \<Rightarrow> bool \<Rightarrow> bool \<Rightarrow> bool \<Rightarrow> bool \<Rightarrow> upd \<Rightarrow> upd" where
  "watched_end w over lock update_lock succeeded s =
     (case hook_end w over lock succeeded s of (asked, s') \<Rightarrow> if asked then rollback w update_lock s' else s')"

section \<open>What the updater says\<close>

datatype readiness = Off rstr | NoKey | Elsewhere | Ready

text \<open>\<open>auto\<close> is the configuration, \<open>no_update\<close> the environment variable's text.\<close>

definition update_enabled :: "bool \<Rightarrow> bool \<Rightarrow> rstr \<Rightarrow> bool" where
  "update_enabled unix auto no_update =
     (unix \<and> map ascii_lower (trim no_update) \<in> {[], lit ''0'', lit ''false''} \<and> auto)"

definition off_reason :: "bool \<Rightarrow> bool \<Rightarrow> rstr \<Rightarrow> readiness" where
  "off_reason unix auto no_update =
     (if \<not> unix then Off (lit ''not available on this platform'')
      else if \<not> update_enabled unix auto no_update
      then Off (if auto then lit ''ROLEPOD_BRAIN_NO_UPDATE is set'' else lit ''auto = false in config'')
      else Ready)"

definition update_readiness :: "world \<Rightarrow> bool \<Rightarrow> bool \<Rightarrow> rstr \<Rightarrow> rstr \<Rightarrow> rstr \<Rightarrow> readiness" where
  "update_readiness w unix auto no_update os arch =
     (if off_reason unix auto no_update \<noteq> Ready then off_reason unix auto no_update
      else if platform_target os arch = None then Off (lit ''no release build for this platform'')
      else if w_key w = None then NoKey
      else if (case (w_exe w, w_bin_dir w) of (Some exe, Some bin) \<Rightarrow> unavailable (install_dir w exe bin) \<noteq> None | _ \<Rightarrow> False)
      then Ready else Elsewhere)"

definition STOP_TEXTS :: "(rstr \<times> rstr) list" where
  "STOP_TEXTS = map (\<lambda>(a, b). (lit a, lit b))
    [(''bad-tag'', ''the latest release has a tag brain cannot read''),
     (''prerelease'', ''the latest release is a pre-release''),
     (''running-unparsable'', ''this brain's own version cannot be read''),
     (''marked-bad'', ''the latest release failed its self-test here before, so it is skipped''),
     (''published-unknown'', ''the latest release has no readable publish time; it waits until it has one''),
     (''not-bootstrap-install'', ''this brain was not installed by the bootstrap script, so it is not replaced''),
     (''bin-unsafe'', ''the install directory or the brain file is not yours or is writable by others''),
     (''staging-failed'', ''could not create a staging file next to brain''),
     (''no-key'', ''this build has no signing key to check releases with''),
     (''bad-key'', ''this build's signing key cannot be read''),
     (''fetch-failed'', ''could not fetch the release information''),
     (''unsigned'', ''the latest release has no signature''),
     (''download-failed'', ''the download failed or was too large''),
     (''bad-signature'', ''the signature does not match the download''),
     (''signed-target-mismatch'', ''the signature is for another platform''),
     (''signed-version-mismatch'', ''the signed version is not the release's version''),
     (''codesign-failed'', ''the new binary could not be code-signed''),
     (''staging-changed'', ''the downloaded file changed before it was placed''),
     (''place-failed'', ''the new binary could not be put in place''),
     (''selftest-version'', ''the new binary reports a different version than it was signed as''),
     (''selftest-failed'', ''the new binary failed its self-test'')]"

definition stop_text :: "stop \<Rightarrow> rstr" where
  "stop_text e =
     lit ''not updated: '' @
     (let why = (\<lambda>reason. case map_of STOP_TEXTS reason of Some t \<Rightarrow> t
                 | None \<Rightarrow> lit ''the update stopped for an unexpected reason'')
      in case e of
           Stop_young age \<Rightarrow>
             lit ''the latest release was published ''
             @ (if age < 3600 then lit ''under an hour ago'' else dec_int (age div 3600) @ lit '' h ago'')
             @ lit ''; it installs once it is a day old''
         | Stop_skip reason \<Rightarrow> why reason
         | Stop_bad reason _ \<Rightarrow> why reason)"

section \<open>Reading back what was written\<close>

lemma parse_u32_dec: "n < 2 ^ 32 \<Longrightarrow> parse_u32 (dec n) = Some n"
  by (simp add: parse_u32_def parse_u64_dec U64_MAX_def)

lemma dec_one_word: "one_word (dec n)"
proof -
  have "\<not> is_ws c" if "is_ascii_digit c" for c using that by (auto simp: is_ws_def is_ascii_digit_def)
  then show ?thesis using dec_digits by (auto simp: one_word_def list_all_iff)
qed

lemma trim_word: "one_word w \<Longrightarrow> trim w = w"
  by (simp add: one_word_def trim_plain)

lemma text_lines_Cons:
  assumes "10 \<notin> set l" "l \<noteq> [] \<Longrightarrow> last l \<noteq> 13"
  shows "text_lines (l @ 10 # rest) = l # text_lines rest"
proof -
  have "split_on (\<lambda>c. c = 10) (l @ 10 # rest) = l # split_on (\<lambda>c. c = 10) rest"
    using assms(1) split_acc_plain [of l "\<lambda>c. c = 10" "[]"] by (auto simp: split_on_def split_acc_append)
  moreover have "split_on (\<lambda>c. c = 10) rest \<noteq> []"
    by (simp add: split_on_def split_acc_ne)
  moreover have "strip_cr l = l" using assms(2) by (auto simp: strip_cr_def)
  ultimately show ?thesis by (simp add: text_lines_def Let_def)
qed

lemma word_line:
  assumes "one_word a" "one_word b"
  shows "10 \<notin> set (a @ [32] @ b)" "last (a @ [32] @ b) \<noteq> 13" "split_whitespace (a @ [32] @ b) = [a, b]"
proof -
  have "is_ws 10" "is_ws 13" by (simp_all add: is_ws_def)
  moreover have "\<not> is_ws (last b)" using assms(2) by (simp add: one_word_def list_all_iff)
  then have "last b \<noteq> 13" using \<open>is_ws 13\<close> by auto
  ultimately show "10 \<notin> set (a @ [32] @ b)" "last (a @ [32] @ b) \<noteq> 13"
    using assms by (auto simp: one_word_def list_all_iff)
  show "split_whitespace (a @ [32] @ b) = [a, b]" using split_join_spaces [of "[a, b]"] assms by simp
qed

lemma pid_lines:
  "list_all (\<lambda>p. p < 2 ^ 32) ps \<Longrightarrow>
   text_lines (concat (map (\<lambda>p. lit ''pid '' @ dec p @ [10]) ps)) = map (\<lambda>p. lit ''pid '' @ dec p) ps"
proof (induction ps)
  case Nil
  then show ?case by (simp add: text_lines_def split_on_def)
next
  case (Cons p ps)
  have d: "10 \<notin> set (dec p)" "last (dec p) \<noteq> 13"
    using dec_digits [of 10 p] dec_digits [of "last (dec p)" p] by (auto simp: is_ascii_digit_def)
  have "10 \<notin> set (lit ''pid '' @ dec p)" "last (lit ''pid '' @ dec p) \<noteq> 13" using d by (simp_all add: lit_def)
  then show ?case using Cons text_lines_Cons [of "lit ''pid '' @ dec p" "concat (map (\<lambda>p. lit ''pid '' @ dec p @ [10]) ps)"] by simp
qed

lemma parse_render:
  assumes "one_word (fl_version f)" "fl_count f < 2 ^ 32" "list_all (\<lambda>p. p < 2 ^ 32) (fl_pids f)"
  shows "parse_failures (render_failures f) = f"
proof -
  let ?head = "fl_version f @ [32] @ dec (fl_count f)"
  note wl = word_line [OF assms(1) dec_one_word [of "fl_count f"]]
  have "text_lines (render_failures f) = ?head # map (\<lambda>p. lit ''pid '' @ dec p) (fl_pids f)"
    using text_lines_Cons [OF wl(1), of "concat (map (\<lambda>p. lit ''pid '' @ dec p @ [10]) (fl_pids f))"] wl(2) pid_lines [OF assms(3)]
    by (simp add: render_failures_def)
  moreover have "List.map_filter (\<lambda>l. case strip_pre l (lit ''pid '') of None \<Rightarrow> None | Some t \<Rightarrow> parse_u32 (trim t))
      (map (\<lambda>p. lit ''pid '' @ dec p) ps) = ps" if "list_all (\<lambda>p. p < 2 ^ 32) ps" for ps
    using that
  proof (induction ps)
    case (Cons p ps)
    have "strip_pre (lit ''pid '' @ dec p) (lit ''pid '') = Some (dec p)" by (simp add: strip_pre_Some)
    then show ?case using Cons by (simp add: trim_word dec_one_word parse_u32_dec List.map_filter_def)
  qed (simp add: List.map_filter_def)
  ultimately show ?thesis using wl(3) assms by (simp add: parse_failures_def Let_def parse_u32_dec)
qed

section \<open>Three in a row\<close>

datatype hook_fate = Returned bool | Killed

text \<open>One hook of the watched version from start to end, no other hook running: it returns with or
  without an error, or it dies without a word.\<close>

definition one_hook :: "world \<Rightarrow> nat \<times> hook_fate \<Rightarrow> upd \<Rightarrow> bool \<times> upd" where
  "one_hook w = (\<lambda>(me, fate) s.
     let v = w\<lparr>w_pid := me\<rparr>
     in case hook_begin v True True (\<lambda>_. False) s of
          (None, s1) \<Rightarrow> (False, s1)
        | (Some over, s1) \<Rightarrow> (case fate of Killed \<Rightarrow> (False, s1) | Returned good \<Rightarrow> hook_end v over True good s1))"

definition run_hooks :: "world \<Rightarrow> (nat \<times> hook_fate) list \<Rightarrow> upd \<Rightarrow> upd" where
  "run_hooks w hs s = fold (\<lambda>h s. snd (one_hook w h s)) hs s"

text \<open>How many hooks, counted from the last, did not return well.\<close>

definition failing :: "(nat \<times> hook_fate) list \<Rightarrow> nat" where
  "failing hs = length (takeWhile (\<lambda>h. snd h \<noteq> Returned True) (rev hs))"

lemma failing_snoc: "failing (hs @ [h]) = (if snd h = Returned True then 0 else Suc (failing hs))"
  by (simp add: failing_def)

lemma failing_le: "failing hs \<le> length hs"
  by (metis failing_def length_rev length_takeWhile_le)

definition watching :: "rstr \<Rightarrow> (nat \<times> hook_fate) list \<Rightarrow> failures \<Rightarrow> bool" where
  "watching running hs f =
     (if hs = [] then fl_version f \<noteq> running
      else f = (if snd (last hs) = Killed
                then \<lparr>fl_version = running, fl_count = failing hs - 1, fl_pids = [fst (last hs)]\<rparr>
                else \<lparr>fl_version = running, fl_count = failing hs, fl_pids = []\<rparr>))"

lemma begin_watching:
  assumes "watching running hs f" "hs \<noteq> [] \<Longrightarrow> fst (last hs) \<noteq> me" "length hs < 2 ^ 32"
  shows "begin_hook running me (\<lambda>_. False) f = (failing hs, \<lparr>fl_version = running, fl_count = failing hs, fl_pids = [me]\<rparr>)"
proof (cases hs rule: rev_cases)
  case Nil
  then show ?thesis using assms(1) by (simp add: watching_def begin_hook_def fresh_failures_def failing_def)
next
  case (snoc hs0 h)
  have "Suc (failing hs0) < 2 ^ 32" using assms(3) failing_le [of hs0] by (simp add: snoc)
  then show ?thesis using assms(1,2)
    by (auto simp: watching_def begin_hook_def begin_one_def u32_inc_def snoc failing_snoc Let_def split: if_splits)
qed

lemma data_write [simp]:
  "data_text n (write_data n x s) = x" "map_of (u_data (write_data n x s)) (lit m) = (if m = n then Some x else map_of (u_data s) (lit m))"
  by (auto simp: data_text_def write_data_def map_of_filter_ne)

abbreviation "failures_of s \<equiv> parse_failures (data_text ''update.failures'' s)"
abbreviation "installed_of s \<equiv> map_of (u_data s) (lit ''update.installed'')"

lemma one_hook_watching:
  fixes fate
  assumes word: "one_word (w_running w)" and inst: "installed_of s = Some installed" "installed_recently installed (w_running w) (w_now w * 1000)"
    and st: "watching (w_running w) hs (failures_of s)"
    and pid: "hs \<noteq> [] \<Longrightarrow> fst (last hs) \<noteq> me" "me < 2 ^ 32" and len: "Suc (length hs) < 2 ^ 32"
  defines "res \<equiv> one_hook w (me, fate) s"
  shows "fst res = (case fate of Killed \<Rightarrow> False | Returned good \<Rightarrow> 3 \<le> failing hs \<or> \<not> good \<and> 2 \<le> failing hs)
    \<and> watching (w_running w) (hs @ [(me, fate)]) (failures_of (snd res)) \<and> installed_of (snd res) = Some installed"
proof -
  let ?v = "w\<lparr>w_pid := me\<rparr>" and ?r = "w_running w"
  let ?f1 = "\<lparr>fl_version = ?r, fl_count = failing hs, fl_pids = [me]\<rparr>"
  let ?s1 = "write_data ''update.failures'' (render_failures ?f1) s"
  have small: "Suc (failing hs) < 2 ^ 32" using len failing_le [of hs] by simp
  have f1: "parse_failures (render_failures ?f1) = ?f1" using parse_render [of ?f1] word small pid(2) by simp
  have b: "hook_begin ?v True True (\<lambda>_. False) s = (Some (3 \<le> failing hs), ?s1)"
    using inst begin_watching [OF st pid(1)] len by (simp add: hook_begin_def locked_failures_def FAIL_LIMIT_def)
  show ?thesis
  proof (cases fate)
    case Killed
    then have "res = (False, ?s1)" by (simp add: res_def one_hook_def b)
    then show ?thesis using Killed f1 inst(1) by (simp add: watching_def failing_snoc)
  next
    case (Returned good)
    let ?n = "if good then 0 else Suc (failing hs)"
    let ?f2 = "\<lparr>fl_version = ?r, fl_count = ?n, fl_pids = []\<rparr>"
    have e: "end_hook ?r me good ?f1 = (?n, ?f2)" using small by (simp add: end_hook_def u32_inc_def)
    let ?s2 = "write_data ''update.failures'' (render_failures ?f2) ?s1"
    have "res = (3 \<le> failing hs \<or> 3 \<le> ?n, ?s2)"
      by (simp add: res_def one_hook_def b Returned hook_end_def locked_failures_def f1 e [simplified] FAIL_LIMIT_def)
    moreover have "parse_failures (render_failures ?f2) = ?f2" using parse_render [of ?f2] word small by simp
    ultimately show ?thesis using Returned inst(1) by (auto simp: watching_def failing_snoc)
  qed
qed

lemma run_hooks_watching:
  assumes "one_word (w_running w)" "installed_of s = Some installed" "installed_recently installed (w_running w) (w_now w * 1000)"
    "fl_version (failures_of s) \<noteq> w_running w"
    "distinct (map fst hs)" "list_all (\<lambda>h. fst h < 2 ^ 32) hs" "length hs < 2 ^ 32"
  shows "watching (w_running w) hs (failures_of (run_hooks w hs s)) \<and> installed_of (run_hooks w hs s) = Some installed"
  using assms(5-)
proof (induction hs rule: rev_induct)
  case Nil
  then show ?case using assms(2,4) by (simp add: run_hooks_def watching_def)
next
  case (snoc h hs)
  obtain me fate where h: "h = (me, fate)" by (cases h)
  have "fst (last hs) \<noteq> me" if "hs \<noteq> []" using snoc.prems(1) that last_in_set [of hs] by (force simp: h)
  then show ?case
    using one_hook_watching [OF assms(1) _ assms(3), of "run_hooks w hs s" hs me fate] snoc
    by (simp add: h run_hooks_def)
qed



text \<open>A rollback never leaves the install directory without a \<open>brain\<close>, and either changes nothing or
  puts the saved binary back, after checking that it says it is the version the updater replaced.\<close>

lemma rollback_names [simp]:
  "rollback_tmp p \<noteq> BRAIN" "BRAIN \<noteq> rollback_tmp p" "BRAIN_PREV \<noteq> rollback_tmp p" "rollback_tmp p \<noteq> BRAIN_PREV"
  by (simp_all add: rollback_tmp_def BRAIN_def BRAIN_PREV_def lit_def)

lemma restore_wp:
  assumes "map_of (u_bin s) BRAIN \<noteq> None" "runnable s"
  shows "wp (restore_prev w)
    (\<lambda>r s'. runnable s' \<and> (case r of Inl _ \<Rightarrow> map_of (u_bin s') BRAIN = map_of (u_bin s) BRAIN
       | Inr _ \<Rightarrow> map_of (u_bin s') BRAIN = map_of (u_bin s) BRAIN_PREV \<and> map_of (u_bin s') BRAIN \<noteq> None)) s"
  unfolding restore_prev_def using assms
  by (cases "w_rename_ok w") (simp_all, (intro wp_rules; auto simp: set_bin_def runnable_def)+)

lemma check_prev_wp:
  "wp (check_prev w dir euid prev) (\<lambda>r s'. u_bin s' = u_bin s \<and> u_dirs s' = u_dirs s \<and>
     (case r of Inl _ \<Rightarrow> True | Inr _ \<Rightarrow> (\<exists>f out. map_of (u_bin s) BRAIN_PREV = Some f
         \<and> w_output w f (lit ''--version'') = Some out \<and> version_output_matches out prev))) s"
  unfolding check_prev_def execute_def bind_assoc
  by (intro wp_rules) (auto simp: wp_def bind_def effect_def ok_def guard_def stop_with_def split: option.split)

theorem rollback_restores_the_recorded_version:
  assumes "map_of (u_bin s) BRAIN \<noteq> None" "runnable s"
  shows "wp (roll_back_steps w prev)
    (\<lambda>r s'. runnable s' \<and> map_of (u_bin s') BRAIN \<noteq> None \<and>
       (case r of Inl _ \<Rightarrow> map_of (u_bin s') BRAIN = map_of (u_bin s) BRAIN
        | Inr _ \<Rightarrow> (\<exists>f out. map_of (u_bin s') BRAIN = Some f \<and> map_of (u_bin s) BRAIN_PREV = Some f
            \<and> w_output w f (lit ''--version'') = Some out \<and> version_output_matches out prev))) s"
  unfolding roll_back_steps_def
proof (intro wp_bind_get_or wp_bind_step(3), goal_cases)
  case (1 exe bin dir euid)
  show ?case
  proof (rule wp_bind [OF check_prev_wp], goal_cases)
    case (1 a s1)
    then show ?case using assms
      by (intro wp_bind_step(1) wp_mono [OF restore_wp]) (auto simp: runnable_def split: sum.splits)
  next
    case (2 e s1)
    then show ?case using assms by (auto simp: runnable_def)
  qed
qed (use assms in \<open>auto simp: runnable_def\<close>)

end
