(* ===== verification/Catch_Up.thy ===== *)
theory Catch_Up
  imports Store_Index Numerals "HOL-Library.Sublist"
begin

text \<open>
  The log catch-up of \<open>src/src/consolidate.rs\<close>: \<open>print_of\<close>, \<open>catch_up_log\<close> and \<open>catch_up_index\<close>.
  A log file is the list of its bytes as they are when it is opened; what is appended later is the
  next run's. \<open>serde_json::from_slice\<close> is the parameter \<open>parse\<close>. Reads do not fail here, so the
  only error left is \<open>index\<close>'s (\<open>None\<close>, shown impossible).
\<close>

type_synonym raw = "nat list"

definition byte_list :: "raw \<Rightarrow> bool" where
  "byte_list bs = list_all (\<lambda>b. b < 256) bs"

section \<open>The fingerprint\<close>

definition CATCH_UP_BYTES :: nat where "CATCH_UP_BYTES = 256 * 2 ^ 20"
definition PRINT_BYTES :: nat where "PRINT_BYTES = 64"

record catch_up =
  cu_read :: nat
  cu_indexed :: nat

definition hex_digit :: "nat \<Rightarrow> nat" where
  "hex_digit d = (if d < 10 then 48 + d else 87 + d)"

definition hex_byte :: "nat \<Rightarrow> rstr" where
  "hex_byte b = [hex_digit (b div 16), hex_digit (b mod 16)]"

definition print_of :: "raw \<Rightarrow> nat \<Rightarrow> nat \<Rightarrow> rstr \<times> nat" where
  "print_of file from end' =
     (let bs = take (min (end' - from) PRINT_BYTES) (drop from file)
      in (concat (map hex_byte bs), length bs))"

section \<open>One file\<close>

text \<open>\<open>splitn(3, ':')\<close> with the first two parts parsed as \<open>u64\<close>.\<close>

definition parse_mark :: "rstr \<Rightarrow> (nat \<times> nat \<times> rstr) option" where
  "parse_mark s =
     (case split_once [58] s of None \<Rightarrow> None
      | Some (p1, r1) \<Rightarrow>
          (case split_once [58] r1 of None \<Rightarrow> None
           | Some (p2, p3) \<Rightarrow>
               (case (parse_u64 p1, parse_u64 p2) of
                  (Some e, Some f) \<Rightarrow> Some (e, f, p3)
                | _ \<Rightarrow> None)))"

definition render_mark :: "nat \<Rightarrow> nat \<Rightarrow> rstr \<Rightarrow> rstr" where
  "render_mark e f print = dec e @ [58] @ dec f @ [58] @ print"

definition log_watermark :: "rstr \<Rightarrow> store \<Rightarrow> rstr option" where
  "log_watermark key db = state_get key db"

definition set_log_watermark :: "rstr \<Rightarrow> rstr \<Rightarrow> store \<Rightarrow> store" where
  "set_log_watermark key v db = set_state key v db"

definition log_key :: "rstr \<Rightarrow> rstr" where
  "log_key path = lit ''log_tail:'' @ path"

definition has_event :: "rstr \<Rightarrow> store \<Rightarrow> bool" where
  "has_event i db = list_ex (\<lambda>r. r_id r = i) (events db)"

text \<open>Where the read starts: \<open>(start, last, bytes read)\<close>.\<close>

definition resume_at :: "raw \<Rightarrow> rstr option \<Rightarrow> nat \<times> nat \<times> nat" where
  "resume_at file stored =
     (case parse_mark (case stored of None \<Rightarrow> [] | Some s \<Rightarrow> s) of
        None \<Rightarrow> (0, 0, 0)
      | Some (e, f, print) \<Rightarrow>
          (if f \<le> e \<and> e \<le> length file
           then (let (now, n) = print_of file f e in
                 if now = print then (e, f, n) else (0, 0, n))
           else (0, 0, 0)))"

text \<open>\<open>read_until(b'\n')\<close>: the line with its newline and what follows; \<open>None\<close> when the read ended first.\<close>

fun read_until_nl :: "raw \<Rightarrow> (raw \<times> raw) option" where
  "read_until_nl [] = None"
| "read_until_nl (b # bs) =
     (if b = 10 then Some ([b], bs)
      else map_option (\<lambda>(l, r). (b # l, r)) (read_until_nl bs))"

lemma read_until_nl_Some: "read_until_nl bs = Some (l, r) \<Longrightarrow> bs = l @ r \<and> l \<noteq> []"
  by (induction bs arbitrary: l) (auto split: if_splits)

text \<open>The read loop: \<open>(consumed, lastp, indexed, store)\<close>. The budget is looked at before each line.\<close>

function (sequential) read_loop ::
    "extern \<Rightarrow> (raw \<Rightarrow> event option) \<Rightarrow> nat \<Rightarrow> nat \<Rightarrow> raw \<Rightarrow> nat \<Rightarrow> nat \<Rightarrow> nat \<Rightarrow> store
     \<Rightarrow> (nat \<times> nat \<times> nat \<times> store) option" where
  "read_loop x parse start budget rest consumed lastp indexed db =
     (if \<not> consumed < budget then Some (consumed, lastp, indexed, db)
      else case read_until_nl rest of
             None \<Rightarrow> Some (consumed, lastp, indexed, db)
           | Some (line, rest') \<Rightarrow>
               (let lastp' = start + consumed; consumed' = consumed + length line in
                case parse line of
                  None \<Rightarrow> read_loop x parse start budget rest' consumed' lastp' indexed db
                | Some e \<Rightarrow>
                    (if has_event (ev_id e) db
                     then read_loop x parse start budget rest' consumed' lastp' indexed db
                     else case index x e db of
                            None \<Rightarrow> None
                          | Some db' \<Rightarrow> read_loop x parse start budget rest' consumed' lastp' (Suc indexed) db')))"
  by pat_completeness auto
termination
  by (relation "measure (\<lambda>(_, _, _, _, rest, _). length rest)")
    (auto dest!: read_until_nl_Some)

declare read_loop.simps [simp del]

definition catch_up_log ::
    "extern \<Rightarrow> (raw \<Rightarrow> event option) \<Rightarrow> rstr \<Rightarrow> raw \<Rightarrow> nat \<Rightarrow> store \<Rightarrow> (catch_up \<times> store) option" where
  "catch_up_log x parse path file budget db =
     (let key = log_key path; (start, lastp, n) = resume_at file (log_watermark key db) in
      if start = length file then Some (\<lparr>cu_read = n, cu_indexed = 0\<rparr>, db)
      else case read_loop x parse start budget (drop start file) 0 lastp 0 db of
             None \<Rightarrow> None
           | Some (consumed, lastp', indexed, db') \<Rightarrow>
               (let end' = start + consumed; (print, m) = print_of file lastp' end' in
                Some (\<lparr>cu_read = n + consumed + m, cu_indexed = indexed\<rparr>,
                      set_log_watermark key (render_mark end' lastp' print) db')))"

section \<open>All the files of a round\<close>

text \<open>
  \<open>catch_up_index\<close> over the files of the project directories, each with its path; an
  unreadable file is \<open>None\<close> and is passed over. \<open>late n\<close> is whether the deadline has passed when
  the \<open>n\<close>-th file comes up.
\<close>

fun catch_up_index ::
    "extern \<Rightarrow> (raw \<Rightarrow> event option) \<Rightarrow> (nat \<Rightarrow> bool) \<Rightarrow> nat \<Rightarrow> (rstr \<times> raw option) list \<Rightarrow> catch_up
     \<Rightarrow> store \<Rightarrow> (catch_up \<times> store) option" where
  "catch_up_index x parse late n [] tot db = Some (tot, db)"
| "catch_up_index x parse late n ((path, content) # fs) tot db =
     (let budget = CATCH_UP_BYTES - cu_read tot in
      if budget = 0 \<or> late n then Some (tot, db)
      else case content of
             None \<Rightarrow> catch_up_index x parse late (Suc n) fs tot db
           | Some file \<Rightarrow>
               (case catch_up_log x parse path file budget db of
                  None \<Rightarrow> None
                | Some (c, db') \<Rightarrow>
                    catch_up_index x parse late (Suc n) fs
                      \<lparr>cu_read = cu_read tot + cu_read c, cu_indexed = cu_indexed tot + cu_indexed c\<rparr> db'))"


section \<open>The lines of a log\<close>

function nl_lines :: "raw \<Rightarrow> raw list" where
  "nl_lines bs = (case read_until_nl bs of None \<Rightarrow> [] | Some (l, r) \<Rightarrow> l # nl_lines r)"
  by pat_completeness auto
termination by (relation "measure length") (auto dest!: read_until_nl_Some)

declare nl_lines.simps [simp del]

definition line_events :: "(raw \<Rightarrow> event option) \<Rightarrow> raw list \<Rightarrow> event list" where
  "line_events parse ls = List.map_filter parse ls"

definition is_line :: "raw \<Rightarrow> bool" where
  "is_line l = (l \<noteq> [] \<and> last l = 10 \<and> 10 \<notin> set (butlast l))"

lemma line_events_simps [simp]:
  "line_events parse [] = []"
  "line_events parse (a @ b) = line_events parse a @ line_events parse b"
  "line_events parse (l # ls) = (case parse l of None \<Rightarrow> line_events parse ls | Some e \<Rightarrow> e # line_events parse ls)"
  by (simp_all add: line_events_def map_filter_simps map_filter_app split: option.splits)

lemma read_until_nl_None: "read_until_nl bs = None \<longleftrightarrow> 10 \<notin> set bs"
  by (induction bs) auto

lemma read_until_nl_is_line: "read_until_nl bs = Some (l, r) \<Longrightarrow> is_line l"
  by (induction bs arbitrary: l) (auto simp: is_line_def split: if_splits dest: read_until_nl_Some)

lemma read_until_nl_line: "is_line l \<Longrightarrow> read_until_nl (l @ r) = Some (l, r)"
proof (induction l)
  case (Cons b l)
  then show ?case by (cases "l = []") (auto simp: is_line_def)
qed (simp add: is_line_def)

lemma nl_lines_Nil [simp]: "10 \<notin> set bs \<Longrightarrow> nl_lines bs = []"
  by (simp add: nl_lines.simps read_until_nl_None [THEN iffD2])

lemma nl_lines_line: "is_line l \<Longrightarrow> nl_lines (l @ r) = l # nl_lines r"
  by (subst nl_lines.simps) (simp add: read_until_nl_line)

lemma nl_lines_concat: "list_all is_line ls \<Longrightarrow> nl_lines (concat ls @ r) = ls @ nl_lines r"
  by (induction ls) (auto simp: nl_lines_line)

lemma nl_lines_split: "list_all is_line (nl_lines bs) \<and> (\<exists>t. bs = concat (nl_lines bs) @ t \<and> 10 \<notin> set t)"
proof (induction bs rule: nl_lines.induct)
  case (1 bs)
  show ?case
  proof (cases "read_until_nl bs")
    case None
    then have "10 \<notin> set bs" by (simp add: read_until_nl_None)
    then show ?thesis by simp
  next
    case (Some lr)
    then obtain l r where lr: "read_until_nl bs = Some (l, r)" by (cases lr) auto
    then have "nl_lines bs = l # nl_lines r" by (simp add: nl_lines.simps [of bs])
    then show ?thesis using 1 [OF lr refl] read_until_nl_Some [OF lr] read_until_nl_is_line [OF lr] by auto
  qed
qed

lemma nl_lines_are_lines: "list_all is_line (nl_lines bs)"
  using nl_lines_split by blast

lemma nl_lines_tail:
  obtains t where "bs = concat (nl_lines bs) @ t" "10 \<notin> set t"
  using nl_lines_split by blast

lemma nl_lines_append: "\<exists>more'. nl_lines (a @ g) = nl_lines a @ more'"
proof -
  obtain t where t: "a = concat (nl_lines a) @ t" using nl_lines_tail by blast
  have "nl_lines (concat (nl_lines a) @ (t @ g)) = nl_lines a @ nl_lines (t @ g)"
    by (rule nl_lines_concat [OF nl_lines_are_lines])
  then show ?thesis using t by (metis append.assoc)
qed

lemma is_line_nonempty: "is_line l \<Longrightarrow> l \<noteq> []"
  by (simp add: is_line_def)

lemma subseq_same_size:
  "subseq xs ys \<Longrightarrow> list_all (\<lambda>l. l \<noteq> []) ys \<Longrightarrow> length (concat xs) = length (concat ys) \<Longrightarrow> xs = ys"
proof (induction xs ys rule: list_emb.induct)
  case (list_emb_Cons xs ys y)
  have "length (concat xs) \<le> length (concat ys)"
    using list_emb_Cons.hyps by (induction xs ys rule: list_emb.induct) auto
  then show ?case using list_emb_Cons.prems by (cases y) auto
next
  case (list_emb_Nil ys)
  then show ?case by (cases ys) auto
next
  case (list_emb_Cons2 x y xs ys)
  then show ?case by simp
qed

lemma subseq_snoc_split:
  assumes "subseq (xs @ [l]) ys"
  obtains a b where "ys = a @ l # b" "subseq xs a"
proof -
  from list_emb_appendD [OF assms] obtain us vs where u: "ys = us @ vs" "subseq xs us" "subseq [l] vs"
    by blast
  then have "l \<in> set vs" by (simp add: subseq_singleton_left)
  then obtain c d where "vs = c @ l # d" by (meson split_list)
  moreover have "subseq xs (us @ c)" using u(2) by (rule list_emb_prefix)
  ultimately have "ys = (us @ c) @ l # d" "subseq xs (us @ c)" using u(1) by simp_all
  then show ?thesis using that by blast
qed


section \<open>What one run indexes\<close>

abbreviation event_ids :: "store \<Rightarrow> rstr set" where
  "event_ids db \<equiv> r_id ` set (events db)"

text \<open>The events whose id is neither in the store nor on an earlier line.\<close>

fun fresh :: "rstr set \<Rightarrow> event list \<Rightarrow> event list" where
  "fresh had [] = []"
| "fresh had (e # es) =
     (if ev_id e \<in> had then fresh had es else e # fresh (insert (ev_id e) had) es)"

lemma has_event_ids: "has_event i db \<longleftrightarrow> i \<in> event_ids db"
  by (auto simp: has_event_def list_ex_iff)

lemma ids_index: "index x e db = Some db' \<Longrightarrow> event_ids db' = insert (ev_id e) (event_ids db)"
proof -
  assume i: "index x e db = Some db'"
  obtain body clamped where "db' = index_with x body clamped e True db"
    using index_event_total [of x e True db] i by (auto simp: index_def)
  then have "set (map r_id (events db')) = insert (ev_id e) (set (map r_id (events db)))"
    by (simp add: events_index_with ids_index_rows del: set_map) (auto simp del: set_map)
  then show ?thesis by simp
qed

lemma fresh_ids: "ev_id ` set (fresh had es) \<union> had = ev_id ` set es \<union> had"
proof (induction es arbitrary: had)
  case (Cons e es)
  show ?case
  proof (cases "ev_id e \<in> had")
    case True
    then show ?thesis using Cons [of had] by (simp add: insert_absorb)
  next
    case False
    then show ?thesis using Cons [of "insert (ev_id e) had"] by (simp add: insert_absorb)
  qed
qed simp

lemma ids_replay: "replay x es db = Some db' \<Longrightarrow> event_ids db' = ev_id ` set es \<union> event_ids db"
proof (induction es arbitrary: db)
  case (Cons e es)
  then obtain d where d: "index x e db = Some d" "replay x es d = Some db'" by (auto split: option.splits)
  show ?case using Cons.IH [OF d(2)] ids_index [OF d(1)] by simp
qed simp

lemma fresh_new: "e \<in> set (fresh had es) \<Longrightarrow> ev_id e \<notin> had"
  by (induction es arbitrary: had) (auto split: if_splits)

lemma fresh_distinct: "distinct (map ev_id (fresh had es))"
  by (induction es arbitrary: had) (auto dest: fresh_new)

lemma read_loop_spec:
  "\<exists>ls rem db'. nl_lines rest = ls @ rem \<and>
     replay x (fresh (event_ids db) (line_events parse ls)) db = Some db' \<and>
     read_loop x parse start budget rest consumed lastp indexed db =
       Some (consumed + length (concat ls),
             (if ls = [] then lastp else start + consumed + length (concat (butlast ls))),
             indexed + length (fresh (event_ids db) (line_events parse ls)), db') \<and>
     (rem = [] \<or> budget \<le> consumed + length (concat ls)) \<and>
     (consumed < budget \<longrightarrow> nl_lines rest \<noteq> [] \<longrightarrow> ls \<noteq> [])"
proof (induction rest arbitrary: consumed lastp indexed db rule: length_induct)
  case (1 rest)
  note eq = read_loop.simps [of x parse start budget rest consumed lastp indexed db]
  show ?case
  proof (cases "consumed < budget \<and> read_until_nl rest \<noteq> None")
    case False
    then have "read_loop x parse start budget rest consumed lastp indexed db = Some (consumed, lastp, indexed, db)"
      by (cases "read_until_nl rest") (auto simp: eq)
    moreover have "nl_lines rest = [] \<or> budget \<le> consumed"
      using False by (cases "read_until_nl rest") (auto simp: nl_lines.simps [of rest])
    ultimately show ?thesis
      by (intro exI [of _ "[]"] exI [of _ "nl_lines rest"] exI [of _ db]) auto
  next
    case True
    then obtain line rest' where lr: "read_until_nl rest = Some (line, rest')" by auto
    let ?go = "\<lambda>n d. read_loop x parse start budget rest' (consumed + length line) (start + consumed) n d"
    have nl: "nl_lines rest = line # nl_lines rest'" by (simp add: nl_lines.simps [of rest] lr)
    have shorter: "length rest' < length rest" using read_until_nl_Some [OF lr] by simp
    obtain n d where go: "read_loop x parse start budget rest consumed lastp indexed db = ?go n d"
      and r: "\<And>ls. replay x (fresh (event_ids db) (line_events parse (line # ls))) db = replay x (fresh (event_ids d) (line_events parse ls)) d"
      and n: "\<And>ls. indexed + length (fresh (event_ids db) (line_events parse (line # ls))) = n + length (fresh (event_ids d) (line_events parse ls))"
    proof (cases "case parse line of None \<Rightarrow> True | Some e \<Rightarrow> has_event (ev_id e) db")
      case skip: True
      show ?thesis
      proof (rule that [of indexed db])
        show "read_loop x parse start budget rest consumed lastp indexed db = ?go indexed db"
          using True lr skip by (subst eq) (auto simp: Let_def split: option.splits)
      qed (use skip in \<open>auto simp: has_event_ids split: option.splits\<close>)
    next
      case False
      then obtain e where e: "parse line = Some e" "\<not> has_event (ev_id e) db" by (auto split: option.splits)
      obtain d where d: "index x e db = Some d" using index_event_total [of x e True db] by (auto simp: index_def)
      show ?thesis
      proof (rule that [of "Suc indexed" d])
        show "read_loop x parse start budget rest consumed lastp indexed db = ?go (Suc indexed) d"
          using True lr e d by (subst eq) (auto simp: Let_def)
      qed (use e d ids_index [OF d] in \<open>auto simp: has_event_ids\<close>)
    qed
    from 1 [rule_format, OF shorter, of d "consumed + length line" "start + consumed" n]
    obtain ls rem db' where s: "nl_lines rest' = ls @ rem"
      "replay x (fresh (event_ids d) (line_events parse ls)) d = Some db'"
      "?go n d = Some (consumed + length line + length (concat ls),
         (if ls = [] then start + consumed else start + (consumed + length line) + length (concat (butlast ls))),
         n + length (fresh (event_ids d) (line_events parse ls)), db')"
      "rem = [] \<or> budget \<le> consumed + length line + length (concat ls)"
      by blast
    show ?thesis
    proof (rule exI [of _ "line # ls"], rule exI [of _ rem], rule exI [of _ db'], intro conjI impI)
      show "read_loop x parse start budget rest consumed lastp indexed db =
         Some (consumed + length (concat (line # ls)),
               (if line # ls = [] then lastp else start + consumed + length (concat (butlast (line # ls)))),
               indexed + length (fresh (event_ids db) (line_events parse (line # ls))), db')"
        unfolding go s(3) n [of ls] by simp
    qed (use s nl r [of ls] in \<open>simp_all add: add.assoc\<close>)
  qed
qed


section \<open>What a watermark stands for\<close>

lemma split_once_char: "c \<notin> set a \<Longrightarrow> split_once [c] (a @ c # b) = Some (a, b)"
  by (induction a) (auto simp: strip_pre_def starts_with_def)

lemma dec_no_colon: "58 \<notin> set (dec n)"
  using dec_digits [of 58 n] by (auto simp: is_ascii_digit_def)

lemma parse_render_mark:
  "e \<le> U64_MAX \<Longrightarrow> f \<le> U64_MAX \<Longrightarrow> parse_mark (render_mark e f print) = Some (e, f, print)"
  by (simp add: parse_mark_def render_mark_def split_once_char dec_no_colon parse_u64_dec)

lemma parse_mark_empty: "parse_mark [] = None"
  by (simp add: parse_mark_def)

lemma hex_digit_inj: "a < 16 \<Longrightarrow> b < 16 \<Longrightarrow> hex_digit a = hex_digit b \<Longrightarrow> a = b"
  by (auto simp: hex_digit_def split: if_splits)

lemma hex_byte_inj: "a < 256 \<Longrightarrow> b < 256 \<Longrightarrow> hex_byte a = hex_byte b \<Longrightarrow> a = b"
proof -
  assume ab: "a < 256" "b < 256" and h: "hex_byte a = hex_byte b"
  have "a div 16 = b div 16" "a mod 16 = b mod 16"
    using h ab by (auto simp: hex_byte_def intro: hex_digit_inj)
  then show ?thesis by (metis div_mult_mod_eq)
qed

lemma hex_inj: "byte_list a \<Longrightarrow> byte_list b \<Longrightarrow> concat (map hex_byte a) = concat (map hex_byte b) \<Longrightarrow> a = b"
proof (induction a arbitrary: b)
  case Nil
  then show ?case by (cases b) (auto simp: hex_byte_def)
next
  case (Cons x a)
  then obtain y b' where b: "b = y # b'" by (cases b) (auto simp: hex_byte_def)
  have "hex_byte x = hex_byte y \<and> concat (map hex_byte a) = concat (map hex_byte b')"
    using Cons.prems b by (simp add: hex_byte_def [of x] hex_byte_def [of y])
  then show ?case using Cons b by (auto simp: byte_list_def intro: hex_byte_inj)
qed

lemma byte_list_append [simp]: "byte_list (a @ b) \<longleftrightarrow> byte_list a \<and> byte_list b"
  by (simp add: byte_list_def)

lemma byte_list_take: "byte_list a \<Longrightarrow> byte_list (take n a)"
  by (auto simp: byte_list_def list_all_iff dest: in_set_takeD)

lemma byte_list_drop: "byte_list a \<Longrightarrow> byte_list (drop n a)"
  by (auto simp: byte_list_def list_all_iff dest: in_set_dropD)

text \<open>The lines whose events the mark vouches for: where they end, where the last began, its head.\<close>

definition mark_of :: "raw list \<Rightarrow> rstr" where
  "mark_of ls = render_mark (length (concat ls)) (length (concat (butlast ls)))
     (if ls = [] then [] else concat (map hex_byte (take PRINT_BYTES (last ls))))"

text \<open>
  The stored mark was left after reading lines that are still in the file, in their order, and
  whose events are indexed; or there is none.
\<close>

definition vouched :: "(raw \<Rightarrow> event option) \<Rightarrow> rstr \<Rightarrow> raw \<Rightarrow> store \<Rightarrow> bool" where
  "vouched parse path file db =
     (log_watermark (log_key path) db = None \<or>
      (\<exists>ls. log_watermark (log_key path) db = Some (mark_of ls) \<and> list_all is_line ls \<and> list_all byte_list ls \<and>
         length (concat ls) \<le> U64_MAX \<and> subseq ls (nl_lines file) \<and>
         ev_id ` set (line_events parse ls) \<subseteq> event_ids db))"

lemma vouchedI:
  "log_watermark (log_key path) db = Some (mark_of ls) \<Longrightarrow> list_all is_line ls \<Longrightarrow> list_all byte_list ls \<Longrightarrow>
   length (concat ls) \<le> U64_MAX \<Longrightarrow> subseq ls (nl_lines file) \<Longrightarrow>
   ev_id ` set (line_events parse ls) \<subseteq> event_ids db \<Longrightarrow> vouched parse path file db"
  unfolding vouched_def by blast

text \<open>No other place of the file starts like the head of a line: a line opens with its own id.\<close>

definition heads_unique :: "raw \<Rightarrow> bool" where
  "heads_unique file =
     (let ls = nl_lines file in
      list_all (\<lambda>k. let l = ls ! k; w = min (length l) PRINT_BYTES in
          list_all (\<lambda>i. take w (drop i file) = take w l \<longrightarrow> i = length (concat (take k ls)))
            [0..<length file]) [0..<length ls])"

lemma heads_uniqueD:
  assumes "heads_unique file" "nl_lines file = a @ l # b"
    and "take (min (length l) PRINT_BYTES) (drop i file) = take PRINT_BYTES l"
  shows "i = length (concat a)"
proof -
  have l: "l \<noteq> []" using assms(2) nl_lines_are_lines [of "file"] by (simp add: is_line_def)
  have w: "take (min (length l) PRINT_BYTES) l = take PRINT_BYTES l" by (simp add: min_def)
  have "i < length file"
  proof (rule ccontr)
    assume "\<not> i < length file"
    then have "take PRINT_BYTES l = []" using assms(3) by simp
    then show False using l by (simp add: PRINT_BYTES_def)
  qed
  moreover have "length a < length (nl_lines file)" using assms(2) by simp
  ultimately have "take (min (length (nl_lines file ! length a)) PRINT_BYTES) (drop i file)
        = take (min (length (nl_lines file ! length a)) PRINT_BYTES) (nl_lines file ! length a)
      \<longrightarrow> i = length (concat (take (length a) (nl_lines file)))"
    using assms(1) by (simp add: heads_unique_def Let_def list_all_iff)
  then show ?thesis using assms(2,3) w by simp
qed

lemma print_of_last:
  assumes "list_all is_line ls" "file = concat ls @ r"
  shows "fst (print_of file (length (concat (butlast ls))) (length (concat ls))) =
    (if ls = [] then [] else concat (map hex_byte (take PRINT_BYTES (last ls))))"
proof (cases "ls = []")
  case False
  then obtain a l where ls: "ls = a @ [l]" by (metis append_butlast_last_id)
  then have "drop (length (concat a)) file = l @ r" using assms(2) by simp
  then show ?thesis by (simp add: ls print_of_def Let_def min_def)
qed (simp add: print_of_def)

lemma mark_back:
  "length (concat ls) \<le> U64_MAX \<Longrightarrow>
   parse_mark (mark_of ls) = Some (length (concat ls), length (concat (butlast ls)),
     if ls = [] then [] else concat (map hex_byte (take PRINT_BYTES (last ls))))"
proof -
  assume u: "length (concat ls) \<le> U64_MAX"
  have "length (concat (butlast ls)) \<le> length (concat ls)"
    by (cases ls rule: rev_cases) auto
  then show ?thesis using u by (simp add: mark_of_def parse_render_mark)
qed

text \<open>A mark the code trusts stands at the end of lines that open the file.\<close>

lemma trusted_prefix:
  assumes "subseq ls (nl_lines file)" "list_all byte_list ls" "byte_list file" "heads_unique file"
    and "fst (print_of file (length (concat (butlast ls))) (length (concat ls))) =
      (if ls = [] then [] else concat (map hex_byte (take PRINT_BYTES (last ls))))"
  shows "\<exists>rem. nl_lines file = ls @ rem"
proof (cases "ls = []")
  case False
  then obtain xs l where ls: "ls = xs @ [l]" by (metis append_butlast_last_id)
  let ?i = "length (concat xs)"
  have "take (min (length l) PRINT_BYTES) (drop ?i file) = take PRINT_BYTES l"
  proof (rule hex_inj)
    have "fst (print_of file ?i (?i + length l)) = concat (map hex_byte (take (min (length l) PRINT_BYTES) (drop ?i file)))"
      by (simp add: print_of_def Let_def)
    then show "concat (map hex_byte (take (min (length l) PRINT_BYTES) (drop ?i file))) = concat (map hex_byte (take PRINT_BYTES l))"
      using assms(5) by (simp add: ls)
    show "byte_list (take PRINT_BYTES l)" using assms(2) by (simp add: ls byte_list_take)
  qed (simp add: byte_list_take byte_list_drop assms(3))
  moreover obtain a b where ab: "nl_lines file = a @ l # b" "subseq xs a"
    using subseq_snoc_split [OF assms(1) [unfolded ls]] by metis
  ultimately have "?i = length (concat a)" using heads_uniqueD [OF assms(4) ab(1)] by blast
  moreover have "list_all (\<lambda>l. l \<noteq> []) a"
    using nl_lines_are_lines [of "file"] ab(1) by (auto simp: list_all_iff is_line_def)
  ultimately have "xs = a" using subseq_same_size ab(2) by blast
  then show ?thesis using ab(1) ls by simp
qed simp

lemma resume_vouched:
  assumes "vouched parse path file db" "heads_unique file" "byte_list file"
  obtains ls r n where "resume_at file (log_watermark (log_key path) db) =
      (length (concat ls), length (concat (butlast ls)), n)"
    "file = concat ls @ r" "list_all is_line ls" "nl_lines file = ls @ nl_lines r"
    "ev_id ` set (line_events parse ls) \<subseteq> event_ids db"
proof -
  note ret = that
  have zero: thesis if "resume_at file (log_watermark (log_key path) db) = (0, 0, n)" for n
    using ret [of "[]" n "file"] that by simp
  show thesis
  proof (cases "log_watermark (log_key path) db")
    case None
    then show thesis using zero by (simp add: resume_at_def parse_mark_empty)
  next
    case (Some s)
    then obtain ls where s: "s = mark_of ls" and ls: "list_all is_line ls" "list_all byte_list ls"
      "length (concat ls) \<le> U64_MAX" "subseq ls (nl_lines file)"
      "ev_id ` set (line_events parse ls) \<subseteq> event_ids db"
      using assms(1) by (auto simp: vouched_def)
    let ?e = "length (concat ls)" and ?f = "length (concat (butlast ls))"
    let ?p = "if ls = [] then [] else concat (map hex_byte (take PRINT_BYTES (last ls)))"
    have r: "resume_at file (log_watermark (log_key path) db) =
        (if ?f \<le> ?e \<and> ?e \<le> length file
         then if fst (print_of file ?f ?e) = ?p then (?e, ?f, snd (print_of file ?f ?e))
              else (0, 0, snd (print_of file ?f ?e)) else (0, 0, 0))"
      using mark_back [OF ls(3)] by (simp add: resume_at_def Some s split: prod.split)
    show thesis
    proof (cases "?f \<le> ?e \<and> ?e \<le> length file \<and> fst (print_of file ?f ?e) = ?p")
      case False
      then show thesis using zero r by (auto split: if_splits)
    next
      case True
      then obtain rem where rem: "nl_lines file = ls @ rem"
        using trusted_prefix [OF ls(4,2) assms(3,2)] by blast
      obtain t where "file = concat (nl_lines file) @ t" using nl_lines_tail by blast
      then have f: "file = concat ls @ (concat rem @ t)" using rem by simp
      have "nl_lines file = ls @ nl_lines (concat rem @ t)"
        using nl_lines_concat [OF ls(1), of "concat rem @ t"] f by simp
      with ret [of ls _ "concat rem @ t"] show thesis using r True f ls by simp
    qed
  qed
qed


section \<open>A run\<close>

lemma log_key_restored: "log_key p \<noteq> lit ''restored:'' @ k"
  by (simp add: log_key_def lit_def)

lemma state_get_set_lesson [simp]: "state_get k (set_lesson_triggers i cs db) = state_get k db"
  by (simp add: state_get_def table_simps)

lemma state_get_apply_link [simp]: "state_get (log_key p) (apply_link e t db) = state_get (log_key p) db"
  by (simp add: apply_link_def apply_defs Let_def log_key_restored split: event_kind.split)
    (simp add: state_get_def upd_event_def)

lemma state_get_apply_links [simp]: "state_get (log_key p) (apply_links e db) = state_get (log_key p) db"
  unfolding apply_links_def by (rule foldl_frame) simp

lemma watermark_index: "index x e db = Some db' \<Longrightarrow> log_watermark (log_key p) db' = log_watermark (log_key p) db"
proof -
  assume i: "index x e db = Some db'"
  obtain body clamped where "db' = index_with x body clamped e True db"
    using index_event_total [of x e True db] i by (auto simp: index_def)
  moreover have "state_get (log_key p) (foldl (insert_file j q) d fs) = state_get (log_key p) d"
    "state_get (log_key p) (settle_summary e d) = state_get (log_key p) d"
    "state_get (log_key p) (restore_counts j d) = state_get (log_key p) d"
    "state_get (log_key p) (upsert_event fs it b c e d) = state_get (log_key p) d" for j q d fs it b c
    by (simp_all add: state_get_def table_simps)
  ultimately show ?thesis by (simp add: index_with_def Let_def log_watermark_def)
qed

lemma watermark_replay: "replay x es db = Some db' \<Longrightarrow> log_watermark (log_key p) db' = log_watermark (log_key p) db"
  by (induction es arbitrary: db) (auto simp: watermark_index split: option.splits)

lemma set_log_watermark_simps [simp]:
  "events (set_log_watermark k v db) = events db"
  "log_watermark j (set_log_watermark k v db) = (if j = k then Some v else log_watermark j db)"
  by (simp_all add: set_log_watermark_def log_watermark_def table_simps)

definition resumed :: "rstr \<Rightarrow> raw \<Rightarrow> store \<Rightarrow> nat" where
  "resumed path file db = fst (resume_at file (log_watermark (log_key path) db))"

lemma resume_mark:
  assumes "list_all is_line ls" "file = concat ls @ r" "length file \<le> U64_MAX"
  shows "fst (resume_at file (Some (mark_of ls))) = length (concat ls)"
proof -
  have "length (concat (butlast ls)) \<le> length (concat ls)" by (cases ls rule: rev_cases) auto
  moreover have "parse_mark (mark_of ls) = Some (length (concat ls), length (concat (butlast ls)),
      if ls = [] then [] else concat (map hex_byte (take PRINT_BYTES (last ls))))"
    using assms(2,3) by (intro mark_back) simp
  moreover have "length (concat ls) \<le> length file" using assms(2) by simp
  ultimately show ?thesis using print_of_last [OF assms(1,2)]
    by (cases "print_of file (length (concat (butlast ls))) (length (concat ls))") (simp add: resume_at_def)
qed

lemma catch_up_spec:
  assumes "vouched parse path file db" "heads_unique file" "byte_list file" "length file \<le> U64_MAX"
  obtains old ls rem c db' d where
    "nl_lines file = old @ ls @ rem" "ev_id ` set (line_events parse old) \<subseteq> event_ids db"
    "catch_up_log x parse path file budget db = Some (c, db')"
    "replay x (fresh (event_ids db) (line_events parse ls)) db = Some d" "events db' = events d"
    "cu_indexed c = length (fresh (event_ids db) (line_events parse ls))"
    "vouched parse path file db'"
    "rem = [] \<or> budget \<le> length (concat ls)" "0 < budget \<longrightarrow> ls = [] \<longrightarrow> rem = []"
    "nl_lines (drop (resumed path file db) file) = ls @ rem"
    "nl_lines (drop (resumed path file db') file) = rem"
proof -
  obtain old r n where o: "resume_at file (log_watermark (log_key path) db) =
      (length (concat old), length (concat (butlast old)), n)"
    "file = concat old @ r" "list_all is_line old" "nl_lines file = old @ nl_lines r"
    "ev_id ` set (line_events parse old) \<subseteq> event_ids db"
    using resume_vouched [OF assms(1-3)] by metis
  show thesis
  proof (cases "r = []")
    case True
    then have "catch_up_log x parse path file budget db = Some (\<lparr>cu_read = n, cu_indexed = 0\<rparr>, db)"
      using o(1,2) by (simp add: catch_up_log_def)
    moreover have "nl_lines (drop (resumed path file db) file) = []"
      using o(1,2) True by (simp add: resumed_def)
    ultimately show thesis using that [of old "[]" "[]" _ db db] o assms(1) True by simp
  next
    case False
    let ?s = "length (concat old)" and ?l = "length (concat (butlast old))"
    let ?ls = "\<lambda>ls rem d. nl_lines r = ls @ rem \<and>
      replay x (fresh (event_ids db) (line_events parse ls)) db = Some d \<and>
      read_loop x parse ?s budget r 0 ?l 0 db = Some (length (concat ls),
         (if ls = [] then ?l else ?s + length (concat (butlast ls))),
         length (fresh (event_ids db) (line_events parse ls)), d) \<and>
      (rem = [] \<or> budget \<le> length (concat ls)) \<and> (0 < budget \<longrightarrow> nl_lines r \<noteq> [] \<longrightarrow> ls \<noteq> [])"
    have "\<exists>ls rem d. ?ls ls rem d"
      using read_loop_spec [of r x db parse ?s budget 0 ?l 0] by (simp only: add_0 add_0_right)
    then obtain ls rem d where ls: "nl_lines r = ls @ rem"
      "replay x (fresh (event_ids db) (line_events parse ls)) db = Some d"
      "read_loop x parse ?s budget r 0 ?l 0 db = Some (length (concat ls),
         (if ls = [] then ?l else ?s + length (concat (butlast ls))),
         length (fresh (event_ids db) (line_events parse ls)), d)"
      "rem = [] \<or> budget \<le> length (concat ls)" "0 < budget \<longrightarrow> nl_lines r \<noteq> [] \<longrightarrow> ls \<noteq> []"
      by blast
    obtain t where "r = concat (nl_lines r) @ t" using nl_lines_tail by blast
    then have f: "file = concat (old @ ls) @ (concat rem @ t)" using o(2) ls(1) by simp
    have lines: "list_all is_line (old @ ls)" using nl_lines_are_lines [of r] o(3) ls(1) by simp
    have last': "(if ls = [] then ?l else ?s + length (concat (butlast ls))) = length (concat (butlast (old @ ls)))"
      by (simp add: butlast_append)
    let ?p = "print_of file (length (concat (butlast (old @ ls)))) (length (concat (old @ ls)))"
    have mark: "render_mark (length (concat (old @ ls))) (length (concat (butlast (old @ ls)))) (fst ?p) = mark_of (old @ ls)"
      using print_of_last [OF lines f] by (simp add: mark_of_def)
    have "length file \<noteq> ?s" using False o(2) by simp
    then have run: "catch_up_log x parse path file budget db =
        Some (\<lparr>cu_read = n + length (concat ls) + snd ?p,
               cu_indexed = length (fresh (event_ids db) (line_events parse ls))\<rparr>,
          set_log_watermark (log_key path) (mark_of (old @ ls)) d)"
      using ls(3) o(1,2) mark unfolding last' by (auto simp: catch_up_log_def Let_def split: prod.split)
    have "ev_id ` set (line_events parse (old @ ls)) \<subseteq> event_ids d"
      using ids_replay [OF ls(2)] fresh_ids [of "event_ids db" "line_events parse ls"] o(5) by auto
    moreover have "list_all byte_list (old @ ls)"
      using assms(3) f by (auto simp: byte_list_def list_all_iff)
    moreover have "length (concat (old @ ls)) \<le> U64_MAX" using assms(4) f by simp
    moreover have "subseq (old @ ls) ((old @ ls) @ rem)" by (rule list_emb_prefix) simp
    then have "subseq (old @ ls) (nl_lines file)" using o(4) ls(1) by simp
    ultimately have "vouched parse path file (set_log_watermark (log_key path) (mark_of (old @ ls)) d)"
      by (intro vouchedI [of _ _ "old @ ls"] lines) (simp_all only: set_log_watermark_simps simp_thms if_True)
    moreover have "nl_lines (drop (resumed path file db) file) = ls @ rem"
      using o(1,2) ls(1) by (simp add: resumed_def)
    moreover have "nl_lines (drop (resumed path file (set_log_watermark (log_key path) (mark_of (old @ ls)) d)) file) = rem"
    proof -
      have "nl_lines file = nl_lines (concat (old @ ls) @ (concat rem @ t))" using f by simp
      then have "nl_lines (concat rem @ t) = rem"
        using nl_lines_concat [OF lines, of "concat rem @ t"] o(4) ls(1) by simp
      moreover have "drop (length (concat (old @ ls))) file = concat rem @ t" using f by simp
      moreover have "resumed path file (set_log_watermark (log_key path) (mark_of (old @ ls)) d) = length (concat (old @ ls))"
        unfolding resumed_def set_log_watermark_simps using resume_mark [OF lines f assms(4)] by simp
      ultimately show ?thesis by presburger
    qed
    ultimately show thesis
      by (intro that [OF _ o(5) run ls(2) _ _ _ ls(4)]) (use o(4) ls(1,5) in auto)
  qed
qed


section \<open>A log over time\<close>

text \<open>
  What may happen to one log file and the store between two looks at them: a hook appends (whole
  lines or a torn one), sync writes a merged file that keeps the old lines in their order, a
  catch-up run ends or is cut off before its mark is written, other code changes the store
  without removing an event or touching this mark, and \<open>clear\<close> empties the index and its marks.
\<close>

inductive log_step :: "extern \<Rightarrow> (raw \<Rightarrow> event option) \<Rightarrow> rstr \<Rightarrow> raw \<times> store \<Rightarrow> raw \<times> store \<Rightarrow> bool"
  for x parse path where
  appended: "byte_list g \<Longrightarrow> length (f @ g) \<le> U64_MAX \<Longrightarrow> log_step x parse path (f, db) (f @ g, db)"
| merged: "byte_list f' \<Longrightarrow> length f' \<le> U64_MAX \<Longrightarrow> subseq (nl_lines f) (nl_lines f') \<Longrightarrow>
    log_step x parse path (f, db) (f', db)"
| caught_up: "heads_unique f \<Longrightarrow> catch_up_log x parse path f budget db = Some (c, db') \<Longrightarrow>
    log_step x parse path (f, db) (f, db')"
| cut_off: "resume_at f (log_watermark (log_key path) db) = (start, lastp, n) \<Longrightarrow>
    read_loop x parse start budget (drop start f) 0 lastp 0 db = Some (consumed, lastp', k, db') \<Longrightarrow>
    log_step x parse path (f, db) (f, db')"
| elsewhere: "event_ids db \<subseteq> event_ids db' \<Longrightarrow>
    log_watermark (log_key path) db' = log_watermark (log_key path) db \<Longrightarrow>
    log_step x parse path (f, db) (f, db')"
| cleared: "log_step x parse path (f, db) (f, clear_store db)"

inductive log_reach :: "extern \<Rightarrow> (raw \<Rightarrow> event option) \<Rightarrow> rstr \<Rightarrow> raw \<times> store \<Rightarrow> bool"
  for x parse path where
  new_log: "log_watermark (log_key path) db = None \<Longrightarrow> log_reach x parse path ([], db)"
| log_next: "log_reach x parse path s \<Longrightarrow> log_step x parse path s s' \<Longrightarrow> log_reach x parse path s'"

inductive_cases log_step_cases: "log_step x parse path (f, db) (f', db')"

definition log_ok :: "(raw \<Rightarrow> event option) \<Rightarrow> rstr \<Rightarrow> raw \<times> store \<Rightarrow> bool" where
  "log_ok parse path s = (vouched parse path (fst s) (snd s) \<and> byte_list (fst s) \<and> length (fst s) \<le> U64_MAX)"

lemma vouched_mono:
  assumes "vouched parse path f db" "subseq (nl_lines f) (nl_lines f')" "event_ids db \<subseteq> event_ids db'"
    "log_watermark (log_key path) db' = log_watermark (log_key path) db"
  shows "vouched parse path f' db'"
  using assms subseq_order.order_trans unfolding vouched_def by (metis order_trans)

lemma replayed_log_key: "replayed_key (log_key path)"
  by (simp add: replayed_key_def log_key_def lit_def)

lemma watermark_cleared: "log_watermark (log_key path) (clear_store db) = None"
  by (simp add: log_watermark_def state_get_def clear_store_def row_of_def del_def replayed_log_key find_None_iff)

lemma log_ok_step:
  assumes "log_step x parse path s s'" "log_ok parse path s"
  shows "log_ok parse path s'"
  using assms
proof (cases rule: log_step.cases)
  case (appended g f db)
  obtain more' where "nl_lines (f @ g) = nl_lines f @ more'" using nl_lines_append by blast
  then have "subseq (nl_lines f) (nl_lines (f @ g))" using list_emb_prefix [of "(=)" "nl_lines f"] by simp
  then show ?thesis using appended assms(2) vouched_mono [of parse path f db "f @ g" db] by (simp add: log_ok_def)
next
  case (merged f' f db)
  then show ?thesis using assms(2) vouched_mono [of parse path f db f' db] by (simp add: log_ok_def)
next
  case (caught_up f budget db c db')
  then have "vouched parse path f db" "byte_list f" "length f \<le> U64_MAX" using assms(2) by (simp_all add: log_ok_def)
  with caught_up show ?thesis
    by (auto simp: log_ok_def elim!: catch_up_spec [of parse path f db x budget])
next
  case (cut_off f db start lastp n budget consumed lastp' k db')
  let ?run = "\<lambda>ls d. replay x (fresh (event_ids db) (line_events parse ls)) db = Some d \<and>
    (\<exists>a b c. read_loop x parse start budget (drop start f) 0 lastp 0 db = Some (a, b, c, d))"
  have "\<exists>ls d. ?run ls d"
    using read_loop_spec [of "drop start f" x db parse start budget 0 lastp 0] by blast
  then obtain ls d where d: "replay x (fresh (event_ids db) (line_events parse ls)) db = Some d" "db' = d"
    using cut_off by force
  then have "event_ids db \<subseteq> event_ids db'" "log_watermark (log_key path) db' = log_watermark (log_key path) db"
    using ids_replay [OF d(1)] watermark_replay [OF d(1)] by auto
  then show ?thesis using cut_off assms(2) vouched_mono [of parse path f db f db'] by (simp add: log_ok_def)
next
  case (elsewhere db db' f)
  then show ?thesis using assms(2) vouched_mono [of parse path f db f db'] by (simp add: log_ok_def)
next
  case (cleared f db)
  then show ?thesis using assms(2) by (simp add: log_ok_def vouched_def watermark_cleared)
qed

lemma log_reach_ok: "log_reach x parse path s \<Longrightarrow> log_ok parse path s"
proof (induction rule: log_reach.induct)
  case (new_log db)
  then show ?case by (simp add: log_ok_def vouched_def byte_list_def)
qed (rule log_ok_step)

text \<open>
  C23: after any history of the file, a run whose budget covers the file indexes exactly the
  events the store lacks, each once and in line order, leaves every event that stands on a whole
  line in the store, and does not fail.
\<close>

theorem catch_up_indexes_the_missing:
  assumes "log_reach x parse path (f, db)" "heads_unique f" "length f \<le> budget"
  shows "\<exists>c db' ls d. catch_up_log x parse path f budget db = Some (c, db') \<and>
    suffix ls (nl_lines f) \<and>
    replay x (fresh (event_ids db) (line_events parse ls)) db = Some d \<and> events db' = events d \<and>
    cu_indexed c = length (fresh (event_ids db) (line_events parse ls)) \<and>
    event_ids db' = ev_id ` set (line_events parse (nl_lines f)) \<union> event_ids db"
proof -
  have ok: "vouched parse path f db" "byte_list f" "length f \<le> U64_MAX"
    using log_reach_ok [OF assms(1)] by (simp_all add: log_ok_def)
  obtain old ls rem c db' d where o: "nl_lines f = old @ ls @ rem"
    "ev_id ` set (line_events parse old) \<subseteq> event_ids db"
    "catch_up_log x parse path f budget db = Some (c, db')"
    "replay x (fresh (event_ids db) (line_events parse ls)) db = Some d" "events db' = events d"
    "cu_indexed c = length (fresh (event_ids db) (line_events parse ls))"
    "rem = [] \<or> budget \<le> length (concat ls)"
    by (rule catch_up_spec [OF ok(1) assms(2) ok(2,3), of x budget]) blast
  have "rem = []"
  proof (rule ccontr)
    assume "rem \<noteq> []"
    moreover obtain t where "f = concat (old @ ls @ rem) @ t" using nl_lines_tail [of f] o(1) by metis
    moreover have "list_all is_line rem" using nl_lines_are_lines [of f] o(1) by simp
    ultimately have "length (concat ls) < length f" by (cases rem) (auto simp: is_line_def)
    then show False using o(7) \<open>rem \<noteq> []\<close> assms(3) by simp
  qed
  moreover have "event_ids d = ev_id ` set (fresh (event_ids db) (line_events parse ls)) \<union> event_ids db"
    by (rule ids_replay [OF o(4)])
  ultimately show ?thesis using o fresh_ids [of "event_ids db" "line_events parse ls"]
    by (intro exI [of _ c] exI [of _ db'] exI [of _ ls] exI [of _ d]) (auto simp: suffix_def)
qed


fun catch_up_rounds ::
    "extern \<Rightarrow> (raw \<Rightarrow> event option) \<Rightarrow> rstr \<Rightarrow> raw \<Rightarrow> nat list \<Rightarrow> store \<Rightarrow> store option" where
  "catch_up_rounds x parse path f [] db = Some db"
| "catch_up_rounds x parse path f (b # bs) db =
     (case catch_up_log x parse path f b db of
        None \<Rightarrow> None | Some (c, db') \<Rightarrow> catch_up_rounds x parse path f bs db')"

lemma line_ids_split: "ev_id ` set (line_events parse (a @ b)) = ev_id ` set (line_events parse a) \<union> ev_id ` set (line_events parse b)"
  by auto

lemma catch_up_rounds_ids:
  assumes "vouched parse path f db" "heads_unique f" "byte_list f" "length f \<le> U64_MAX"
    and "list_all (\<lambda>b. 0 < b) bs" "length (nl_lines (drop (resumed path f db) f)) \<le> length bs"
  shows "\<exists>db'. catch_up_rounds x parse path f bs db = Some db' \<and>
    event_ids db' = ev_id ` set (line_events parse (nl_lines f)) \<union> event_ids db"
  using assms(1,5,6)
proof (induction bs arbitrary: db)
  case Nil
  then have "nl_lines (drop (resumed path f db) f) = []" by simp
  moreover obtain old ls rem where "nl_lines f = old @ ls @ rem"
    "ev_id ` set (line_events parse old) \<subseteq> event_ids db" "nl_lines (drop (resumed path f db) f) = ls @ rem"
    by (rule catch_up_spec [OF Nil(1) assms(2-4), of x 0]) blast
  ultimately show ?case by auto
next
  case (Cons b bs)
  obtain old ls rem c db' d where s: "nl_lines f = old @ ls @ rem"
    "ev_id ` set (line_events parse old) \<subseteq> event_ids db"
    "catch_up_log x parse path f b db = Some (c, db')"
    "replay x (fresh (event_ids db) (line_events parse ls)) db = Some d" "events db' = events d"
    "vouched parse path f db'" "0 < b \<longrightarrow> ls = [] \<longrightarrow> rem = []"
    "nl_lines (drop (resumed path f db) f) = ls @ rem" "nl_lines (drop (resumed path f db') f) = rem"
    by (rule catch_up_spec [OF Cons.prems(1) assms(2-4), of x b]) blast
  have "length rem \<le> length bs" using Cons.prems(2,3) s(7,8) by (cases ls) auto
  then obtain db'' where db'': "catch_up_rounds x parse path f bs db' = Some db''"
    "event_ids db'' = ev_id ` set (line_events parse (nl_lines f)) \<union> event_ids db'"
    using Cons.IH [of db'] s(6,9) Cons.prems(2) by auto
  have "event_ids db' = ev_id ` set (line_events parse ls) \<union> event_ids db"
    using ids_replay [OF s(4)] fresh_ids [of "event_ids db" "line_events parse ls"] s(5) by simp
  then have "event_ids db'' = ev_id ` set (line_events parse (nl_lines f)) \<union> event_ids db"
    using db''(2) s(1) by auto
  then show ?case using db''(1) s(3) by simp
qed

text \<open>
  C24: however small the budget of each run, as long as it is not zero, as many runs as the file
  has whole lines bring every event on them into the store.
\<close>

theorem catch_up_gets_there:
  assumes "log_reach x parse path (f, db)" "heads_unique f"
    and "list_all (\<lambda>b. 0 < b) bs" "length (nl_lines f) \<le> length bs"
  shows "\<exists>db'. catch_up_rounds x parse path f bs db = Some db' \<and>
    event_ids db' = ev_id ` set (line_events parse (nl_lines f)) \<union> event_ids db"
proof (rule catch_up_rounds_ids [OF _ assms(2) _ _ assms(3)])
  show ok: "vouched parse path f db" "byte_list f" "length f \<le> U64_MAX"
    using log_reach_ok [OF assms(1)] by (simp_all add: log_ok_def)
  obtain old ls rem where "nl_lines f = old @ ls @ rem" "nl_lines (drop (resumed path f db) f) = ls @ rem"
    by (rule catch_up_spec [OF ok(1) assms(2) ok(2,3), of x 0]) blast
  then show "length (nl_lines (drop (resumed path f db) f)) \<le> length bs" using assms(4) by simp
qed

section \<open>Examples\<close>

definition sample_log :: raw where
  "sample_log = [97, 10, 120, 10, 98, 10, 99]"

definition sample_line_parse :: "raw \<Rightarrow> event option" where
  "sample_line_parse l = (if l = [97, 10] \<or> l = [98, 10] then Some (sample_fact\<lparr>ev_id := butlast l\<rparr>) else None)"

lemma sample_log_lines: "nl_lines sample_log = [[97, 10], [120, 10], [98, 10]]"
  by (simp add: sample_log_def nl_lines.simps)

lemma sample_log_reach: "log_reach sample_extern sample_line_parse [] (sample_log, empty_store)"
proof (rule log_next)
  show "log_reach sample_extern sample_line_parse [] ([], empty_store)"
    by (rule new_log) (simp add: log_watermark_def state_get_def empty_store_def row_of_def)
  show "log_step sample_extern sample_line_parse [] ([], empty_store) (sample_log, empty_store)"
    using appended [of sample_log "[]"] by (simp add: sample_log_def byte_list_def U64_MAX_def)
qed

lemma sample_heads: "heads_unique sample_log"
  unfolding heads_unique_def Let_def sample_log_lines
  by (simp add: sample_log_def PRINT_BYTES_def upt_rec numeral_eq_Suc)

theorem catch_up_indexes_the_missing_witness:
  "\<exists>c db'. catch_up_log sample_extern sample_line_parse [] sample_log 7 empty_store = Some (c, db') \<and>
     event_ids db' = {[97], [98]}"
proof -
  have "length sample_log \<le> 7" by (simp add: sample_log_def)
  from catch_up_indexes_the_missing [OF sample_log_reach sample_heads this]
  show ?thesis by (auto simp: sample_log_lines sample_line_parse_def empty_store_def)
qed

theorem catch_up_gets_there_witness:
  "\<exists>db'. catch_up_rounds sample_extern sample_line_parse [] sample_log [1, 1, 1] empty_store = Some db' \<and>
     event_ids db' = {[97], [98]}"
proof -
  have "list_all (\<lambda>b. 0 < b) [1, 1, 1 :: nat]" "length (nl_lines sample_log) \<le> length [1, 1, 1 :: nat]"
    by (simp_all add: sample_log_lines)
  from catch_up_gets_there [OF sample_log_reach sample_heads this]
  show ?thesis by (auto simp: sample_log_lines sample_line_parse_def empty_store_def)
qed

end
