(* ===== verification/Utf8.thy ===== *)
theory Utf8
  imports Catch_Up
begin

text \<open>
  The bytes of a text, as \<open>std::fs::write\<close> puts a string on disk, and the lines of a log written
  from text. A character is a Unicode scalar value; the log catch-up reads the file as bytes, the
  merge of two logs as text, and this is the bridge between them.
\<close>

definition utf8_char :: "nat \<Rightarrow> raw" where
  "utf8_char c =
     (if c < 0x80 then [c]
      else if c < 0x800 then [192 + c div 64, 128 + c mod 64]
      else if c < 0x10000 then [224 + c div 4096, 128 + c div 64 mod 64, 128 + c mod 64]
      else [240 + c div 262144, 128 + c div 4096 mod 64, 128 + c div 64 mod 64, 128 + c mod 64])"

definition utf8 :: "rstr \<Rightarrow> raw" where
  "utf8 s = concat (map utf8_char s)"

definition scalars :: "rstr \<Rightarrow> bool" where
  "scalars s = list_all (\<lambda>c. c < 0x110000) s"

lemma utf8_simps [simp]:
  "utf8 [] = []" "utf8 (a @ b) = utf8 a @ utf8 b" "utf8 (c # s) = utf8_char c @ utf8 s"
  by (simp_all add: utf8_def)

lemma length_utf8: "length (utf8 s) = blen s"
proof -
  have "length (utf8_char c) = len_utf8 c" for c by (simp add: utf8_char_def len_utf8_def)
  then show ?thesis by (induction s) (simp_all add: blen_def)
qed

lemma newline_char: "10 \<in> set (utf8_char c) \<longleftrightarrow> c = 10"
  by (simp add: utf8_char_def)

lemma newline_utf8: "10 \<in> set (utf8 s) \<longleftrightarrow> 10 \<in> set s"
  by (induction s) (auto simp: newline_char)

lemma byte_char: "c < 0x110000 \<Longrightarrow> byte_list (utf8_char c)"
  by (auto simp: utf8_char_def byte_list_def less_mult_imp_div_less)

lemma byte_utf8: "scalars s \<Longrightarrow> byte_list (utf8 s)"
  by (induction s) (auto simp: scalars_def byte_char, simp add: byte_list_def)

lemma utf8_line: "10 \<notin> set l \<Longrightarrow> is_line (utf8 (l @ [10]))"
  by (simp add: is_line_def newline_utf8 butlast_append) (simp add: utf8_char_def)

lemma nl_lines_utf8: "\<forall>l\<in>set ls. 10 \<notin> set l \<Longrightarrow> nl_lines (utf8 (concat (map (\<lambda>l. l @ [10]) ls))) = map (\<lambda>l. utf8 (l @ [10])) ls"
proof (induction ls)
  case (Cons l ls)
  then have "is_line (utf8 (l @ [10]))" using utf8_line [of l] by simp
  from nl_lines_line [OF this, of "utf8 (concat (map (\<lambda>l. l @ [10]) ls))"] show ?case using Cons by simp
qed simp

end
