(* ===== verification/Run_Queue.thy ===== *)
theory Run_Queue
  imports Store_Queue
begin

text \<open>
  How consolidation runs share the asks, \<open>src/src/consolidate.rs\<close>: \<open>run_in\<close>, \<open>run_idle_in\<close>,
  \<open>serve_idle\<close>, \<open>serve\<close> and \<open>take_next_request\<close>, as processes over one store and one run lock.
  A process is where it stands between two effects; one \<open>step\<close> is one effect of one process, and
  a schedule is a list of steps, so every interleaving is a schedule. What a round of work does to
  the store is an argument of its step; it does not touch the asks.
\<close>

definition MAX_DRAIN_ROUNDS :: nat where "MAX_DRAIN_ROUNDS = 3"
definition REQUEST_KEEP_DAYS :: int where "REQUEST_KEEP_DAYS = 7"

definition heal_store :: "store \<Rightarrow> store" where
  "heal_store db = fst (drop_stale_asks (fst (resettle_replayed_once db)))"

text \<open>How \<open>exec\<close> returned: \<open>Ok(true)\<close>, \<open>Ok(false)\<close> or \<open>Err\<close>.\<close>

datatype exec_result = Finished | Unfinished | Exec_failed

text \<open>
  Why a process is over: it stood aside; its ask was already served; nothing was open; the lock
  was taken when it wanted to drain; or it held the lock and stopped without looking again.
\<close>

datatype ending = Stood_aside | Already_served | Ran_dry | Lock_lost | Gave_up

text \<open>
  Before the first effect; ask written; lock taken for the own ask; at work on an ask, the number
  of drained rounds beside it; lock let go; next ask read; lock taken for it; over.
\<close>

datatype pc =
    Fresh
  | Wrote int
  | Locked int
  | At_work int nat
  | Freed nat
  | Saw int nat
  | Relocked int nat
  | Over ending

record run_sys =
  rs_db :: store
  rs_lock :: "nat option"
  rs_pc :: "nat \<Rightarrow> pc"

datatype move =
    Find_compacting
  | Write_ask "rstr option" bool bool rstr rstr
  | Try_lock
  | Consume rstr rstr
  | Heal
  | End_exec exec_result bool "store \<Rightarrow> store"
  | Look

definition goto :: "nat \<Rightarrow> pc \<Rightarrow> run_sys \<Rightarrow> run_sys" where
  "goto p at s = s\<lparr>rs_pc := (rs_pc s)(p := at)\<rparr>"

definition take_lock :: "nat \<Rightarrow> pc \<Rightarrow> pc \<Rightarrow> run_sys \<Rightarrow> run_sys" where
  "take_lock p won lost s =
     (if rs_lock s = None then goto p won (s\<lparr>rs_lock := Some p\<rparr>) else goto p lost s)"

definition drop_lock :: "run_sys \<Rightarrow> run_sys" where
  "drop_lock s = s\<lparr>rs_lock := None\<rparr>"

definition purge :: "clock \<Rightarrow> int \<Rightarrow> run_sys \<Rightarrow> run_sys" where
  "purge c t s = s\<lparr>rs_db := purge_consumed_requests c REQUEST_KEEP_DAYS t (rs_db s)\<rparr>"

text \<open>\<open>run_in\<close> up to \<open>serve\<close>, and the lock of \<open>run_idle_in\<close>, whose sweep is the ask 0.\<close>

definition start_step :: "clock \<Rightarrow> int \<Rightarrow> nat \<Rightarrow> move \<Rightarrow> run_sys \<Rightarrow> run_sys option" where
  "start_step c t p m s =
     (case (rs_pc s p, m) of
        (Fresh, Find_compacting) \<Rightarrow> Some (goto p (Over Stood_aside) s)
      | (Fresh, Write_ask session all_projects force cwd now) \<Rightarrow>
          (let (i, db) = add_consolidation_request session all_projects force cwd now (rs_db s)
           in Some (goto p (Wrote i) (s\<lparr>rs_db := db\<rparr>)))
      | (Fresh, Try_lock) \<Rightarrow> Some (take_lock p (At_work 0 0) (Over Stood_aside) s)
      | (Wrote i, Try_lock) \<Rightarrow> Some (take_lock p (Locked i) (Over Stood_aside) s)
      | (Locked i, Consume now later) \<Rightarrow>
          (let (mine, db) = consume_consolidation_request i now later (rs_db s); s' = s\<lparr>rs_db := db\<rparr> in
           if mine then Some (goto p (At_work i 0) s')
           else Some (goto p (Over Already_served) (drop_lock (purge c t s'))))
      | _ \<Rightarrow> None)"

text \<open>\<open>serve\<close>: the end of a round, with whether the run's budget is spent.\<close>

definition end_round :: "clock \<Rightarrow> int \<Rightarrow> nat \<Rightarrow> int \<Rightarrow> nat \<Rightarrow> exec_result \<Rightarrow> bool \<Rightarrow> run_sys \<Rightarrow> run_sys" where
  "end_round c t p i drained r spent s =
     (case r of
        Exec_failed \<Rightarrow>
          (if drained > 0 then goto p (Over Gave_up) (purge c t (drop_lock s))
           else goto p (Over Gave_up) (drop_lock s))
      | Unfinished \<Rightarrow>
          goto p (Over Gave_up)
            (purge c t (drop_lock (s\<lparr>rs_db := release_consolidation_request i (rs_db s)\<rparr>)))
      | Finished \<Rightarrow>
          (if drained \<ge> MAX_DRAIN_ROUNDS \<or> spent then goto p (Over Gave_up) (purge c t (drop_lock s))
           else goto p (Freed drained) (drop_lock s)))"

text \<open>\<open>take_next_request\<close>, one look; a consume that comes too late drops the lock and looks again.\<close>

definition drain_step :: "clock \<Rightarrow> int \<Rightarrow> nat \<Rightarrow> move \<Rightarrow> run_sys \<Rightarrow> run_sys option" where
  "drain_step c t p m s =
     (case (rs_pc s p, m) of
        (Freed n, Look) \<Rightarrow>
          (case next_consolidation_request (rs_db s) of
             None \<Rightarrow> Some (goto p (Over Ran_dry) (purge c t s))
           | Some q \<Rightarrow> Some (goto p (Saw (q_id q) n) s))
      | (Saw i n, Try_lock) \<Rightarrow>
          (if rs_lock s = None then Some (take_lock p (Relocked i n) (Over Lock_lost) s)
           else Some (goto p (Over Lock_lost) (purge c t s)))
      | (Relocked i n, Consume now later) \<Rightarrow>
          (let (mine, db) = consume_consolidation_request i now later (rs_db s); s' = s\<lparr>rs_db := db\<rparr> in
           if mine then Some (goto p (At_work i (Suc n)) s')
           else Some (goto p (Freed n) (drop_lock s')))
      | _ \<Rightarrow> None)"

definition step :: "clock \<Rightarrow> int \<Rightarrow> nat \<Rightarrow> move \<Rightarrow> run_sys \<Rightarrow> run_sys option" where
  "step c t p m s =
     (case rs_pc s p of
        At_work i n \<Rightarrow>
          (case m of
             Heal \<Rightarrow> Some (s\<lparr>rs_db := heal_store (rs_db s)\<rparr>)
           | End_exec r spent work \<Rightarrow>
               (if consolidation_requests (work (rs_db s)) = consolidation_requests (rs_db s)
                then Some (end_round c t p i n r spent (s\<lparr>rs_db := work (rs_db s)\<rparr>)) else None)
           | _ \<Rightarrow> None)
      | Fresh \<Rightarrow> start_step c t p m s
      | Wrote i \<Rightarrow> start_step c t p m s
      | Locked i \<Rightarrow> start_step c t p m s
      | _ \<Rightarrow> drain_step c t p m s)"

text \<open>A schedule: the clock reading, the process and its move, one after the other.\<close>

fun schedule :: "clock \<Rightarrow> (int \<times> nat \<times> move) list \<Rightarrow> run_sys \<Rightarrow> run_sys option" where
  "schedule c [] s = Some s"
| "schedule c ((t, p, m) # ms) s = Option.bind (step c t p m s) (schedule c ms)"

definition first_sys :: "store \<Rightarrow> run_sys" where
  "first_sys db = \<lparr>rs_db = db, rs_lock = None, rs_pc = \<lambda>_. Fresh\<rparr>"

section \<open>What holds at every moment\<close>

definition holds_lock :: "pc \<Rightarrow> bool" where
  "holds_lock at = (case at of Locked i \<Rightarrow> True | At_work i n \<Rightarrow> True | Relocked i n \<Rightarrow> True | _ \<Rightarrow> False)"

definition will_look :: "pc \<Rightarrow> bool" where
  "will_look at = (case at of Wrote i \<Rightarrow> True | Freed n \<Rightarrow> True | Saw i n \<Rightarrow> True | _ \<Rightarrow> False)"

definition drained_by :: "pc \<Rightarrow> nat" where
  "drained_by at = (case at of At_work i n \<Rightarrow> n | Freed n \<Rightarrow> Suc n | Saw i n \<Rightarrow> Suc n | Relocked i n \<Rightarrow> Suc n | _ \<Rightarrow> 0)"

definition asks_open :: "store \<Rightarrow> bool" where
  "asks_open db = list_ex (\<lambda>q. q_consumed_at q = None) (consolidation_requests db)"

definition walked_off :: "pc \<Rightarrow> bool" where
  "walked_off at = (at = Over Gave_up \<or> at = Over Already_served)"

definition lock_matches :: "run_sys \<Rightarrow> bool" where
  "lock_matches s = (\<forall>p. holds_lock (rs_pc s p) \<longleftrightarrow> rs_lock s = Some p)"

definition minded :: "run_sys \<Rightarrow> bool" where
  "minded s = (asks_open (rs_db s) \<longrightarrow> rs_lock s \<noteq> None \<or> (\<exists>p. will_look (rs_pc s p) \<or> walked_off (rs_pc s p)))"

definition run_ok :: "run_sys \<Rightarrow> bool" where
  "run_ok s = (lock_matches s \<and> (\<forall>p. drained_by (rs_pc s p) \<le> MAX_DRAIN_ROUNDS) \<and> minded s)"

lemmas pc_defs = holds_lock_def will_look_def drained_by_def walked_off_def
lemmas move_defs = goto_def take_lock_def drop_lock_def purge_def

lemma purge_open: "asks_open (purge_consumed_requests c k t db) \<longleftrightarrow> asks_open db"
  by (auto simp: asks_open_def purge_consumed_requests_def del_def list_ex_iff)

lemma heal_open: "asks_open (heal_store db) \<Longrightarrow> asks_open db"
  by (auto simp: asks_open_def heal_store_def drop_stale_asks_def resettle_replayed_once_def resettle_replayed_def
      Let_def del_def list_ex_iff split: if_splits prod.splits)

lemma next_none_open: "next_consolidation_request db = None \<Longrightarrow> \<not> asks_open db"
proof -
  assume n: "next_consolidation_request db = None"
  have "sort_key q_id (sel (\<lambda>q. q_consumed_at q = None) (consolidation_requests db)) = []"
    using n by (auto simp: next_consolidation_request_def split: list.splits)
  then have "set (sel (\<lambda>q. q_consumed_at q = None) (consolidation_requests db)) = {}"
    by (metis set_sort list.set(1))
  then show ?thesis by (auto simp: asks_open_def sel_def list_ex_iff filter_empty_conv)
qed

lemma open_upd: "q \<in> set (upd P (\<lambda>q. q\<lparr>q_consumed_at := Some v\<rparr>) t) \<Longrightarrow> q_consumed_at q = None \<Longrightarrow> q \<in> set t"
  by (auto simp: upd_def split: if_splits)

lemma consume_open: "asks_open (snd (consume_consolidation_request i now later db)) \<Longrightarrow> asks_open db"
  unfolding asks_open_def consume_consolidation_request_def Let_def list_ex_iff
  by (cases "row_of q_id i (consolidation_requests db)") (auto split: if_splits dest!: open_upd)

lemma same_open: "consolidation_requests db = consolidation_requests db' \<Longrightarrow> asks_open db = asks_open db'"
  by (simp add: asks_open_def)


lemma purge_simps [simp]:
  "rs_lock (purge c t s) = rs_lock s" "rs_pc (purge c t s) = rs_pc s"
  "asks_open (rs_db (purge c t s)) = asks_open (rs_db s)"
  by (simp_all add: purge_def purge_open)

lemma goto_simps [simp]:
  "rs_lock (goto p at s) = rs_lock s" "rs_db (goto p at s) = rs_db s"
  "rs_pc (goto p at s) = (rs_pc s)(p := at)"
  by (simp_all add: goto_def)

lemma drop_lock_simps [simp]:
  "rs_lock (drop_lock s) = None" "rs_db (drop_lock s) = rs_db s" "rs_pc (drop_lock s) = rs_pc s"
  by (simp_all add: drop_lock_def)

text \<open>
  One process moved: the lock went to it, stayed, or was let go; an open ask is still minded.
\<close>

lemma run_ok_move:
  assumes "run_ok s" "rs_pc s' = (rs_pc s)(p := at)" "drained_by at \<le> MAX_DRAIN_ROUNDS"
    and "rs_lock s' = (if holds_lock at then Some p else if holds_lock (rs_pc s p) then None else rs_lock s)"
    and "holds_lock at \<Longrightarrow> rs_lock s = None \<or> rs_lock s = Some p"
    and "asks_open (rs_db s') \<Longrightarrow> holds_lock at \<or> will_look at \<or> walked_off at \<or>
      (asks_open (rs_db s) \<and> \<not> walked_off (rs_pc s p) \<and> \<not> holds_lock (rs_pc s p) \<and>
        (will_look (rs_pc s p) \<longrightarrow> rs_lock s \<noteq> None))"
  shows "run_ok s'"
proof -
  have l: "holds_lock (rs_pc s q) \<longleftrightarrow> rs_lock s = Some q" for q
    using assms(1) by (simp add: run_ok_def lock_matches_def)
  have "holds_lock (rs_pc s' q) \<longleftrightarrow> rs_lock s' = Some q" for q
  proof (cases "q = p")
    case True
    then show ?thesis using assms(2,4) l [of p] by simp
  next
    case False
    then show ?thesis using assms(2,4,5) l [of p] l [of q] by (cases "holds_lock at") auto
  qed
  moreover have "drained_by (rs_pc s' q) \<le> MAX_DRAIN_ROUNDS" for q
    using assms(1,2,3) by (simp add: run_ok_def)
  moreover have "minded s'"
    unfolding minded_def
  proof (intro impI)
    assume o: "asks_open (rs_db s')"
    consider "holds_lock at" | "will_look at \<or> walked_off at"
      | "\<not> holds_lock at" "asks_open (rs_db s)" "\<not> walked_off (rs_pc s p)" "\<not> holds_lock (rs_pc s p)"
        "will_look (rs_pc s p) \<longrightarrow> rs_lock s \<noteq> None"
      using assms(6) [OF o] by blast
    then show "rs_lock s' \<noteq> None \<or> (\<exists>q. will_look (rs_pc s' q) \<or> walked_off (rs_pc s' q))"
    proof cases
      case 1
      then show ?thesis using assms(4) by simp
    next
      case 2
      then show ?thesis using assms(2) by (metis fun_upd_same)
    next
      case 3
      then have "rs_lock s \<noteq> None \<or> (\<exists>q. q \<noteq> p \<and> (will_look (rs_pc s q) \<or> walked_off (rs_pc s q)))"
        using assms(1) by (auto simp: run_ok_def minded_def)
      moreover have "rs_lock s' = rs_lock s" using assms(4) 3 by simp
      ultimately show ?thesis using assms(2) by (metis fun_upd_other)
    qed
  qed
  ultimately show ?thesis by (simp add: run_ok_def lock_matches_def)
qed


lemma run_ok_lock: "run_ok s \<Longrightarrow> holds_lock (rs_pc s p) \<longleftrightarrow> rs_lock s = Some p"
  by (simp add: run_ok_def lock_matches_def)

lemma run_ok_drained: "run_ok s \<Longrightarrow> drained_by (rs_pc s p) \<le> MAX_DRAIN_ROUNDS"
  by (simp add: run_ok_def)

lemma run_ok_start:
  assumes "run_ok s" "start_step c t p m s = Some s'"
  shows "run_ok s'"
proof (cases "rs_pc s p")
  case Fresh
  consider "m = Find_compacting" | a b d e now where "m = Write_ask a b d e now" | "m = Try_lock"
    using assms(2) Fresh by (cases m) (auto simp: start_step_def)
  then show ?thesis
  proof cases
    case 1
    then have s': "s' = goto p (Over Stood_aside) s" using assms(2) Fresh by (simp add: start_step_def)
    show ?thesis by (rule run_ok_move [OF assms(1), where p = p and at = "Over Stood_aside"]) (simp_all add: s' Fresh pc_defs)
  next
    case 2
    obtain i db where i: "add_consolidation_request a b d e now (rs_db s) = (i, db)" by fastforce
    then have s': "s' = goto p (Wrote i) (s\<lparr>rs_db := db\<rparr>)" using assms(2) Fresh 2 by (simp add: start_step_def)
    show ?thesis by (rule run_ok_move [OF assms(1), where p = p and at = "Wrote i"]) (simp_all add: s' Fresh pc_defs)
  next
    case 3
    then have s': "s' = take_lock p (At_work 0 0) (Over Stood_aside) s" using assms(2) Fresh by (simp add: start_step_def)
    show ?thesis
      by (rule run_ok_move [OF assms(1), where at = "if rs_lock s = None then At_work 0 0 else Over Stood_aside" and p = p])
        (auto simp: s' take_lock_def Fresh pc_defs split: if_splits)
  qed
next
  case (Wrote i)
  then have s': "s' = take_lock p (Locked i) (Over Stood_aside) s"
    using assms(2) by (cases m) (auto simp: start_step_def)
  show ?thesis
    by (rule run_ok_move [OF assms(1), where at = "if rs_lock s = None then Locked i else Over Stood_aside" and p = p])
      (auto simp: s' take_lock_def Wrote pc_defs split: if_splits)
next
  case (Locked i)
  have l: "rs_lock s = Some p" using run_ok_lock [OF assms(1), of p] Locked by (simp add: pc_defs)
  obtain now later where m: "m = Consume now later" using assms(2) Locked by (cases m) (auto simp: start_step_def)
  obtain mine db where d: "consume_consolidation_request i now later (rs_db s) = (mine, db)" by fastforce
  have s': "s' = (if mine then goto p (At_work i 0) (s\<lparr>rs_db := db\<rparr>)
      else goto p (Over Already_served) (drop_lock (purge c t (s\<lparr>rs_db := db\<rparr>))))"
    using assms(2) Locked m d by (auto simp: start_step_def Let_def split: if_splits)
  show ?thesis
    by (rule run_ok_move [OF assms(1), where at = "if mine then At_work i 0 else Over Already_served" and p = p])
      (auto simp: s' l Locked pc_defs)
qed (use assms(2) in \<open>simp_all add: start_step_def\<close>)

lemma run_ok_drain:
  assumes "run_ok s" "drain_step c t p m s = Some s'"
  shows "run_ok s'"
proof (cases "rs_pc s p")
  case (Freed n)
  note dr = run_ok_drained [OF assms(1), of p, unfolded Freed]
  have m: "m = Look" using assms(2) Freed by (cases m) (auto simp: drain_step_def)
  show ?thesis
  proof (cases "next_consolidation_request (rs_db s)")
    case None
    then have s': "s' = goto p (Over Ran_dry) (purge c t s)" using assms(2) Freed m by (simp add: drain_step_def)
    show ?thesis
      by (rule run_ok_move [OF assms(1), where p = p and at = "Over Ran_dry"]) (simp_all add: s' Freed pc_defs next_none_open [OF None])
  next
    case (Some q)
    then have s': "s' = goto p (Saw (q_id q) n) s" using assms(2) Freed m by (simp add: drain_step_def)
    show ?thesis
      by (rule run_ok_move [OF assms(1), where p = p and at = "Saw (q_id q) n"]) (use dr in \<open>simp_all add: s' Freed pc_defs\<close>)
  qed
next
  case (Saw i n)
  note dr = run_ok_drained [OF assms(1), of p, unfolded Saw]
  have m: "m = Try_lock" using assms(2) Saw by (cases m) (auto simp: drain_step_def)
  have s': "s' = (if rs_lock s = None then take_lock p (Relocked i n) (Over Lock_lost) s
      else goto p (Over Lock_lost) (purge c t s))" using assms(2) Saw m by (auto simp: drain_step_def split: if_splits)
  show ?thesis
    by (rule run_ok_move [OF assms(1), where at = "if rs_lock s = None then Relocked i n else Over Lock_lost" and p = p])
      (use dr in \<open>auto simp: s' take_lock_def Saw pc_defs split: if_splits\<close>)
next
  case (Relocked i n)
  note dr = run_ok_drained [OF assms(1), of p, unfolded Relocked]
  have l: "rs_lock s = Some p" using run_ok_lock [OF assms(1), of p] Relocked by (simp add: pc_defs)
  obtain now later where m: "m = Consume now later" using assms(2) Relocked by (cases m) (auto simp: drain_step_def)
  obtain mine db where d: "consume_consolidation_request i now later (rs_db s) = (mine, db)" by fastforce
  have s': "s' = (if mine then goto p (At_work i (Suc n)) (s\<lparr>rs_db := db\<rparr>)
      else goto p (Freed n) (drop_lock (s\<lparr>rs_db := db\<rparr>)))"
    using assms(2) Relocked m d by (auto simp: drain_step_def Let_def split: if_splits)
  show ?thesis
    by (rule run_ok_move [OF assms(1), where at = "if mine then At_work i (Suc n) else Freed n" and p = p])
      (use dr in \<open>auto simp: s' l Relocked pc_defs\<close>)
qed (use assms(2) in \<open>simp_all add: drain_step_def\<close>)

lemma run_ok_end_round:
  assumes "run_ok s" "rs_pc s p = At_work i n" "consolidation_requests db = consolidation_requests (rs_db s)"
  shows "run_ok (end_round c t p i n r spent (s\<lparr>rs_db := db\<rparr>))"
proof -
  have l: "rs_lock s = Some p" using run_ok_lock [OF assms(1), of p] assms(2) by (simp add: pc_defs)
  have dr: "n \<le> MAX_DRAIN_ROUNDS" using run_ok_drained [OF assms(1), of p] assms(2) by (simp add: pc_defs)
  show ?thesis
    by (rule run_ok_move [OF assms(1), where p = p and
          at = "if r = Finished \<and> n < MAX_DRAIN_ROUNDS \<and> \<not> spent then Freed n else Over Gave_up"])
      (use dr in \<open>auto simp: end_round_def l assms(2) pc_defs split: exec_result.split\<close>)
qed

lemma run_ok_step:
  assumes "run_ok s" "step c t p m s = Some s'"
  shows "run_ok s'"
proof (cases "rs_pc s p")
  case (At_work i n)
  show ?thesis
  proof (cases m)
    case Heal
    then have s': "s' = s\<lparr>rs_db := heal_store (rs_db s)\<rparr>" using assms(2) At_work by (simp add: step_def)
    show ?thesis using assms(1) heal_open by (auto simp: s' run_ok_def lock_matches_def minded_def)
  next
    case (End_exec r spent work)
    then show ?thesis using assms(2) At_work run_ok_end_round [OF assms(1) At_work]
      by (auto simp: step_def split: if_splits)
  qed (use assms(2) At_work in \<open>simp_all add: step_def\<close>)
qed (use assms(2) run_ok_start [OF assms(1)] run_ok_drain [OF assms(1)] in \<open>simp_all add: step_def\<close>)


lemma run_ok_schedule: "run_ok s \<Longrightarrow> schedule c ms s = Some s' \<Longrightarrow> run_ok s'"
proof (induction ms arbitrary: s)
  case (Cons m ms)
  obtain t p mv where m: "m = (t, p, mv)" by (cases m) auto
  obtain s1 where s1: "step c t p mv s = Some s1" "schedule c ms s1 = Some s'"
    using Cons.prems(2) m by (cases "step c t p mv s") auto
  show ?case by (rule Cons.IH [OF run_ok_step [OF Cons.prems(1) s1(1)] s1(2)])
qed simp

lemma run_ok_first: "\<not> asks_open db \<Longrightarrow> run_ok (first_sys db)"
  by (simp add: run_ok_def first_sys_def lock_matches_def minded_def pc_defs)

definition idle_pc :: "pc \<Rightarrow> bool" where
  "idle_pc at = (case at of Fresh \<Rightarrow> True | Over e \<Rightarrow> True | _ \<Rightarrow> False)"


text \<open>
  The second ending is real. Run 1 writes its ask and is slow; run 0 drains that ask and ends;
  run 1 takes the lock, run 2 writes its ask, finds the lock held and stands aside; run 1 finds
  its ask served and leaves without looking. Nobody gave up, and ask 2 waits for the next run.
\<close>

definition race :: "(int \<times> nat \<times> move) list" where
  "race =
     [(0, 0, Write_ask None True False [] []), (0, 0, Try_lock), (0, 0, Consume [90] [90]),
      (0, 1, Write_ask (Some [97]) False True [] []),
      (0, 0, End_exec Finished False (\<lambda>db. db)), (0, 0, Look), (0, 0, Try_lock), (0, 0, Consume [90] [90]),
      (0, 0, End_exec Finished False (\<lambda>db. db)), (0, 0, Look),
      (0, 1, Try_lock), (0, 2, Write_ask (Some [98]) False True [] []), (0, 2, Try_lock),
      (0, 1, Consume [90] [90])]"

lemmas race_defs = step_def start_step_def drain_step_def end_round_def move_defs
  add_consolidation_request_def next_ask_id_def consume_consolidation_request_def identical_asks_def
  next_consolidation_request_def purge_consumed_requests_def del_def sel_def upd_def row_of_def

lemma race_strands_an_ask:
  "\<exists>s. schedule sample_clock race (first_sys empty_store) = Some s \<and> asks_open (rs_db s) \<and>
     (\<forall>p. idle_pc (rs_pc s p)) \<and> (\<forall>p. rs_pc s p \<noteq> Over Gave_up)"
  by (simp add: race_def first_sys_def empty_store_def race_defs MAX_DRAIN_ROUNDS_def sample_clock_def
      idle_pc_def asks_open_def)



end
