(* ===== verification/Invocation.thy ===== *)
theory Invocation
  imports Ids Numerals
begin

text \<open>
  Who started the host program, \<open>src/src/invocation.rs\<close>: the classification of an argument line,
  of a chain of ancestors, the walk up the table \<open>ps\<close> printed, and the stored form. The output of
  \<open>ps\<close> and the environment are arguments.
\<close>

datatype invocation = Interactive | Headless

definition is_headless :: "invocation \<Rightarrow> bool" where
  "is_headless v = (v = Headless)"

fun invocation_str :: "invocation \<Rightarrow> rstr" where
  "invocation_str Interactive = lit ''interactive''"
| "invocation_str Headless = lit ''headless''"

definition parse_invocation :: "rstr \<Rightarrow> invocation" where
  "parse_invocation raw = (if raw = invocation_str Headless then Headless else Interactive)"

definition silenced :: "rstr option \<Rightarrow> bool" where
  "silenced value = (case value of None \<Rightarrow> False | Some v \<Rightarrow> v \<noteq> [] \<and> v \<noteq> lit ''0'')"

section \<open>One process\<close>

definition AGENT_PLUGIN_DIR :: rstr where "AGENT_PLUGIN_DIR = lit ''/.claude/plugins/''"

definition program_name :: "rstr \<Rightarrow> rstr" where
  "program_name p = (case file_name (path_components p) of Some n \<Rightarrow> n | None \<Rightarrow> p)"

definition classify_argv :: "rstr \<Rightarrow> invocation option" where
  "classify_argv argv =
     (case split_whitespace argv of
        [] \<Rightarrow> None
      | word # args \<Rightarrow>
          (let program = program_name word;
               own = (\<lambda>b. Some (if b then Headless else Interactive)) in
           if program = lit ''claude'' \<or> program = lit ''cursor-agent''
           then own (list_ex (\<lambda>a. a = lit ''-p'' \<or> a = lit ''--print'') args)
           else if program = lit ''codex''
           then own (case args of a # _ \<Rightarrow> a = lit ''exec'' | [] \<Rightarrow> False)
           else if program = lit ''agy''
           then own (list_ex (\<lambda>a. a = lit ''-p'' \<or> a = lit ''--print'' \<or> a = lit ''--prompt''
                  \<or> starts_with a (lit ''-p='')) args)
           else None))"

section \<open>A chain of processes, nearest first\<close>

definition hosted_by_an_agent :: "rstr list \<Rightarrow> bool" where
  "hosted_by_an_agent uppers = list_ex (\<lambda>argv. classify_argv argv \<noteq> None \<or> contains argv AGENT_PLUGIN_DIR) uppers"

fun first_host :: "rstr list \<Rightarrow> (invocation \<times> rstr list) option" where
  "first_host [] = None"
| "first_host (argv # uppers) =
     (case classify_argv argv of Some v \<Rightarrow> Some (v, uppers) | None \<Rightarrow> first_host uppers)"

definition classify_chain :: "rstr list \<Rightarrow> invocation" where
  "classify_chain procs =
     (case first_host procs of
        None \<Rightarrow> Interactive
      | Some (own, uppers) \<Rightarrow>
          (if is_headless own \<or> hosted_by_an_agent uppers then Headless else Interactive))"

definition host_of :: "(nat \<times> rstr) list \<Rightarrow> nat option" where
  "host_of procs = map_option fst (find (\<lambda>(_, argv). classify_argv argv \<noteq> None) procs)"

section \<open>The ancestors\<close>

definition MAX_ANCESTORS :: nat where "MAX_ANCESTORS = 32"

text \<open>\<open>split_once(char::is_whitespace)\<close>.\<close>

definition split_blank :: "rstr \<Rightarrow> (rstr \<times> rstr) option" where
  "split_blank s =
     (if list_ex is_ws s then Some (takeWhile (\<lambda>c. \<not> is_ws c) s, tl (dropWhile (\<lambda>c. \<not> is_ws c) s)) else None)"

definition ps_row :: "rstr \<Rightarrow> (nat \<times> nat \<times> rstr) option" where
  "ps_row line =
     (case split_blank (trim line) of None \<Rightarrow> None
      | Some (pid, rest) \<Rightarrow>
          (case split_blank (trim_start_by is_ws rest) of None \<Rightarrow> None
           | Some (ppid, argv) \<Rightarrow>
               (case (parse_u32 pid, parse_u32 (trim ppid)) of
                  (Some p, Some q) \<Rightarrow> Some (p, q, trim argv)
                | _ \<Rightarrow> None)))"

text \<open>The table is a map: a pid printed twice keeps its last row.\<close>

definition ps_table :: "rstr \<Rightarrow> nat \<Rightarrow> (nat \<times> rstr) option" where
  "ps_table printed = map_of (rev (List.map_filter ps_row (text_lines printed)))"

fun walk_up :: "nat \<Rightarrow> (nat \<Rightarrow> (nat \<times> rstr) option) \<Rightarrow> nat \<Rightarrow> (nat \<times> rstr) list" where
  "walk_up 0 table pid = []"
| "walk_up (Suc n) table pid =
     (case table pid of
        None \<Rightarrow> []
      | Some (up, argv) \<Rightarrow> (pid, argv) # (if up \<le> 1 then [] else walk_up n table up))"

definition process_chain :: "rstr option \<Rightarrow> nat \<Rightarrow> (nat \<times> rstr) list" where
  "process_chain printed me =
     (case printed of None \<Rightarrow> [] | Some out \<Rightarrow> walk_up MAX_ANCESTORS (ps_table out) me)"

definition classify_with_host :: "rstr option \<Rightarrow> nat \<Rightarrow> invocation \<times> nat option" where
  "classify_with_host printed me =
     (let procs = process_chain printed me in (classify_chain (map snd procs), host_of procs))"

definition host_pid :: "rstr option \<Rightarrow> nat \<Rightarrow> nat option" where
  "host_pid printed me = host_of (process_chain printed me)"

section \<open>What is promised\<close>

lemma invocation_roundtrip [simp]: "parse_invocation (invocation_str v) = v"
  by (cases v) (simp_all add: parse_invocation_def lit_def)

lemma walk_up_bounded: "length (walk_up n table pid) \<le> n"
  by (induction n arbitrary: pid) (auto split: option.split)

lemma first_host_skip: "classify_argv argv = None \<Longrightarrow> first_host (argv # procs) = first_host procs"
  by simp

text \<open>The reading of a chain: its nearest known program, then who is above it.\<close>

inductive reads_headless :: "rstr list \<Rightarrow> bool" where
  one_shot: "classify_argv argv = Some Headless \<Longrightarrow> reads_headless (argv # uppers)"
| delegate: "classify_argv argv = Some Interactive \<Longrightarrow> boss \<in> set uppers \<Longrightarrow>
    classify_argv boss \<noteq> None \<or> contains boss AGENT_PLUGIN_DIR \<Longrightarrow> reads_headless (argv # uppers)"
| below: "classify_argv argv = None \<Longrightarrow> reads_headless uppers \<Longrightarrow> reads_headless (argv # uppers)"

inductive_simps reads_headless_Cons: "reads_headless (argv # uppers)"
inductive_cases reads_headless_Nil [elim!]: "reads_headless []"

lemma classify_chain_headless: "classify_chain procs = Headless \<longleftrightarrow> reads_headless procs"
proof (induction procs)
  case Nil
  then show ?case by (auto simp: classify_chain_def)
next
  case (Cons argv uppers)
  show ?case
  proof (cases "classify_argv argv")
    case None
    then show ?thesis using Cons by (simp add: reads_headless_Cons classify_chain_def)
  next
    case (Some v)
    then show ?thesis
      by (cases v) (auto simp: reads_headless_Cons classify_chain_def is_headless_def hosted_by_an_agent_def list_ex_iff)
  qed
qed

lemma host_decides: "host_of procs = None \<Longrightarrow> classify_chain (map snd procs) = Interactive"
  by (induction procs) (auto simp: host_of_def classify_chain_def split: option.splits if_splits)

end
