(* ===== verification/Drain.thy ===== *)
theory Drain
  imports Store_Retention Invocation
begin

text \<open>
  One round of consolidation, \<open>src/src/consolidate.rs\<close>: which sessions wait, which are quiet, the
  pass over a project's sessions (\<open>drain_project\<close>), the settling of quiet and headless sessions at
  the head of \<open>consolidate_session\<close>, the loop over the projects of an ask (\<open>execute\<close>) and the
  row of the runs ledger. The summary of a session that is not settled, the answer of the model
  ladder, the upkeep of a project and the ULID reader are parameters.
\<close>

definition MIN_PENDING :: int where "MIN_PENDING = 3"
definition DEBOUNCE_SECS :: int where "DEBOUNCE_SECS = 5 * 60"
definition IDLE_SWEEP_AGE_SECS :: int where "IDLE_SWEEP_AGE_SECS = 2 * 3600"
definition QUIET_MAX_EVENTS :: nat where "QUIET_MAX_EVENTS = 3"

section \<open>Who waits\<close>

datatype tier = By_cli rstr | Rule_based | Quiet_tier | Headless_tier

text \<open>
  What a pass asks of the world: the clock, the milliseconds in a ULID, whether the ladder could
  answer a CLI's session, the time each session's turn comes, and the work on one session.
\<close>

record drain_env =
  de_clock :: clock
  de_ulid_ms :: "rstr \<Rightarrow> nat option"
  de_could :: "rstr \<Rightarrow> store \<Rightarrow> bool"
  de_now :: "rstr \<Rightarrow> int"
  de_work :: "pending_session \<Rightarrow> store \<Rightarrow> (rstr + tier) \<times> store"

record pass =
  pa_session :: "rstr option"
  pa_force :: bool
  pa_began :: int
  pa_deadline :: "int option"
  pa_idle :: bool

definition quiet_for :: "drain_env \<Rightarrow> rstr \<Rightarrow> int \<Rightarrow> int \<Rightarrow> bool" where
  "quiet_for e newest secs now =
     (case de_ulid_ms e newest of None \<Rightarrow> True
      | Some ms \<Rightarrow> as_second now - min I64_MAX (int (ms div 1000)) \<ge> secs)"

definition session_is_settled :: "drain_env \<Rightarrow> rstr \<Rightarrow> int \<Rightarrow> bool" where
  "session_is_settled e newest now = quiet_for e newest STALE_BACKLOG_SECS now"

definition is_idle_work :: "drain_env \<Rightarrow> pending_session \<Rightarrow> int \<Rightarrow> store \<Rightarrow> bool" where
  "is_idle_work e p now db =
     (quiet_for e (ps_newest p) IDLE_SWEEP_AGE_SECS now \<and>
      \<not> (case session_run (ps_session p) db of None \<Rightarrow> False
         | Some (_, _, last_tier) \<Rightarrow> last_tier = Some (lit ''rule-based'')))"

definition should_wait :: "drain_env \<Rightarrow> pending_session \<Rightarrow> bool \<Rightarrow> int \<Rightarrow> store \<Rightarrow> bool" where
  "should_wait e p retriable now db =
     (case session_run (ps_session p) db of
        None \<Rightarrow>
          (if ps_pending p \<ge> MIN_PENDING then False
           else \<not> session_is_settled e (ps_newest p) now)
      | Some (last_run_at, last_event_id, last_tier) \<Rightarrow>
          (let was_rule_based = (last_tier = Some (lit ''rule-based'')) in
           if last_event_id = Some (ps_newest p) then \<not> (was_rule_based \<and> retriable)
           else case Option.bind last_run_at (parse_ts (de_clock e)) of
                  None \<Rightarrow> False
                | Some at \<Rightarrow> as_second now - as_second at < DEBOUNCE_SECS \<and> \<not> was_rule_based))"

section \<open>One session's turn\<close>

definition superseded :: "drain_env \<Rightarrow> pass \<Rightarrow> pending_session \<Rightarrow> store \<Rightarrow> bool" where
  "superseded e pa p db =
     (case session_run (ps_session p) db of None \<Rightarrow> False
      | Some (last_run_at, last_event_id, _) \<Rightarrow>
          last_event_id = Some (ps_newest p) \<and>
          (case Option.bind last_run_at (parse_ts (de_clock e)) of None \<Rightarrow> False
           | Some at \<Rightarrow> at > pa_began pa))"

definition note_failure :: "drain_env \<Rightarrow> rstr \<Rightarrow> rstr \<Rightarrow> rstr \<Rightarrow> store \<Rightarrow> store" where
  "note_failure e session project why db =
     (case record_session_failure session project why (show_ts (de_clock e) (de_now e session)) db of
        None \<Rightarrow> db | Some db' \<Rightarrow> db')"

lemma record_session_failure_total: "record_session_failure s p why now db \<noteq> None"
  using truncate_bounded [of why 500] by (auto simp: record_session_failure_def truncate_error_def)

definition FLOOR_FAILURE :: rstr where
  "FLOOR_FAILURE = lit ''fell to the rule-based summary although a model was reachable''"

datatype turn = Passed_over | Out_of_time | Skipped | Failed_turn rstr | Done_turn tier

definition take_turn :: "drain_env \<Rightarrow> pass \<Rightarrow> rstr \<Rightarrow> pending_session \<Rightarrow> store \<Rightarrow> turn \<times> store" where
  "take_turn e pa project p db =
     (let now = de_now e (ps_session p) in
      if (case pa_session pa of None \<Rightarrow> False | Some s \<Rightarrow> ps_session p \<noteq> s) then (Passed_over, db)
      else if pa_idle pa \<and> \<not> is_idle_work e p now db then (Passed_over, db)
      else if (case pa_deadline pa of None \<Rightarrow> False | Some d \<Rightarrow> now \<ge> d) then (Out_of_time, db)
      else let retriable = de_could e (ps_cli p) db in
        if \<not> pa_force pa \<and> should_wait e p retriable now db then (Skipped, db)
        else let (granted, db1) = claim_session (de_clock e) (ps_session p) project now db in
          if \<not> granted then (Skipped, db1)
          else if superseded e pa p db1 then (Skipped, release_session (ps_session p) db1)
          else let (result, db2) = de_work e p db1; db3 = release_session (ps_session p) db2 in
            case result of
              Inl why \<Rightarrow> (Failed_turn why, note_failure e (ps_session p) project why db3)
            | Inr t \<Rightarrow>
                (Done_turn t,
                 if t = Rule_based \<and> retriable \<and> \<not> pa_idle pa
                 then note_failure e (ps_session p) project FLOOR_FAILURE db3 else db3))"

section \<open>The pass over a project\<close>

record outcome =
  oc_sessions :: nat
  oc_events :: nat
  oc_skipped :: nat
  oc_tiers :: "rstr list"
  oc_quiet :: nat
  oc_failed :: nat

definition no_outcome :: outcome where
  "no_outcome = \<lparr>oc_sessions = 0, oc_events = 0, oc_skipped = 0, oc_tiers = [], oc_quiet = 0, oc_failed = 0\<rparr>"

fun tier_str :: "tier \<Rightarrow> rstr" where
  "tier_str (By_cli c) = c"
| "tier_str Rule_based = lit ''rule-based''"
| "tier_str Quiet_tier = lit ''quiet''"
| "tier_str Headless_tier = lit ''headless''"

fun tally :: "pending_session \<Rightarrow> turn \<Rightarrow> outcome \<Rightarrow> outcome" where
  "tally p Skipped o' = o'\<lparr>oc_skipped := oc_skipped o' + 1\<rparr>"
| "tally p (Failed_turn why) o' = o'\<lparr>oc_failed := oc_failed o' + 1\<rparr>"
| "tally p (Done_turn t) o' =
     o'\<lparr>oc_sessions := oc_sessions o' + 1,
        oc_events := oc_events o' + (if ps_pending p < 0 then 0 else nat (ps_pending p)),
        oc_quiet := oc_quiet o' + (if t = Quiet_tier \<or> t = Headless_tier then 1 else 0),
        oc_tiers := oc_tiers o' @ [tier_str t]\<rparr>"
| "tally p _ o' = o'"

fun drain_sessions :: "drain_env \<Rightarrow> pass \<Rightarrow> rstr \<Rightarrow> pending_session list \<Rightarrow> outcome \<Rightarrow> store \<Rightarrow> bool \<times> outcome \<times> store" where
  "drain_sessions e pa project [] o' db = (True, o', db)"
| "drain_sessions e pa project (p # ps) o' db =
     (let (t, db') = take_turn e pa project p db in
      if t = Out_of_time then (False, o', db')
      else drain_sessions e pa project ps (tally p t o') db')"

definition drain_project :: "drain_env \<Rightarrow> pass \<Rightarrow> rstr \<Rightarrow> outcome \<Rightarrow> store \<Rightarrow> bool \<times> outcome \<times> store" where
  "drain_project e pa project o' db = drain_sessions e pa project (sessions_pending project db) o' db"

section \<open>Settling without a model\<close>

text \<open>\<open>Store::get\<close>: the columns of a row as an event.\<close>

definition row_event :: "event_row \<Rightarrow> event" where
  "row_event r =
     \<lparr>ev_v = SCHEMA_VERSION, ev_id = r_id r, ev_ts = r_ts r, ev_workspace = r_workspace r,
      ev_project = r_project r, ev_session = r_session r,
      ev_source = \<lparr>src_cli = r_cli r, src_hook = r_hook r\<rparr>, ev_kind = r_kind r,
      ev_title = r_title r, ev_body = r_body r, ev_files = r_files r, ev_links = [],
      ev_topic = r_topic r, ev_agent = r_agent r, ev_origin = None, ev_class = None,
      ev_expires = None, ev_cites = [], ev_scope = None, ev_commands = [],
      ev_consolidated = r_consolidated r, ev_extra = []\<rparr>"

definition get_events :: "rstr list \<Rightarrow> store \<Rightarrow> event list" where
  "get_events ids db = List.map_filter (\<lambda>i. map_option row_event (event_of i db)) ids"

definition is_delegate_footstep :: "event \<Rightarrow> bool" where
  "is_delegate_footstep ev = (ev_agent ev \<noteq> None \<and> src_hook (ev_source ev) \<noteq> lit ''subagent_stop'')"

definition is_quiet :: "event list \<Rightarrow> bool" where
  "is_quiet es =
     (length es \<le> QUIET_MAX_EVENTS \<and>
      \<not> list_ex (\<lambda>ev. let hook = src_hook (ev_source ev) in
          is_user_prompt hook
          \<or> (hook = lit ''stop'' \<and> ev_title ev \<noteq> lit ''Turn finished'')
          \<or> (hook = lit ''subagent_stop'' \<and> ev_agent ev \<noteq> None)
          \<or> ev_files ev \<noteq> []
          \<or> ev_topic ev \<noteq> None) es)"

definition session_is_headless :: "rstr \<Rightarrow> store \<Rightarrow> bool" where
  "session_is_headless session db =
     (case row_of fst session (session_invocation db) of None \<Rightarrow> False
      | Some (_, raw) \<Rightarrow> is_headless (parse_invocation raw))"

text \<open>The head of \<open>consolidate_session\<close>: \<open>None\<close> when the session has to be summarized.\<close>

definition settle_session :: "rstr \<Rightarrow> rstr \<Rightarrow> pending_session \<Rightarrow> bool \<Rightarrow> store \<Rightarrow> (tier \<times> store) option" where
  "settle_session project now p force db =
     (let es = get_events (session_events (ps_session p) db) db;
          settle = (\<lambda>t. record_session_run (ps_session p) project (ps_newest p) t now
                          (mark_consolidated (map ev_id es) db))
      in if es = [] then Some (Rule_based, db)
         else if is_quiet (filter (\<lambda>ev. \<not> is_delegate_footstep ev) es)
         then Some (Quiet_tier, settle (lit ''quiet''))
         else if \<not> force \<and> session_is_headless (ps_session p) db
         then Some (Headless_tier, settle (lit ''headless''))
         else None)"

definition consolidate_session ::
    "(pending_session \<Rightarrow> store \<Rightarrow> (rstr + tier) \<times> store) \<Rightarrow> rstr \<Rightarrow> rstr \<Rightarrow> bool
     \<Rightarrow> pending_session \<Rightarrow> store \<Rightarrow> (rstr + tier) \<times> store" where
  "consolidate_session summarize project now force p db =
     (case settle_session project now p force db of
        Some (t, db') \<Rightarrow> (Inr t, db')
      | None \<Rightarrow> summarize p db)"

section \<open>An ask\<close>

definition nothing_to_serve :: "rstr option \<Rightarrow> bool \<Rightarrow> store \<Rightarrow> bool" where
  "nothing_to_serve session force db =
     (case session of Some s \<Rightarrow> if \<not> force then \<not> session_has_pending s db else False | None \<Rightarrow> False)"

text \<open>
  The loop over the projects: upkeep (vectors, hand edits, duplicates), the revival a forced ask
  for one session makes, the pass; a project whose pass ran out of time ends the round.
\<close>

fun serve_projects ::
    "(rstr \<Rightarrow> store \<Rightarrow> store) \<Rightarrow> (rstr \<Rightarrow> drain_env) \<Rightarrow> pass \<Rightarrow> rstr list \<Rightarrow> outcome \<Rightarrow> store
     \<Rightarrow> bool \<times> outcome \<times> store" where
  "serve_projects upkeep env pa [] o' db = (True, o', db)"
| "serve_projects upkeep env pa (project # rest) o' db =
     (let db1 = upkeep project db;
          db2 = (if pa_force pa then (case pa_session pa of Some s \<Rightarrow> revive_session s db1 | None \<Rightarrow> db1) else db1);
          (done', o1, db3) = drain_project (env project) pa project o' db2
      in if \<not> done' then (False, o1, db3) else serve_projects upkeep env pa rest o1 db3)"

text \<open>One row of the runs ledger.\<close>

record run_row =
  rr_started :: rstr
  rr_ended :: rstr
  rr_mode :: rstr
  rr_yielded :: bool
  rr_sessions :: int
  rr_events :: int
  rr_failed :: int
  rr_rule_based :: int
  rr_error :: "rstr option"

definition count_i64 :: "nat \<Rightarrow> int" where
  "count_i64 n = (if int n \<le> I64_MAX then int n else I64_MAX)"

definition run_row_of :: "rstr option \<Rightarrow> bool \<Rightarrow> bool \<Rightarrow> rstr \<Rightarrow> rstr \<Rightarrow> rstr + (bool \<times> outcome) \<Rightarrow> run_row" where
  "run_row_of session all_projects idle started ended result =
     (let (yielded, oc) = (case result of Inl _ \<Rightarrow> (False, no_outcome) | Inr r \<Rightarrow> r) in
      \<lparr>rr_started = started, rr_ended = ended,
       rr_mode = (if idle then lit ''idle'' else if session \<noteq> None then lit ''session''
                  else if all_projects then lit ''all'' else lit ''project''),
       rr_yielded = yielded,
       rr_sessions = count_i64 (oc_sessions oc), rr_events = count_i64 (oc_events oc),
       rr_failed = count_i64 (oc_failed oc),
       rr_rule_based = count_i64 (length (filter (\<lambda>t. t = lit ''rule-based'') (oc_tiers oc))),
       rr_error = (case result of Inl why \<Rightarrow> Some why | Inr _ \<Rightarrow> None)\<rparr>)"

text \<open>\<open>transcript_source\<close>, with the Cursor lookup and the home directory as arguments.\<close>

definition transcript_source ::
    "(path \<Rightarrow> rstr \<Rightarrow> path option) \<Rightarrow> rstr option \<Rightarrow> rstr \<Rightarrow> path option \<Rightarrow> rstr \<Rightarrow> path option" where
  "transcript_source cursor stored cli home session =
     (case stored of Some p \<Rightarrow> Some (path_components p)
      | None \<Rightarrow> if cli = lit ''cursor'' then Option.bind home (\<lambda>h. cursor h session) else None)"


section \<open>One row at a time\<close>

text \<open>An operation that reads and writes the row of one session only.\<close>

definition on_row :: "rstr \<Rightarrow> (store \<Rightarrow> store) \<Rightarrow> (session_row option \<Rightarrow> session_row option) \<Rightarrow> bool" where
  "on_row s f g =
     ((\<forall>db. session_of s (f db) = g (session_of s db)) \<and> (\<forall>t db. t \<noteq> s \<longrightarrow> session_of t (f db) = session_of t db))"

lemma on_row_own: "on_row s f g \<Longrightarrow> session_of s (f db) = g (session_of s db)"
  by (simp add: on_row_def)

lemma on_row_other: "on_row s f g \<Longrightarrow> t \<noteq> s \<Longrightarrow> session_of t (f db) = session_of t db"
  by (simp add: on_row_def)

lemma on_row_release:
  "on_row s (release_session s) (map_option (\<lambda>r. r\<lparr>s_claimed_at := None\<rparr>))"
  by (simp add: on_row_def release_session_def row_of_upd_key)

definition claims_row :: "clock \<Rightarrow> int \<Rightarrow> session_row option \<Rightarrow> bool" where
  "claims_row c now r =
     (case Option.bind r s_claimed_at of None \<Rightarrow> True | Some t \<Rightarrow> t < show_ts c (now - CLAIM_STALE_SECS * SEC))"

lemma claim_granted: "fst (claim_session c s project now db) = claims_row c now (session_of s db)"
  by (cases "session_of s db") (auto simp: claim_session_def claims_row_def Let_def split: option.split)

lemma on_row_claim:
  "on_row s (\<lambda>db. snd (claim_session c s project now db))
     (\<lambda>r. if claims_row c now r
          then Some ((case r of None \<Rightarrow> new_session_row s project | Some r' \<Rightarrow> r')\<lparr>s_claimed_at := Some (show_ts c now)\<rparr>)
          else r)"
proof -
  let ?f = "\<lambda>db. snd (claim_session c s project now db)"
  have "session_of s (?f db) = (if claims_row c now (session_of s db)
      then Some ((case session_of s db of None \<Rightarrow> new_session_row s project | Some r' \<Rightarrow> r')\<lparr>s_claimed_at := Some (show_ts c now)\<rparr>)
      else session_of s db)" for db
    by (cases "session_of s db")
      (auto simp: claim_session_def claims_row_def Let_def row_of_append_new row_of_upd_key new_session_row_def
        split: option.splits)
  moreover have "session_of t (?f db) = session_of t db" if "t \<noteq> s" for t db
    using that by (cases "session_of s db")
      (auto simp: claim_session_def Let_def row_of_append_new row_of_upd_key new_session_row_def split: option.splits)
  ultimately show ?thesis by (simp add: on_row_def)
qed

lemma on_row_failure: "\<exists>g. on_row s (note_failure e s project why) g"
proof -
  obtain w where w: "truncate_error why = Some w"
    using truncate_bounded [of why 500] by (auto simp: truncate_error_def)
  then show ?thesis
    by (auto simp: on_row_def note_failure_def record_session_failure_def row_of_put new_session_row_def)
qed

lemma failure_keeps_claim: "claimed_at t (note_failure e s project why db) = claimed_at t db"
proof -
  obtain w where w: "truncate_error why = Some w"
    using truncate_bounded [of why 500] by (auto simp: truncate_error_def)
  then show ?thesis
    by (auto simp: claimed_at_def note_failure_def record_session_failure_def row_of_put new_session_row_def
        split: option.split)
qed

lemma release_frees: "claimed_at s (release_session s db) = None"
  by (cases "session_of s db") (simp_all add: claimed_at_def on_row_own [OF on_row_release])

lemma session_run_row: "session_of s db = session_of s db' \<Longrightarrow> session_run s db = session_run s db'"
  by (simp add: session_run_def)

section \<open>Sessions do not disturb each other\<close>

text \<open>
  The work on a session answers by what that session's row says and touches no other row of
  \<open>session_state\<close>, and the ladder gives one answer for a CLI through the pass.
\<close>

definition steady :: "drain_env \<Rightarrow> (rstr \<Rightarrow> bool) \<Rightarrow> (pending_session \<Rightarrow> session_row option \<Rightarrow> rstr + tier)
    \<Rightarrow> (pending_session \<Rightarrow> session_row option \<Rightarrow> session_row option) \<Rightarrow> bool" where
  "steady e could res own =
     ((\<forall>cli db. de_could e cli db = could cli) \<and>
      (\<forall>p db. fst (de_work e p db) = res p (session_of (ps_session p) db)) \<and>
      (\<forall>p. on_row (ps_session p) (\<lambda>db. snd (de_work e p db)) (own p)))"

lemma take_turn_same:
  assumes "steady e could res own" "session_of (ps_session p) db = session_of (ps_session p) db'"
  shows "fst (take_turn e pa project p db) = fst (take_turn e pa project p db') \<and>
    session_of (ps_session p) (snd (take_turn e pa project p db)) =
    session_of (ps_session p) (snd (take_turn e pa project p db'))"
proof -
  let ?s = "ps_session p"
  let ?c = "\<lambda>d. snd (claim_session (de_clock e) ?s project (de_now e ?s) d)"
  let ?w = "\<lambda>d. snd (de_work e p (?c d))"
  let ?r = "\<lambda>d. release_session ?s (?w d)"
  note run = session_run_row [OF assms(2)]
  have c: "session_of ?s (?c db) = session_of ?s (?c db')"
    using assms(2) by (simp add: on_row_own [OF on_row_claim])
  have w: "session_of ?s (?w db) = session_of ?s (?w db')" "fst (de_work e p (?c db)) = fst (de_work e p (?c db'))"
    using assms(1) c by (simp_all add: steady_def on_row_def)
  have r: "session_of ?s (?r db) = session_of ?s (?r db')"
    "session_of ?s (release_session ?s (?c db)) = session_of ?s (release_session ?s (?c db'))"
    using w c by (simp_all add: on_row_own [OF on_row_release])
  have f: "session_of ?s (note_failure e ?s project why (?r db)) = session_of ?s (note_failure e ?s project why (?r db'))" for why
    using on_row_failure [of ?s e project why] r(1) by (auto simp: on_row_def)
  have wait: "should_wait e p b (de_now e ?s) db = should_wait e p b (de_now e ?s) db'" for b
    by (simp add: should_wait_def run)
  have idle: "is_idle_work e p (de_now e ?s) db = is_idle_work e p (de_now e ?s) db'"
    by (simp add: is_idle_work_def run)
  have sup: "superseded e pa p (?c db) = superseded e pa p (?c db')"
    by (simp add: superseded_def session_run_row [OF c])
  have grant: "fst (claim_session (de_clock e) ?s project (de_now e ?s) db) = fst (claim_session (de_clock e) ?s project (de_now e ?s) db')"
    using assms(2) by (simp add: claim_granted)
  have could: "de_could e (ps_cli p) d = could (ps_cli p)" for d using assms(1) by (simp add: steady_def)
  show ?thesis
    using assms(2) c w r f
    by (simp add: take_turn_def Let_def case_prod_unfold wait idle sup grant could split: sum.split)
qed

lemma take_turn_other:
  assumes "steady e could res own" "t \<noteq> ps_session p"
  shows "session_of t (snd (take_turn e pa project p db)) = session_of t db"
proof -
  have w: "session_of t (snd (de_work e p d)) = session_of t d" for d
    using assms by (simp add: steady_def on_row_def)
  have f: "session_of t (note_failure e (ps_session p) project why d) = session_of t d" for why d
    using on_row_failure [of "ps_session p" e project why] assms(2) by (auto simp: on_row_def)
  show ?thesis using assms(2)
    by (simp add: take_turn_def Let_def case_prod_unfold on_row_other [OF on_row_claim] on_row_other [OF on_row_release] w f
        split: sum.split)
qed

lemma drain_sessions_alone:
  assumes "steady e could res own" "pa_deadline pa = None" "distinct (map ps_session ps)"
    and "\<forall>p\<in>set ps. session_of (ps_session p) db = session_of (ps_session p) db0"
  shows "\<exists>db'. drain_sessions e pa project ps o' db =
      (True, foldl (\<lambda>a p. tally p (fst (take_turn e pa project p db0)) a) o' ps, db') \<and>
    (\<forall>p\<in>set ps. session_of (ps_session p) db' = session_of (ps_session p) (snd (take_turn e pa project p db0))) \<and>
    (\<forall>t. t \<notin> ps_session ` set ps \<longrightarrow> session_of t db' = session_of t db)"
  using assms(3,4)
proof (induction ps arbitrary: o' db)
  case (Cons p ps)
  let ?d = "snd (take_turn e pa project p db)"
  have same: "fst (take_turn e pa project p db) = fst (take_turn e pa project p db0)"
    "session_of (ps_session p) ?d = session_of (ps_session p) (snd (take_turn e pa project p db0))"
    using take_turn_same [OF assms(1), of p db db0] Cons.prems(2) by auto
  have "fst (take_turn e pa project p db) \<noteq> Out_of_time"
    by (simp add: take_turn_def Let_def assms(2) case_prod_unfold split: sum.split)
  then have go: "drain_sessions e pa project (p # ps) o' db =
      drain_sessions e pa project ps (tally p (fst (take_turn e pa project p db0)) o') ?d"
    using same(1) by (simp add: case_prod_unfold)
  have other: "session_of t ?d = session_of t db" if "t \<noteq> ps_session p" for t
    using take_turn_other [OF assms(1) that] .
  have "\<forall>q\<in>set ps. session_of (ps_session q) ?d = session_of (ps_session q) db0"
    using Cons.prems other by (metis distinct.simps(2) image_eqI list.set_intros(2) list.set_map list.simps(9))
  then obtain db' where d: "drain_sessions e pa project ps (tally p (fst (take_turn e pa project p db0)) o') ?d =
      (True, foldl (\<lambda>a p. tally p (fst (take_turn e pa project p db0)) a) (tally p (fst (take_turn e pa project p db0)) o') ps, db')"
    "\<forall>q\<in>set ps. session_of (ps_session q) db' = session_of (ps_session q) (snd (take_turn e pa project q db0))"
    "\<forall>t. t \<notin> ps_session ` set ps \<longrightarrow> session_of t db' = session_of t ?d"
    using Cons.IH [of ?d] Cons.prems(1) by fastforce
  have "session_of (ps_session p) db' = session_of (ps_session p) (snd (take_turn e pa project p db0))"
    using d(3) same(2) Cons.prems(1) by simp
  then show ?case using d go other by auto
qed simp

lemma sessions_pending_distinct: "distinct (map ps_session (sessions_pending project db))"
  by (simp add: sessions_pending_def Let_def distinct_sort_map comp_def)

definition worked_on :: "turn \<Rightarrow> bool" where
  "worked_on t = (case t of Failed_turn why \<Rightarrow> True | Done_turn x \<Rightarrow> True | _ \<Rightarrow> False)"

lemma take_turn_frees:
  "worked_on (fst (take_turn e pa project p db)) \<Longrightarrow> claimed_at (ps_session p) (snd (take_turn e pa project p db)) = None"
  by (auto simp: take_turn_def Let_def case_prod_unfold worked_on_def failure_keeps_claim release_frees
      split: sum.splits if_splits)


text \<open>How many: with no filter and no idle rule every session is worked on, skipped or failed.\<close>

lemma tally_counts:
  assumes "\<forall>p\<in>set ps. f p \<noteq> Passed_over \<and> f p \<noteq> Out_of_time"
  shows "oc_sessions (foldl (\<lambda>a p. tally p (f p) a) o' ps) + oc_skipped (foldl (\<lambda>a p. tally p (f p) a) o' ps)
      + oc_failed (foldl (\<lambda>a p. tally p (f p) a) o' ps) =
    oc_sessions o' + oc_skipped o' + oc_failed o' + length ps"
  using assms
proof (induction ps arbitrary: o')
  case (Cons p ps)
  then show ?case by (cases "f p") auto
qed simp

section \<open>Waiting does not last\<close>

text \<open>
  Fifteen minutes after its newest event and five after its last run, a session is taken, unless
  a run already covers what it holds and redoing it could not help.
\<close>

lemma waiting_ends:
  assumes "\<And>ms. de_ulid_ms e (ps_newest p) = Some ms \<Longrightarrow> int (ms div 1000) + STALE_BACKLOG_SECS \<le> as_second now"
    and "\<And>at i t k. session_run (ps_session p) db = Some (at, i, t) \<Longrightarrow> Option.bind at (parse_ts (de_clock e)) = Some k \<Longrightarrow>
      as_second k + DEBOUNCE_SECS \<le> as_second now"
    and "\<And>at t. session_run (ps_session p) db = Some (at, Some (ps_newest p), t) \<Longrightarrow> t = Some (lit ''rule-based'') \<and> retriable"
  shows "\<not> should_wait e p retriable now db"
proof (cases "session_run (ps_session p) db")
  case None
  then show ?thesis using assms(1)
    by (auto simp: should_wait_def session_is_settled_def quiet_for_def min_def split: option.splits dest!: assms(1))
next
  case (Some r)
  obtain at i t where r: "r = (at, i, t)" by (cases r) auto
  show ?thesis
  proof (cases "i = Some (ps_newest p)")
    case True
    then show ?thesis using Some r assms(3) by (simp add: should_wait_def)
  next
    case False
    then show ?thesis using Some r assms(2) [of at i t]
      by (auto simp: should_wait_def Let_def split: option.split dest!: assms(2))
  qed
qed

section \<open>Settling\<close>

lemma event_of_mark:
  "event_of i (mark_consolidated is db) =
     map_option (\<lambda>r. if i \<in> set is then r\<lparr>r_consolidated := True\<rparr> else r) (event_of i db)"
proof (induction "is" arbitrary: db)
  case Nil
  then show ?case by (simp add: mark_consolidated_def option.map_ident)
next
  case (Cons j js)
  have "mark_consolidated (j # js) db = mark_consolidated js (upd_event j (\<lambda>r. r\<lparr>r_consolidated := True\<rparr>) db)"
    by (simp add: mark_consolidated_def)
  moreover have "event_of i (upd_event j (\<lambda>r. r\<lparr>r_consolidated := True\<rparr>) db) =
      (if i = j then map_option (\<lambda>r. r\<lparr>r_consolidated := True\<rparr>) (event_of i db) else event_of i db)"
    by (rule event_of_upd) simp
  ultimately show ?case using Cons by (cases "event_of i db") auto
qed


section \<open>Examples\<close>

definition quiet_row :: "string \<Rightarrow> event_row" where
  "quiet_row i = (sample_row 1 i)\<lparr>r_project := lit ''A'', r_hook := lit ''session_start'', r_consolidated := False\<rparr>"

definition quiet_db :: store where
  "quiet_db = empty_store\<lparr>events := [quiet_row ''1'']\<rparr>"

definition sample_env :: "rstr \<Rightarrow> drain_env" where
  "sample_env project = \<lparr>de_clock = sample_clock, de_ulid_ms = (\<lambda>_. None), de_could = (\<lambda>_ _. True), de_now = (\<lambda>_. 0),
     de_work = consolidate_session (\<lambda>p db. (Inl [], db)) project [48] True\<rparr>"

definition forced_pass :: pass where
  "forced_pass = \<lparr>pa_session = Some (lit ''s''), pa_force = True, pa_began = 0, pa_deadline = None, pa_idle = False\<rparr>"

lemma forced_quiet_session_stays_quiet:
  "(let (d, oc, db) = serve_projects (\<lambda>_ db. db) sample_env forced_pass [lit ''A''] no_outcome quiet_db
    in oc_tiers oc = [lit ''quiet''] \<and> \<not> session_has_pending (lit ''s'') db)"
  by code_simp

lemma forced_ask_for_all_unsettles:
  "(let (d, oc, db) = serve_projects (\<lambda>_ db. db) sample_env forced_pass [lit ''A'', lit ''B''] no_outcome quiet_db
    in d \<and> oc_tiers oc = [lit ''quiet''] \<and> session_has_pending (lit ''s'') db \<and> session_run (lit ''s'') db = None)"
  by code_simp


definition two_db :: store where
  "two_db = empty_store\<lparr>events := [(quiet_row ''1'')\<lparr>r_session := lit ''a''\<rparr>, (quiet_row ''2'')\<lparr>r_session := lit ''b''\<rparr>]\<rparr>"

definition failing_env :: drain_env where
  "failing_env = \<lparr>de_clock = sample_clock, de_ulid_ms = (\<lambda>_. None), de_could = (\<lambda>_ _. True), de_now = (\<lambda>_. 0),
     de_work = (\<lambda>p db. (if ps_session p = lit ''a'' then Inl (lit ''broken'') else Inr Quiet_tier, db))\<rparr>"

definition open_pass :: pass where
  "open_pass = \<lparr>pa_session = None, pa_force = False, pa_began = 0, pa_deadline = None, pa_idle = False\<rparr>"

lemma failing_env_turns:
  "(let o' = foldl (\<lambda>a p. tally p (fst (take_turn failing_env open_pass (lit ''A'') p two_db)) a) no_outcome
       (sessions_pending (lit ''A'') two_db)
    in oc_failed o' = 1 \<and> oc_sessions o' = 1 \<and> oc_skipped o' = 0)"
  by code_simp


end
