(* ===== verification/Portable.thy ===== *)
theory Portable
  imports Ids Numerals "HOL-Library.Sublist"
begin

text \<open>
  Moving a brain between machines, \<open>src/src/portable.rs\<close>: the checks an archive has to pass, the
  graft of the unpacked tree, the merge of two logs by event id, and the export's own check.
  \<open>tar\<close> is a parameter: what it lists, how many bytes it measures and the tree it unpacks, each of
  them possibly an error. The data directory is a map from a path relative to it to the text of a
  regular file; creating folders and writing files succeed.
\<close>

section \<open>Limits and names\<close>

record limits =
  li_members :: nat
  li_path_bytes :: nat
  li_depth :: nat
  li_log_bytes :: nat
  li_unpacked_bytes :: nat
  li_ratio :: nat
  li_ratio_floor :: nat

definition LIMITS :: limits where
  "LIMITS = \<lparr>li_members = 200000, li_path_bytes = 512, li_depth = 32, li_log_bytes = 2 * 2 ^ 30,
     li_unpacked_bytes = 32 * 2 ^ 30, li_ratio = 100, li_ratio_floor = 64 * 2 ^ 20\<rparr>"

definition WIKI_DIR :: rstr where "WIKI_DIR = lit ''Rolepod Brain''"
definition LEGACY_WIKI_DIR :: rstr where "LEGACY_WIKI_DIR = lit ''wiki''"

datatype existing = Refuse | Merge | Replace

definition is_hidden :: "rstr \<Rightarrow> bool" where
  "is_hidden raw =
     (let name = map ascii_lower raw; trimmed = trim_end_by (\<lambda>c. c = 46 \<or> c = 32) name in
      trimmed = lit ''.git'' \<or> trimmed = lit ''.obsidian''
      \<or> starts_with name (lit ''git~'') \<or> starts_with name (lit ''obsidi~'')
      \<or> 58 \<in> set name
      \<or> (starts_with name [46] \<and> \<not> list_all (\<lambda>c. c < 128) name))"

datatype import_error =
    No_archive
  | Brain_exists
  | Tar_failed
  | Listing_too_long
  | Too_many
  | Path_too_long
  | Unsafe_path
  | Too_deep
  | Outside_wiki
  | Not_regular
  | Too_big
  | Past_limits
  | Grew
  | Log_too_big

section \<open>What the listing says\<close>

text \<open>A bounded tar run: what it wrote and, when kept, the text; or stopped past the limit.\<close>

datatype ran = Ran nat rstr | Past_limit

record tar =
  tar_list :: "rstr \<Rightarrow> nat \<Rightarrow> import_error + ran"
  tar_measure :: "nat \<Rightarrow> import_error + ran"

fun add_folders :: "limits \<Rightarrow> nat \<Rightarrow> path \<Rightarrow> path \<Rightarrow> path list \<Rightarrow> import_error + path list" where
  "add_folders lim members done' [] folders = Inr folders"
| "add_folders lim members done' (n # ns) folders =
     (let folder = done' @ [n] in
      if folder \<in> set folders then add_folders lim members folder ns folders
      else if members + length (folder # folders) \<le> li_members lim
      then add_folders lim members folder ns (folder # folders)
      else Inl Too_many)"

definition wiki_name :: "rstr \<Rightarrow> bool" where
  "wiki_name n = (n = WIKI_DIR \<or> n = LEGACY_WIKI_DIR)"

text \<open>One listed member; \<open>names\<close> are its components without the dots that mean here.\<close>

definition check_member :: "limits \<Rightarrow> bool \<Rightarrow> nat \<Rightarrow> rstr \<Rightarrow> path list \<Rightarrow> import_error + path list" where
  "check_member lim with_config members line folders =
     (if blen line > li_path_bytes lim then Inl Path_too_long
      else let parts = path_components (trim line); names = filter (\<lambda>c. c \<noteq> lit ''.'') parts in
        if list_ex (\<lambda>c. c = ROOT_DIR \<or> c = lit ''..'') parts then Inl Unsafe_path
        else if length names > li_depth lim then Inl Too_deep
        else case add_folders lim members [] (butlast names) folders of
               Inl e \<Rightarrow> Inl e
             | Inr folders' \<Rightarrow>
                 (let top = (if names = [] then [] else hd names);
                      expected = (wiki_name top \<or> (with_config \<and> top = lit ''config.toml'' \<and> length names = 1)) in
                  if expected \<and> \<not> list_ex is_hidden names then Inr folders' else Inl Outside_wiki))"

fun check_members :: "limits \<Rightarrow> bool \<Rightarrow> nat \<Rightarrow> rstr list \<Rightarrow> path list \<Rightarrow> import_error + path list" where
  "check_members lim with_config members [] folders = Inr folders"
| "check_members lim with_config members (line # ls) folders =
     (case check_member lim with_config members line folders of
        Inl e \<Rightarrow> Inl e
      | Inr folders' \<Rightarrow> check_members lim with_config members ls folders')"

definition list_archive :: "tar \<Rightarrow> limits \<Rightarrow> rstr \<Rightarrow> import_error + rstr" where
  "list_archive t lim flags =
     (case tar_list t flags (li_members lim * (li_path_bytes lim + 256)) of
        Inl e \<Rightarrow> Inl e
      | Inr (Ran wrote kept) \<Rightarrow> Inr kept
      | Inr Past_limit \<Rightarrow> Inl Listing_too_long)"

definition byte_budget :: "limits \<Rightarrow> nat \<Rightarrow> nat" where
  "byte_budget lim packed = min (li_unpacked_bytes lim) (max (li_ratio_floor lim) (min U64_MAX (packed * li_ratio lim)))"

definition refuse_escaping_members :: "tar \<Rightarrow> bool \<Rightarrow> limits \<Rightarrow> nat \<Rightarrow> import_error + nat" where
  "refuse_escaping_members t with_config lim packed =
     (case list_archive t lim (lit ''-tzf'') of Inl e \<Rightarrow> Inl e
      | Inr listing \<Rightarrow>
          (let members = text_lines listing in
           if length members > li_members lim then Inl Too_many
           else case check_members lim with_config (length members) members [] of Inl e \<Rightarrow> Inl e
                | Inr _ \<Rightarrow>
           (case list_archive t lim (lit ''-tvzf'') of Inl e \<Rightarrow> Inl e
            | Inr verbose \<Rightarrow>
                (if list_ex (\<lambda>l. \<not> (starts_with l [45] \<or> starts_with l [100])) (text_lines verbose) then Inl Not_regular
                 else case tar_measure t (byte_budget lim packed) of Inl e \<Rightarrow> Inl e
                      | Inr (Ran wrote _) \<Rightarrow> Inr wrote
                      | Inr Past_limit \<Rightarrow> Inl Past_limits))))"

section \<open>What landed on disk\<close>

text \<open>An entry of the unpacked tree: a regular file, a folder, or anything else.\<close>

datatype node = Reg rstr | Folder "(rstr \<times> node) list" | Special

definition refuse_unexpected_members :: "(rstr \<times> node) list \<Rightarrow> bool \<Rightarrow> bool" where
  "refuse_unexpected_members staging with_config =
     list_all (\<lambda>(n, _). wiki_name n \<or> (with_config \<and> n = lit ''config.toml'')) staging"

text \<open>The bytes of the files below, \<open>None\<close> when something has to be refused.\<close>

fun refuse_links :: "rstr list \<Rightarrow> node \<Rightarrow> nat option"
  and refuse_entries :: "rstr list \<Rightarrow> (rstr \<times> node) list \<Rightarrow> nat option" where
  "refuse_links skip (Reg content) = Some (blen content)"
| "refuse_links skip Special = None"
| "refuse_links skip (Folder es) = refuse_entries skip es"
| "refuse_entries skip [] = Some 0"
| "refuse_entries skip ((n, nd) # es) =
     (if n \<in> set skip then refuse_entries skip es
      else if is_hidden n then None
      else case refuse_links skip nd of None \<Rightarrow> None
           | Some a \<Rightarrow> map_option (\<lambda>b. a + b) (refuse_entries skip es))"

section \<open>Merging two logs\<close>

text \<open>
  \<open>line_id\<close>: the \<open>id\<close> text of a line that parses as a JSON object. \<open>json\<close> is the parser.
\<close>

definition line_id :: "(rstr \<Rightarrow> json option) \<Rightarrow> rstr \<Rightarrow> rstr option" where
  "line_id json line =
     (case json line of Some (JObj fs) \<Rightarrow> Option.bind (map_of fs (lit ''id'')) as_str | _ \<Rightarrow> None)"

text \<open>One file's lines into the union: \<open>(lines, ids, added)\<close>.\<close>

fun union_lines :: "(rstr \<Rightarrow> json option) \<Rightarrow> bool \<Rightarrow> rstr list \<Rightarrow> rstr list \<times> rstr set \<times> nat \<Rightarrow> rstr list \<times> rstr set \<times> nat" where
  "union_lines json is_local [] acc = acc"
| "union_lines json is_local (l # ls) (out, ids, added) =
     union_lines json is_local ls
       (if trim l = [] then (out, ids, added)
        else case line_id json l of
               Some i \<Rightarrow> if i \<in> ids then (out, ids, added)
                         else (out @ [l], insert i ids, if is_local then added else added + 1)
             | None \<Rightarrow> (out @ [l], ids, added))"

fun opt_key :: "rstr option \<Rightarrow> bool \<times> rstr" where
  "opt_key None = (False, [])"
| "opt_key (Some i) = (True, i)"

fun join_nl :: "rstr list \<Rightarrow> rstr" where
  "join_nl [] = []"
| "join_nl [l] = l"
| "join_nl (l # ls) = l @ [10] @ join_nl ls"

definition merged_lines :: "(rstr \<Rightarrow> json option) \<Rightarrow> rstr \<Rightarrow> rstr \<Rightarrow> rstr list \<times> nat" where
  "merged_lines json incoming local =
     (let (out, ids, added) = union_lines json False (text_lines incoming)
                                (union_lines json True (text_lines local) ([], {}, 0))
      in (sort_key (\<lambda>l. opt_key (line_id json l)) out, added))"

definition union_logs :: "(rstr \<Rightarrow> json option) \<Rightarrow> rstr \<Rightarrow> rstr \<Rightarrow> rstr \<times> nat" where
  "union_logs json incoming local =
     (let (ls, added) = merged_lines json incoming local in (join_nl ls @ [10], added))"

section \<open>The graft\<close>

definition normalize_wiki_member :: "rstr \<Rightarrow> path \<Rightarrow> path" where
  "normalize_wiki_member current relative =
     (case relative of [] \<Rightarrow> relative
      | first # rest \<Rightarrow> if \<not> wiki_name first then relative else current # rest)"

text \<open>\<open>Path::extension\<close>, compared without case.\<close>

definition is_log_name :: "rstr \<Rightarrow> bool" where
  "is_log_name name =
     (let ext = takeWhile (\<lambda>c. c \<noteq> 46) (rev name) in
      eq_ignore_case (rev ext) (lit ''jsonl'') \<and> length ext + 1 < length name)"

record grafted =
  gr_files :: nat
  gr_events :: nat

text \<open>
  The stack walk of \<open>graft\<close>: a folder's own files in order, then its folders, the last one first
  with all that is below it. The listed nodes are what is not a folder.
\<close>

fun staged :: "path \<Rightarrow> node \<Rightarrow> (path \<times> node) list"
  and staged_here :: "path \<Rightarrow> (rstr \<times> node) list \<Rightarrow> (path \<times> node) list"
  and staged_below :: "path \<Rightarrow> (rstr \<times> node) list \<Rightarrow> (path \<times> node) list" where
  "staged at' (Folder es) = staged_here at' es @ staged_below at' es"
| "staged at' nd = []"
| "staged_here at' [] = []"
| "staged_here at' ((n, nd) # es) =
     (case nd of Folder _ \<Rightarrow> staged_here at' es | _ \<Rightarrow> (at' @ [n], nd) # staged_here at' es)"
| "staged_below at' [] = []"
| "staged_below at' ((n, nd) # es) = staged_below at' es @ staged (at' @ [n]) nd"

type_synonym data_dir = "path \<Rightarrow> rstr option"

fun graft_files ::
    "(rstr \<Rightarrow> json option) \<Rightarrow> rstr \<Rightarrow> (path \<times> node) list \<Rightarrow> grafted \<Rightarrow> data_dir \<Rightarrow> (import_error + grafted) \<times> data_dir" where
  "graft_files json current [] counts d = (Inr counts, d)"
| "graft_files json current ((relative, nd) # rest) counts d =
     (case nd of
        Reg content \<Rightarrow>
          (let dest = normalize_wiki_member current relative;
               counts1 = counts\<lparr>gr_files := gr_files counts + 1\<rparr> in
           case d dest of
             Some here \<Rightarrow>
               (if is_log_name (last relative)
                then if blen content > li_log_bytes LIMITS then (Inl Log_too_big, d)
                     else let (merged, added) = union_logs json content here in
                       graft_files json current rest (counts1\<lparr>gr_events := gr_events counts1 + added\<rparr>) (d(dest \<mapsto> merged))
                else graft_files json current rest counts1 (d(dest \<mapsto> content)))
           | None \<Rightarrow> graft_files json current rest counts1 (d(dest \<mapsto> content)))
      | _ \<Rightarrow> (Inl Not_regular, d))"

definition graft :: "(rstr \<Rightarrow> json option) \<Rightarrow> rstr \<Rightarrow> (rstr \<times> node) list \<Rightarrow> data_dir \<Rightarrow> (import_error + grafted) \<times> data_dir" where
  "graft json current staging d = graft_files json current (staged [] (Folder staging)) \<lparr>gr_files = 0, gr_events = 0\<rparr> d"

section \<open>An import\<close>

text \<open>
  The archive on this machine: whether the path is a file, its size, what tar says of it, and the
  tree tar makes of it (\<open>None\<close> when it writes to its output, \<open>Inl\<close> when it fails).
\<close>

record archive =
  ar_file :: bool
  ar_size :: nat
  ar_tar :: tar
  ar_tree :: "import_error + (rstr \<times> node) list option"

text \<open>Renaming the wiki moves every file below it.\<close>

definition move_aside :: "rstr \<Rightarrow> rstr \<Rightarrow> data_dir \<Rightarrow> data_dir" where
  "move_aside current aside d =
     (\<lambda>p. case p of [] \<Rightarrow> d p
          | first # rest \<Rightarrow>
              if first = current then None else if first = aside then d (current # rest) else d p)"

definition unpack_and_graft ::
    "(rstr \<Rightarrow> json option) \<Rightarrow> rstr \<Rightarrow> archive \<Rightarrow> bool \<Rightarrow> (data_dir \<Rightarrow> data_dir) \<Rightarrow> data_dir \<Rightarrow> (import_error + grafted) \<times> data_dir" where
  "unpack_and_graft json current a with_config make_room d =
     (if ar_size a > li_unpacked_bytes LIMITS then (Inl Too_big, d)
      else case refuse_escaping_members (ar_tar a) with_config LIMITS (ar_size a) of Inl e \<Rightarrow> (Inl e, d)
      | Inr measured \<Rightarrow>
          (case ar_tree a of Inl e \<Rightarrow> (Inl e, d)
           | Inr None \<Rightarrow> (Inl Tar_failed, d)
           | Inr (Some staging) \<Rightarrow>
               (if \<not> refuse_unexpected_members staging with_config then (Inl Outside_wiki, d)
                else case refuse_links [] (Folder staging) of None \<Rightarrow> (Inl Not_regular, d)
                | Some unpacked \<Rightarrow>
                    (if unpacked > measured then (Inl Grew, d) else graft json current staging (make_room d)))))"

definition import_archive ::
    "(rstr \<Rightarrow> json option) \<Rightarrow> rstr \<Rightarrow> bool \<Rightarrow> rstr \<Rightarrow> archive \<Rightarrow> existing \<Rightarrow> bool \<Rightarrow> data_dir \<Rightarrow> (import_error + grafted) \<times> data_dir" where
  "import_archive json current wiki_occupied aside a existing with_config d =
     (if \<not> ar_file a then (Inl No_archive, d)
      else if wiki_occupied \<and> existing = Refuse then (Inl Brain_exists, d)
      else unpack_and_graft json current a with_config
             (if wiki_occupied \<and> existing = Replace then move_aside current aside else (\<lambda>d. d)) d)"

text \<open>What an export puts in its archive: the wiki and maybe the config, less what is skipped.\<close>

fun exported :: "rstr list \<Rightarrow> node \<Rightarrow> node"
  and exported_entries :: "rstr list \<Rightarrow> (rstr \<times> node) list \<Rightarrow> (rstr \<times> node) list" where
  "exported skip (Folder es) = Folder (exported_entries skip es)"
| "exported skip nd = nd"
| "exported_entries skip [] = []"
| "exported_entries skip ((n, nd) # es) =
     (if n \<in> set skip then exported_entries skip es else (n, exported skip nd) # exported_entries skip es)"

definition SKIPPED :: "rstr list" where "SKIPPED = [lit ''.git'', lit ''.obsidian'']"

definition export_members :: "rstr \<Rightarrow> node option \<Rightarrow> rstr option \<Rightarrow> bool \<Rightarrow> (rstr \<times> node) list option" where
  "export_members current wiki config include_config =
     (case wiki of
        Some (Folder es) \<Rightarrow>
          (let members = (current, Folder es) #
                 (if include_config then (case config of Some c \<Rightarrow> [(lit ''config.toml'', Reg c)] | None \<Rightarrow> []) else [])
           in if list_ex (\<lambda>(n, nd). refuse_links SKIPPED nd = None) members then None
              else Some (map (\<lambda>(n, nd). (n, exported SKIPPED nd)) members))
      | _ \<Rightarrow> None)"


section \<open>The merge is a union\<close>

text \<open>The lines one file adds to what is already there.\<close>

fun keep :: "(rstr \<Rightarrow> json option) \<Rightarrow> rstr set \<Rightarrow> rstr list \<Rightarrow> rstr list" where
  "keep json had [] = []"
| "keep json had (l # ls) =
     (if trim l = [] then keep json had ls
      else case line_id json l of
             None \<Rightarrow> l # keep json had ls
           | Some i \<Rightarrow> if i \<in> had then keep json had ls else l # keep json (insert i had) ls)"

definition ids_of :: "(rstr \<Rightarrow> json option) \<Rightarrow> rstr list \<Rightarrow> rstr set" where
  "ids_of json ls = {i. \<exists>l\<in>set ls. trim l \<noteq> [] \<and> line_id json l = Some i}"

lemma ids_of_simps [simp]:
  "ids_of json [] = {}"
  "ids_of json (l # ls) =
     (if trim l = [] then ids_of json ls
      else case line_id json l of None \<Rightarrow> ids_of json ls | Some i \<Rightarrow> insert i (ids_of json ls))"
  by (auto simp: ids_of_def split: option.splits)

lemma ids_of_append [simp]: "ids_of json (a @ b) = ids_of json a \<union> ids_of json b"
  by (auto simp: ids_of_def)

lemma finite_ids [simp]: "finite (ids_of json ls)"
  by (induction ls) (auto split: option.splits)

lemma keep_cases [case_names nil blank unreadable known new']:
  assumes "\<And>had. P had []"
    and "\<And>had l ls. trim l = [] \<Longrightarrow> P had ls \<Longrightarrow> P had (l # ls)"
    and "\<And>had l ls. trim l \<noteq> [] \<Longrightarrow> line_id json l = None \<Longrightarrow> P had ls \<Longrightarrow> P had (l # ls)"
    and "\<And>had l ls i. trim l \<noteq> [] \<Longrightarrow> line_id json l = Some i \<Longrightarrow> i \<in> had \<Longrightarrow> P had ls \<Longrightarrow> P had (l # ls)"
    and "\<And>had l ls i. trim l \<noteq> [] \<Longrightarrow> line_id json l = Some i \<Longrightarrow> i \<notin> had \<Longrightarrow> P (insert i had) ls \<Longrightarrow> P had (l # ls)"
  shows "P had ls"
proof (induction ls arbitrary: had)
  case (Cons l ls)
  then show ?case using assms(2-) by (metis option.exhaust)
qed (rule assms(1))

lemma keep_ids: "ids_of json (keep json had ls) = ids_of json ls - had"
  by (induction had ls rule: keep_cases [of _ json]) auto

lemma union_lines_eq:
  "union_lines json loc ls (out, had, n) =
     (out @ keep json had ls, had \<union> ids_of json ls,
      n + (if loc then 0 else card (ids_of json (keep json had ls))))"
  by (induction had ls arbitrary: out n rule: keep_cases [of _ json])
    (auto simp: insert_absorb keep_ids card_insert_if)

lemma keep_sub: "set (keep json had ls) \<subseteq> {l \<in> set ls. trim l \<noteq> []}"
  by (induction had ls rule: keep_cases [of _ json]) auto

lemma keep_once: "length (filter (\<lambda>l. line_id json l = Some i) (keep json had ls)) = (if i \<in> ids_of json ls - had then 1 else 0)"
  by (induction had ls rule: keep_cases [of _ json]) auto

lemma keep_unreadable: "line_id json l = None \<Longrightarrow> trim l \<noteq> [] \<Longrightarrow> count_list (keep json had ls) l = count_list ls l"
  by (induction had ls rule: keep_cases [of _ json]) auto

lemma merged_lines_eq:
  "merged_lines json incoming local =
     (let a = text_lines local; b = text_lines incoming in
      (sort_key (\<lambda>l. opt_key (line_id json l)) (keep json {} a @ keep json (ids_of json a) b),
       card (ids_of json b - ids_of json a)))"
  by (simp add: merged_lines_def union_lines_eq keep_ids Let_def)


lemma count_list_sort [simp]: "count_list (sort_key k xs) x = count_list xs x"
  by (metis count_mset mset_sort)

lemma filter_sort_length [simp]: "length (filter P (sort_key k xs)) = length (filter P xs)"
  by (metis mset_filter mset_sort size_mset)

text \<open>Every event has one line, and the two logs agree on it.\<close>

definition logs_agree :: "(rstr \<Rightarrow> json option) \<Rightarrow> rstr list \<Rightarrow> bool" where
  "logs_agree json ls =
     list_all (\<lambda>l. trim l = [] \<or> line_id json l \<noteq> None
        \<and> list_all (\<lambda>l'. trim l' = [] \<or> line_id json l' \<noteq> line_id json l \<or> l' = l) ls) ls"

lemma logs_agreeD:
  "logs_agree json ls \<Longrightarrow> l \<in> set ls \<Longrightarrow> trim l \<noteq> [] \<Longrightarrow> line_id json l \<noteq> None"
  "logs_agree json ls \<Longrightarrow> l \<in> set ls \<Longrightarrow> l' \<in> set ls \<Longrightarrow> trim l \<noteq> [] \<Longrightarrow> trim l' \<noteq> [] \<Longrightarrow>
    line_id json l' = line_id json l \<Longrightarrow> l' = l"
  by (auto simp: logs_agree_def list_all_iff)

lemma keep_both_once:
  "length (filter (\<lambda>l. line_id json l = Some i) (keep json {} a @ keep json (ids_of json a) b)) =
     (if i \<in> ids_of json a \<union> ids_of json b then 1 else 0)"
  by (simp add: keep_once)

lemma keep_both_set:
  assumes "logs_agree json (a @ b)"
  shows "set (keep json {} a @ keep json (ids_of json a) b) = {l \<in> set a \<union> set b. trim l \<noteq> []}"
    (is "set ?k = ?r")
proof
  show "set ?k \<subseteq> ?r" using keep_sub [of json "{}" a] keep_sub [of json "ids_of json a" b] by auto
  show "?r \<subseteq> set ?k"
  proof
    fix l assume l: "l \<in> ?r"
    then obtain i where i: "line_id json l = Some i"
      using logs_agreeD(1) [OF assms, of l] by auto
    then have "i \<in> ids_of json a \<union> ids_of json b" using l by (auto simp: ids_of_def)
    then have "length (filter (\<lambda>l. line_id json l = Some i) ?k) = 1" using keep_both_once [of json i a b] by (simp only: if_True)
    then obtain l' where l': "l' \<in> set ?k" "line_id json l' = Some i"
      by (metis (mono_tags, lifting) filter_empty_conv list.size(3) zero_neq_one)
    then have "l' \<in> set (a @ b)" "trim l' \<noteq> []"
      using keep_sub [of json "{}" a] keep_sub [of json "ids_of json a" b] by auto
    then have "l' = l" using logs_agreeD(2) [OF assms, of l l'] l i l'(2) by auto
    then show "l \<in> set ?k" using l'(1) by simp
  qed
qed

lemma keep_both_distinct:
  assumes "logs_agree json (a @ b)"
  shows "distinct (keep json {} a @ keep json (ids_of json a) b)" (is "distinct ?k")
proof -
  have "count_list ?k l \<le> 1" for l
  proof (cases "l \<in> set ?k")
    case True
    then obtain i where i: "line_id json l = Some i"
      using logs_agreeD(1) [OF assms, of l] keep_both_set [OF assms] by auto
    have "count_list ?k l \<le> length (filter (\<lambda>l. line_id json l = Some i) ?k)"
    proof -
      have "count_list xs l \<le> length (filter (\<lambda>l. line_id json l = Some i) xs)" for xs
        using i by (induction xs) auto
      then show ?thesis .
    qed
    then show ?thesis using keep_both_once [of json i a b] by (simp split: if_splits)
  qed (simp add: count_list_0_iff [THEN iffD2])
  then have "count (mset ?k) l = (if l \<in> set ?k then 1 else 0)" for l
    using count_mset_0_iff [of ?k l] by (metis count_mset le_antisym less_one linorder_le_less_linear)
  then show ?thesis by (simp only: distinct_count_atmost_1 simp_thms)
qed


lemma merged_commutes:
  assumes "logs_agree json (text_lines local @ text_lines incoming)"
  shows "fst (merged_lines json local incoming) = fst (merged_lines json incoming local)"
proof -
  let ?a = "text_lines local" and ?b = "text_lines incoming"
  let ?k = "keep json {} ?a @ keep json (ids_of json ?a) ?b" and ?k' = "keep json {} ?b @ keep json (ids_of json ?b) ?a"
  have ag: "logs_agree json (?b @ ?a)" using assms by (auto simp: logs_agree_def list_all_iff)
  have set': "set ?k' = set ?k" using keep_both_set [OF assms] keep_both_set [OF ag] by blast
  have "inj_on (\<lambda>l. opt_key (line_id json l)) (set ?k)"
  proof (rule inj_onI)
    fix l l' assume l: "l \<in> set ?k" "l' \<in> set ?k" and eq: "opt_key (line_id json l) = opt_key (line_id json l')"
    then have in': "l \<in> set (?a @ ?b)" "l' \<in> set (?a @ ?b)" "trim l \<noteq> []" "trim l' \<noteq> []"
      using keep_both_set [OF assms] by auto
    have "line_id json l' = line_id json l"
      using eq logs_agreeD(1) [OF assms in'(1,3)] logs_agreeD(1) [OF assms in'(2,4)] by auto
    then show "l = l'" using logs_agreeD(2) [OF assms in'] by simp
  qed
  moreover have "mset ?k' = mset ?k"
    using set' keep_both_distinct [OF assms] keep_both_distinct [OF ag] by (metis set_eq_iff_mset_eq_distinct)
  ultimately have "sort_key (\<lambda>l. opt_key (line_id json l)) ?k' = sort_key (\<lambda>l. opt_key (line_id json l)) ?k"
    using set' by (intro sort_key_inj_key_eq) simp_all
  then show ?thesis by (simp add: merged_lines_eq Let_def)
qed

text \<open>
  C27: the merge of a log into another is their union keyed by event id: the result is sorted by id
  and has one line for every id of either side (the local one where both have it), keeps every
  line it cannot read as often as both sides together had it, counts what is new, and, where the
  two agree on their events, is the same whichever machine does it.
\<close>

theorem merge_is_the_union_by_id:
  assumes "merged_lines json incoming local = (ls, added)"
    and "a = text_lines local" "b = text_lines incoming"
  shows "sorted (map (\<lambda>l. opt_key (line_id json l)) ls) \<and>
    (\<forall>i. length (filter (\<lambda>l. line_id json l = Some i) ls) = (if i \<in> ids_of json a \<union> ids_of json b then 1 else 0)) \<and>
    (\<forall>l\<in>set ls. trim l \<noteq> [] \<and> (l \<in> set a \<or> (l \<in> set b \<and> (\<forall>i. line_id json l = Some i \<longrightarrow> i \<notin> ids_of json a)))) \<and>
    (\<forall>l. trim l \<noteq> [] \<longrightarrow> line_id json l = None \<longrightarrow> count_list ls l = count_list a l + count_list b l) \<and>
    added = card (ids_of json b - ids_of json a) \<and>
    (logs_agree json (a @ b) \<longrightarrow> fst (merged_lines json local incoming) = ls)"
proof -
  let ?k = "keep json {} a @ keep json (ids_of json a) b"
  have ls: "ls = sort_key (\<lambda>l. opt_key (line_id json l)) ?k" "added = card (ids_of json b - ids_of json a)"
    using assms by (simp_all add: merged_lines_eq Let_def)
  have "trim l \<noteq> [] \<and> (l \<in> set a \<or> (l \<in> set b \<and> (\<forall>i. line_id json l = Some i \<longrightarrow> i \<notin> ids_of json a)))"
    if l: "l \<in> set ?k" for l
  proof (cases "l \<in> set (keep json {} a)")
    case False
    then have k: "l \<in> set (keep json (ids_of json a) b)" using l by simp
    moreover have "i \<notin> ids_of json a" if "line_id json l = Some i" for i
      using keep_ids [of json "ids_of json a" b] k that keep_sub [of json "ids_of json a" b]
      by (auto simp: ids_of_def set_eq_iff)
    ultimately show ?thesis using keep_sub [of json "ids_of json a" b] by auto
  qed (use keep_sub [of json "{}" a] in auto)
  moreover have "logs_agree json (a @ b) \<longrightarrow> fst (merged_lines json local incoming) = ls"
    using merged_commutes [of json local incoming] assms by simp
  ultimately show ?thesis
    using ls keep_both_once [of json _ a b] by (simp add: keep_unreadable)
qed

section \<open>The written file read back\<close>

lemma split_on_join:
  "ls \<noteq> [] \<Longrightarrow> \<forall>l\<in>set ls. 10 \<notin> set l \<Longrightarrow> split_on (\<lambda>c. c = 10) (join_nl ls @ [10]) = ls @ [[]]"
proof (induction ls rule: join_nl.induct)
  case (2 l)
  have "\<forall>c\<in>set l. c \<noteq> 10" using 2 by auto
  then show ?case by (simp add: split_on_def split_acc_append split_acc_plain)
next
  case (3 l l' ls)
  have "\<forall>c\<in>set l. c \<noteq> 10" using 3 by auto
  then have "split_on (\<lambda>c. c = 10) (l @ 10 # (join_nl (l' # ls) @ [10])) = l # split_on (\<lambda>c. c = 10) (join_nl (l' # ls) @ [10])"
    unfolding split_on_def by (subst split_acc_append) (simp_all add: split_acc_plain)
  then show ?case using 3 by simp
qed simp

lemma text_lines_join:
  "ls \<noteq> [] \<Longrightarrow> \<forall>l\<in>set ls. 10 \<notin> set l \<Longrightarrow> text_lines (join_nl ls @ [10]) = map strip_cr ls"
  by (simp add: text_lines_def split_on_join Let_def)

lemma split_acc_no: "w' \<in> set (split_acc p w s) \<Longrightarrow> \<forall>c\<in>set w. \<not> p c \<Longrightarrow> \<forall>c\<in>set w'. \<not> p c"
  by (induction p w s rule: split_acc.induct) (auto split: if_splits)

lemma text_lines_no_nl: "l \<in> set (text_lines s) \<Longrightarrow> 10 \<notin> set l"
proof -
  assume "l \<in> set (text_lines s)"
  moreover have "split_on (\<lambda>c. c = 10) s \<noteq> []" by (simp add: split_on_def split_acc_ne)
  then have "last (split_on (\<lambda>c. c = 10) s) \<in> set (split_on (\<lambda>c. c = 10) s)" by simp
  ultimately have "l \<in> strip_cr ` set (split_on (\<lambda>c. c = 10) s) \<or> l \<in> set (split_on (\<lambda>c. c = 10) s)"
    by (auto simp: text_lines_def Let_def split: if_splits dest: in_set_butlastD)
  then obtain w where w: "l = strip_cr w \<or> l = w" "w \<in> set (split_on (\<lambda>c. c = 10) s)" by blast
  then have "10 \<notin> set w" using split_acc_no [of w "\<lambda>c. c = 10" "[]" s] by (auto simp: split_on_def)
  then show ?thesis using w(1) by (auto simp: strip_cr_def dest: in_set_butlastD split: if_splits)
qed


section \<open>What an import may touch, and what it keeps\<close>

definition keeps_events :: "(rstr \<Rightarrow> json option) \<Rightarrow> rstr \<Rightarrow> rstr \<Rightarrow> bool" where
  "keeps_events json c c' =
     (ids_of json (text_lines c) \<subseteq> ids_of json (text_lines c') \<and>
      (\<forall>l\<in>set (text_lines c). trim l \<noteq> [] \<longrightarrow> line_id json l = None \<longrightarrow> strip_cr l = l \<longrightarrow> l \<in> set (text_lines c')))"

lemma keeps_refl [simp]: "keeps_events json c c"
  by (simp add: keeps_events_def)

lemma keeps_trans: "keeps_events json a b \<Longrightarrow> keeps_events json b c \<Longrightarrow> keeps_events json a c"
  by (auto simp: keeps_events_def)

text \<open>A carriage return at the end of a line is blank to a JSON parser.\<close>

definition cr_blank :: "(rstr \<Rightarrow> json option) \<Rightarrow> bool" where
  "cr_blank json = (\<forall>l. json (strip_cr l) = json l)"

lemma trim_empty: "trim l = [] \<longleftrightarrow> (\<forall>c\<in>set l. is_ws c)"
proof
  assume e: "trim l = []"
  show "\<forall>c\<in>set l. is_ws c"
  proof (rule ccontr)
    assume "\<not> (\<forall>c\<in>set l. is_ws c)"
    then have "dropWhile is_ws l \<noteq> []" by (auto simp: dropWhile_eq_Nil_conv)
    moreover have "\<not> is_ws (hd (dropWhile is_ws l))" using calculation by (rule hd_dropWhile)
    ultimately have "hd (dropWhile is_ws l) \<in> set (rev (dropWhile is_ws l))" "\<not> is_ws (hd (dropWhile is_ws l))" by auto
    then have "dropWhile is_ws (rev (dropWhile is_ws l)) \<noteq> []" by (metis dropWhile_eq_Nil_conv)
    then show False using e by (simp add: trim_defs)
  qed
qed (auto simp: trim_defs dest: set_dropWhileD)

lemma trim_strip_cr [simp]: "trim (strip_cr l) = [] \<longleftrightarrow> trim l = []"
proof (cases "l \<noteq> [] \<and> last l = 13")
  case True
  then have "set l = set (butlast l) \<union> {13}" by (metis Un_insert_right append_butlast_last_id list.simps(15) set_append set_empty sup_bot_right list.set(1))
  then show ?thesis using True by (simp add: strip_cr_def trim_empty is_ws_def)
qed (auto simp: strip_cr_def)

lemma line_id_strip: "cr_blank json \<Longrightarrow> line_id json (strip_cr l) = line_id json l"
  by (simp add: cr_blank_def line_id_def)

lemma ids_of_strip: "cr_blank json \<Longrightarrow> ids_of json (map strip_cr ls) = ids_of json ls"
  by (induction ls) (simp_all add: line_id_strip split: option.split)

lemma union_keeps_both:
  assumes "cr_blank json"
  shows "keeps_events json here (fst (union_logs json content here)) \<and>
    keeps_events json content (fst (union_logs json content here))"
proof -
  let ?a = "text_lines here" and ?b = "text_lines content"
  obtain ls added where m: "merged_lines json content here = (ls, added)" by fastforce
  have ls: "ls = sort_key (\<lambda>l. opt_key (line_id json l)) (keep json {} ?a @ keep json (ids_of json ?a) ?b)"
    using m by (simp add: merged_lines_eq Let_def)
  have set': "set ls = set (keep json {} ?a @ keep json (ids_of json ?a) ?b)" using ls by simp
  then have "ids_of json ls = ids_of json (keep json {} ?a @ keep json (ids_of json ?a) ?b)"
    unfolding ids_of_def by presburger
  then have ids: "ids_of json ls = ids_of json ?a \<union> ids_of json ?b" by (simp add: keep_ids)
  have un: "l \<in> set ls" if "l \<in> set ?a \<union> set ?b" "trim l \<noteq> []" "line_id json l = None" for l
  proof -
    have "count_list ls l = count_list ?a l + count_list ?b l" using that by (simp add: ls keep_unreadable)
    moreover have "count_list ?a l + count_list ?b l \<noteq> 0" using that(1) by (auto simp: count_list_0_iff)
    ultimately show ?thesis by (metis count_list_0_iff)
  qed
  show ?thesis
  proof (cases "ls = []")
    case True
    then have "ids_of json ?a = {}" "ids_of json ?b = {}" using ids by auto
    then show ?thesis using un True by (fastforce simp: keeps_events_def)
  next
    case False
    have "set ls \<subseteq> set ?a \<union> set ?b"
      using keep_sub [of json "{}" ?a] keep_sub [of json "ids_of json ?a" ?b] set' by auto
    then have "\<forall>l\<in>set ls. 10 \<notin> set l" using text_lines_no_nl by blast
    then have reread: "text_lines (fst (union_logs json content here)) = map strip_cr ls"
      using text_lines_join [OF False] m by (simp add: union_logs_def)
    have "l \<in> strip_cr ` set ls" if "l \<in> set ?a \<union> set ?b" "trim l \<noteq> []" "line_id json l = None" "strip_cr l = l" for l
      using un [OF that(1-3)] that(4) by (metis image_eqI)
    then show ?thesis using ids by (auto simp: keeps_events_def reread ids_of_strip [OF assms] simp del: ids_of_simps)
  qed
qed


definition inside :: "path \<Rightarrow> rstr set \<Rightarrow> path \<times> node \<Rightarrow> bool" where
  "inside at' tops f =
     (\<exists>c n ns. f = (at' @ n # ns, Reg c) \<and> n \<in> tops \<and> list_all (\<lambda>n. \<not> is_hidden n) (n # ns))"

lemma inside_mono: "inside at' tops f \<Longrightarrow> tops \<subseteq> tops' \<Longrightarrow> inside at' tops' f"
  by (auto simp: inside_def)

lemma inside_here: "\<not> is_hidden n \<Longrightarrow> n \<in> tops \<Longrightarrow> inside at' tops (at' @ [n], Reg c)"
  by (auto simp: inside_def)

lemma inside_below:
  assumes "inside (at' @ [n]) tops f" "\<not> is_hidden n" "n \<in> tops'"
  shows "inside at' tops' f"
proof -
  obtain c m ns where "f = ((at' @ [n]) @ m # ns, Reg c)" "list_all (\<lambda>n. \<not> is_hidden n) (m # ns)"
    using assms(1) unfolding inside_def by blast
  then show ?thesis using assms(2,3) unfolding inside_def
    by (intro exI [of _ c] exI [of _ n] exI [of _ "m # ns"]) simp
qed

lemma staged_inside:
  "refuse_links [] nd \<noteq> None \<longrightarrow> (\<forall>f\<in>set (staged at' nd). \<exists>es. nd = Folder es \<and> inside at' (fst ` set es) f)"
  "refuse_entries [] es \<noteq> None \<longrightarrow> (\<forall>f\<in>set (staged_here at' es). inside at' (fst ` set es) f)"
  "refuse_entries [] es \<noteq> None \<longrightarrow> (\<forall>f\<in>set (staged_below at' es). inside at' (fst ` set es) f)"
proof (induction at' nd and at' es and at' es rule: staged_staged_here_staged_below.induct)
  case (4 at' n nd es)
  show ?case
  proof (intro impI ballI)
    fix f assume ok: "refuse_entries [] ((n, nd) # es) \<noteq> None" and f: "f \<in> set (staged_here at' ((n, nd) # es))"
    then have n: "\<not> is_hidden n" "refuse_links [] nd \<noteq> None" "refuse_entries [] es \<noteq> None"
      by (auto split: option.splits if_splits)
    consider c where "nd = Reg c" "f = (at' @ [n], Reg c)" | "f \<in> set (staged_here at' es)"
      using f n(2) by (cases nd) auto
    then show "inside at' (fst ` set ((n, nd) # es)) f"
    proof cases
      case 1
      then show ?thesis using inside_here [OF n(1)] by simp
    next
      case 2
      then show ?thesis using 4 n(3) by (cases nd) (auto intro: inside_mono)
    qed
  qed
next
  case (6 at' n nd es)
  show ?case
  proof (intro impI ballI)
    fix f assume ok: "refuse_entries [] ((n, nd) # es) \<noteq> None" and f: "f \<in> set (staged_below at' ((n, nd) # es))"
    then have n: "\<not> is_hidden n" "refuse_links [] nd \<noteq> None" "refuse_entries [] es \<noteq> None"
      by (auto split: option.splits if_splits)
    consider "f \<in> set (staged_below at' es)" | "f \<in> set (staged (at' @ [n]) nd)"
      using f by auto
    then show "inside at' (fst ` set ((n, nd) # es)) f"
    proof cases
      case 1
      then show ?thesis using 6(1) n(3) by (auto intro: inside_mono)
    next
      case 2
      then show ?thesis using 6(2) n(1,2) by (auto intro: inside_below)
    qed
  qed
qed auto

definition graft_dest :: "rstr \<Rightarrow> path \<times> node \<Rightarrow> path" where
  "graft_dest current f = normalize_wiki_member current (fst f)"

lemma graft_dest_simps [simp]:
  "graft_dest current (n # ns, x) = (if wiki_name n then current # ns else n # ns)"
  by (simp add: graft_dest_def normalize_wiki_member_def)

definition reg_file :: "path \<times> node \<Rightarrow> bool" where
  "reg_file f = (fst f \<noteq> [] \<and> (\<exists>c. snd f = Reg c))"

lemma wiki_not_log: "wiki_name n \<Longrightarrow> \<not> is_log_name n"
  by (auto simp: wiki_name_def WIKI_DIR_def LEGACY_WIKI_DIR_def is_log_name_def lit_def eq_ignore_case_def ascii_lower_def
      ascii_class_defs)

lemma dest_log_name:
  assumes "reg_file f" "wiki_name current"
  shows "graft_dest current f \<noteq> [] \<and> is_log_name (last (graft_dest current f)) = is_log_name (last (fst f))"
proof -
  obtain n ns x where f: "f = (n # ns, x)" using assms(1) by (cases f; cases "fst f") (auto simp: reg_file_def)
  show ?thesis using wiki_not_log assms(2) by (cases "ns = []") (auto simp: f)
qed

text \<open>One file: a log that is there is merged, anything else is written over.\<close>

lemma graft_files_keeps:
  assumes "cr_blank json" "wiki_name current" "list_all reg_file files"
    and "graft_files json current files counts d = (r, d')"
  shows "(\<forall>p. d' p \<noteq> d p \<longrightarrow> p \<in> graft_dest current ` set files) \<and>
    (\<forall>p c. p \<noteq> [] \<longrightarrow> is_log_name (last p) \<longrightarrow> d p = Some c \<longrightarrow> (\<exists>c'. d' p = Some c' \<and> keeps_events json c c')) \<and>
    (\<forall>e. r = Inl e \<longrightarrow> e = Log_too_big) \<and>
    ((\<exists>g. r = Inr g) \<longrightarrow> (\<forall>f\<in>set files. \<forall>c. snd f = Reg c \<longrightarrow> is_log_name (last (fst f)) \<longrightarrow>
       (\<exists>c'. d' (graft_dest current f) = Some c' \<and> keeps_events json c c')))"
  using assms(3,4)
proof (induction files arbitrary: counts d)
  case (Cons f files)
  obtain rel c where f: "f = (rel, Reg c)" "rel \<noteq> []" using Cons.prems(1) by (cases f) (auto simp: reg_file_def)
  let ?dest = "graft_dest current f"
  have dest: "?dest \<noteq> []" "is_log_name (last ?dest) = is_log_name (last rel)"
    using dest_log_name [of f current] Cons.prems(1) assms(2) f by auto
  show ?case
  proof (cases "\<exists>here. d ?dest = Some here \<and> is_log_name (last rel) \<and> li_log_bytes LIMITS < blen c")
    case True
    then have "r = Inl Log_too_big \<and> d' = d" using Cons.prems(2) by (auto simp: f graft_dest_def Let_def)
    then show ?thesis by auto
  next
    case False
    obtain v counts' where v: "graft_files json current (f # files) counts d = graft_files json current files counts' (d(?dest \<mapsto> v))"
      and own: "is_log_name (last rel) \<Longrightarrow> keeps_events json c v"
      and there: "\<And>here. d ?dest = Some here \<Longrightarrow> is_log_name (last rel) \<Longrightarrow> keeps_events json here v"
    proof (cases "d ?dest")
      case None
      then show thesis using that [of _ c] by (simp add: f graft_dest_def Let_def)
    next
      case (Some here)
      show thesis
      proof (cases "is_log_name (last rel)")
        case True
        then show thesis
          using that [of _ "fst (union_logs json c here)"] Some False union_keeps_both [OF assms(1), of here c]
          by (simp add: f graft_dest_def Let_def case_prod_unfold)
      next
        case nolog: False
        then show thesis using that [of _ c] Some by (simp add: f graft_dest_def Let_def)
      qed
    qed
    let ?d = "d(?dest \<mapsto> v)"
    have rest: "list_all reg_file files" using Cons.prems(1) by simp
    have "graft_files json current files counts' ?d = (r, d')" using v Cons.prems(2) by simp
    note IH = Cons.IH [OF rest this]
    have kept: "\<exists>c'. d' p = Some c' \<and> keeps_events json k c'" if "p \<noteq> []" "is_log_name (last p)" "?d p = Some k" for p k
      using IH that by blast
    have A: "p \<in> graft_dest current ` set (f # files)" if "d' p \<noteq> d p" for p
    proof (cases "p = ?dest")
      case False
      then have "d' p \<noteq> ?d p" using that by simp
      then show ?thesis using IH by auto
    qed simp
    have B: "\<exists>c'. d' p = Some c' \<and> keeps_events json k c'" if p: "p \<noteq> []" "is_log_name (last p)" "d p = Some k" for p k
    proof (cases "p = ?dest")
      case True
      have "keeps_events json k v" using there [of k] p dest(2) True by simp
      moreover obtain c' where "d' p = Some c'" "keeps_events json v c'" using kept [of p v] p(1,2) True by auto
      ultimately show ?thesis using keeps_trans by blast
    next
      case False
      then show ?thesis using kept [of p k] p by simp
    qed
    have C: "\<exists>c'. d' ?dest = Some c' \<and> keeps_events json c c'" if "is_log_name (last rel)"
    proof -
      have "is_log_name (last ?dest)" using dest(2) that by (rule iffD2)
      then obtain c' where "d' ?dest = Some c'" "keeps_events json v c'"
        using kept [of ?dest v] dest(1) by auto
      then show ?thesis using own [OF that] keeps_trans by blast
    qed
    show ?thesis
    proof (intro conjI)
      show "\<forall>p. d' p \<noteq> d p \<longrightarrow> p \<in> graft_dest current ` set (f # files)" using A by blast
      show "\<forall>p c. p \<noteq> [] \<longrightarrow> is_log_name (last p) \<longrightarrow> d p = Some c \<longrightarrow> (\<exists>c'. d' p = Some c' \<and> keeps_events json c c')"
        using B by blast
      show "\<forall>e. r = Inl e \<longrightarrow> e = Log_too_big" using IH by blast
      show "(\<exists>g. r = Inr g) \<longrightarrow> (\<forall>f'\<in>set (f # files). \<forall>c. snd f' = Reg c \<longrightarrow> is_log_name (last (fst f')) \<longrightarrow>
          (\<exists>c'. d' (graft_dest current f') = Some c' \<and> keeps_events json c c'))"
        using IH C f(1) by simp
    qed
  qed
qed auto


lemma inside_reg: "inside at' tops f \<Longrightarrow> reg_file f"
  by (auto simp: inside_def reg_file_def)

lemma unpack_cases:
  assumes "unpack_and_graft json current a with_config make_room d = (r, d')"
  obtains e where "r = Inl e" "d' = d"
  | staging where "ar_tree a = Inr (Some staging)" "refuse_unexpected_members staging with_config"
      "refuse_entries [] staging \<noteq> None" "graft json current staging (make_room d) = (r, d')"
  using assms by (auto simp: unpack_and_graft_def split: sum.splits option.splits if_splits)

lemma import_cases:
  assumes "import_archive json current occ aside a existing with_config d = (r, d')"
  obtains e where "r = Inl e" "d' = d"
  | staging where "ar_tree a = Inr (Some staging)" "refuse_unexpected_members staging with_config"
      "refuse_entries [] staging \<noteq> None"
      "graft json current staging (if occ \<and> existing = Replace then move_aside current aside d else d) = (r, d')"
  using assms unfolding import_archive_def
  by (auto split: if_splits elim!: unpack_cases)

text \<open>What a staged file may become.\<close>

definition in_wiki :: "rstr \<Rightarrow> bool \<Rightarrow> path \<Rightarrow> bool" where
  "in_wiki current with_config p =
     (p \<noteq> [] \<and> (hd p = current \<or> (with_config \<and> hd p = lit ''config.toml'')) \<and> list_all (\<lambda>n. \<not> is_hidden n) (tl p))"

lemma staged_dest:
  assumes "inside [] (fst ` set staging) f" "refuse_unexpected_members staging with_config"
  shows "in_wiki current with_config (graft_dest current f)"
proof -
  obtain c n ns where f: "f = (n # ns, Reg c)" "n \<in> fst ` set staging" "list_all (\<lambda>n. \<not> is_hidden n) (n # ns)"
    using assms(1) by (auto simp: inside_def)
  then have "wiki_name n \<or> (with_config \<and> n = lit ''config.toml'')"
    using assms(2) by (auto simp: refuse_unexpected_members_def list_all_iff)
  then show ?thesis using f by (auto simp: in_wiki_def)
qed

lemma graft_inside:
  assumes "cr_blank json" "wiki_name current" "refuse_unexpected_members staging with_config"
    and "refuse_entries [] staging \<noteq> None" "graft json current staging d = (r, d')"
  shows "(\<forall>p. d' p \<noteq> d p \<longrightarrow> in_wiki current with_config p) \<and>
    (\<forall>p c. p \<noteq> [] \<longrightarrow> is_log_name (last p) \<longrightarrow> d p = Some c \<longrightarrow> (\<exists>c'. d' p = Some c' \<and> keeps_events json c c')) \<and>
    (\<forall>e. r = Inl e \<longrightarrow> e = Log_too_big) \<and>
    ((\<exists>g. r = Inr g) \<longrightarrow> (\<forall>(rel, nd)\<in>set (staged [] (Folder staging)). \<forall>c. nd = Reg c \<longrightarrow> is_log_name (last rel) \<longrightarrow>
       (\<exists>c'. d' (normalize_wiki_member current rel) = Some c' \<and> keeps_events json c c')))"
proof -
  let ?files = "staged [] (Folder staging)"
  have ins: "inside [] (fst ` set staging) f" if "f \<in> set ?files" for f
    using staged_inside(1) [of "Folder staging" "[]"] assms(4) that by auto
  have "list_all reg_file ?files"
    unfolding list_all_iff using inside_reg [OF ins] by blast
  from graft_files_keeps [OF assms(1,2) this, of "\<lparr>gr_files = 0, gr_events = 0\<rparr>" d r d'] assms(5)
  have k: "(\<forall>p. d' p \<noteq> d p \<longrightarrow> p \<in> graft_dest current ` set ?files)"
    "(\<forall>p c. p \<noteq> [] \<longrightarrow> is_log_name (last p) \<longrightarrow> d p = Some c \<longrightarrow> (\<exists>c'. d' p = Some c' \<and> keeps_events json c c'))"
    "(\<forall>e. r = Inl e \<longrightarrow> e = Log_too_big)"
    "((\<exists>g. r = Inr g) \<longrightarrow> (\<forall>f\<in>set ?files. \<forall>c. snd f = Reg c \<longrightarrow> is_log_name (last (fst f)) \<longrightarrow>
       (\<exists>c'. d' (graft_dest current f) = Some c' \<and> keeps_events json c c')))"
    unfolding graft_def by blast+
  have "in_wiki current with_config p" if "d' p \<noteq> d p" for p
    using k(1) that ins staged_dest [OF _ assms(3)] by blast
  then show ?thesis using k(2,3,4) by (auto simp: graft_dest_def split_beta)
qed

text \<open>
  an import that merges touches nothing outside the wiki (and the config, when it is taken),
  nothing under a hidden name, loses no event of a log that was here and no line of it that it
  cannot read, brings in every event of the archive's logs when it succeeds, and changes nothing
  when the archive is refused.
\<close>

theorem import_merges_without_loss:
  assumes "cr_blank json" "wiki_name current" "\<not> (occ \<and> existing = Replace)"
    and "import_archive json current occ aside a existing with_config d = (r, d')"
  shows "(\<forall>p. d' p \<noteq> d p \<longrightarrow> in_wiki current with_config p) \<and>
    (\<forall>p c. p \<noteq> [] \<longrightarrow> is_log_name (last p) \<longrightarrow> d p = Some c \<longrightarrow> (\<exists>c'. d' p = Some c' \<and> keeps_events json c c')) \<and>
    (\<forall>e. r = Inl e \<longrightarrow> e = Log_too_big \<or> d' = d) \<and>
    (\<forall>g. r = Inr g \<longrightarrow> (\<exists>staging. ar_tree a = Inr (Some staging) \<and>
       (\<forall>(rel, nd)\<in>set (staged [] (Folder staging)). \<forall>c. nd = Reg c \<longrightarrow> is_log_name (last rel) \<longrightarrow>
          (\<exists>c'. d' (normalize_wiki_member current rel) = Some c' \<and> keeps_events json c c'))))"
  using assms(4)
proof (cases rule: import_cases [case_names refused grafted])
  case (refused e)
  then show ?thesis by auto
next
  case (grafted staging)
  have g: "graft json current staging d = (r, d')" using grafted(4) assms(3) by (auto split: if_splits)
  from graft_inside [OF assms(1,2) grafted(2,3) g] grafted(1) show ?thesis by blast
qed

lemma replace_sets_the_old_brain_aside:
  assumes "cr_blank json" "wiki_name current" "aside \<noteq> current" "aside \<noteq> lit ''config.toml''"
    and "import_archive json current True aside a Replace with_config d = (Inr g, d')"
  shows "d' (aside # p) = d (current # p)"
  using assms(5)
proof (cases rule: import_cases [case_names refused grafted])
  case (grafted staging)
  from graft_inside [OF assms(1,2) grafted(2,3), of "move_aside current aside d" "Inr g" d'] grafted(4)
  have "d' q = move_aside current aside d q \<or> in_wiki current with_config q" for q by auto
  from this [of "aside # p"] show ?thesis using assms(3,4) by (auto simp: in_wiki_def move_aside_def)
qed simp

section \<open>What is exported can be imported\<close>

lemma exported_accepted:
  "refuse_links skip nd \<noteq> None \<Longrightarrow> refuse_links [] (exported skip nd) = refuse_links skip nd"
  "refuse_entries skip es \<noteq> None \<Longrightarrow> refuse_entries [] (exported_entries skip es) = refuse_entries skip es"
  by (induction skip nd and skip es rule: exported_exported_entries.induct)
    (auto split: option.splits if_splits)

lemma export_is_importable:
  assumes "export_members current wiki config include_config = Some members" "wiki_name current" "\<not> is_hidden current"
  shows "refuse_unexpected_members members include_config \<and> refuse_entries [] members \<noteq> None"
proof -
  have "\<not> is_hidden (lit ''config.toml'')"
    by (simp add: is_hidden_def lit_def ascii_lower_def ascii_class_defs trim_end_by_def starts_with_def Let_def)
  then show ?thesis using assms exported_accepted(2) [of SKIPPED]
    by (auto simp: export_members_def refuse_unexpected_members_def Let_def split: option.splits node.splits if_splits)
qed


section \<open>Examples\<close>

definition sample_json :: "rstr \<Rightarrow> json option" where
  "sample_json l = Some (JObj [(lit ''id'', JStr (trim_end_by (\<lambda>c. c = 13) l))])"

lemma sample_json_cr: "cr_blank sample_json"
proof -
  have "trim_end_by (\<lambda>c. c = 13) (strip_cr l) = trim_end_by (\<lambda>c. c = 13) l" for l
    by (cases l rule: rev_cases) (auto simp: strip_cr_def trim_end_by_def)
  then show ?thesis by (simp add: cr_blank_def sample_json_def)
qed

theorem merge_is_the_union_by_id_witness:
  "\<exists>ls added. merged_lines sample_json [98, 10, 97, 10] [97, 10, 99, 10] = (ls, added) \<and>
     fst (merged_lines sample_json [97, 10, 99, 10] [98, 10, 97, 10]) = ls \<and>
     length (filter (\<lambda>l. line_id sample_json l = Some [98]) ls) = 1"
proof -
  obtain ls added where m: "merged_lines sample_json [98, 10, 97, 10] [97, 10, 99, 10] = (ls, added)" by fastforce
  have t: "text_lines [97, 10, 99, 10] = [[97], [99]]" "text_lines [98, 10, 97, 10] = [[98], [97]]"
    by (simp_all add: text_lines_def split_on_def strip_cr_def Let_def)
  have "logs_agree sample_json (text_lines [97, 10, 99, 10] @ text_lines [98, 10, 97, 10])"
    "[98] \<in> ids_of sample_json (text_lines [98, 10, 97, 10])"
    by (simp_all add: t logs_agree_def line_id_def sample_json_def trim_defs is_ws_def)
  then show ?thesis using merge_is_the_union_by_id [OF m refl refl] m by simp
qed

definition sample_archive :: archive where
  "sample_archive =
     \<lparr>ar_file = True, ar_size = 300,
      ar_tar = \<lparr>tar_list = (\<lambda>flags most. Inr (Ran 20 (if flags = lit ''-tzf'' then lit ''wiki/a.jsonl'' @ [10] else lit ''-rw-r--r-- wiki/a.jsonl'' @ [10]))),
               tar_measure = (\<lambda>budget. Inr (Ran 2 []))\<rparr>,
      ar_tree = Inr (Some [(lit ''wiki'', Folder [(lit ''a.jsonl'', Reg [98, 10])])])\<rparr>"

definition sample_data :: data_dir where
  "sample_data = [[WIKI_DIR, lit ''a.jsonl''] \<mapsto> [97, 10]]"

lemma sample_checks:
  "refuse_unexpected_members [(lit ''wiki'', Folder [(lit ''a.jsonl'', Reg [98, 10])])] False"
  "refuse_links [] (Folder [(lit ''wiki'', Folder [(lit ''a.jsonl'', Reg [98, 10])])]) = Some 2"
  "path_components (trim (lit ''wiki/a.jsonl'')) = [lit ''wiki'', lit ''a.jsonl'']"
  "text_lines (lit ''wiki/a.jsonl'' @ [10]) = [lit ''wiki/a.jsonl'']"
  "text_lines (lit ''-rw-r--r-- wiki/a.jsonl'' @ [10]) = [lit ''-rw-r--r-- wiki/a.jsonl'']"
  "blen (lit ''wiki/a.jsonl'') = 12" "\<not> is_hidden (lit ''wiki'')" "\<not> is_hidden (lit ''a.jsonl'')"
  by (simp_all add: refuse_unexpected_members_def wiki_name_def WIKI_DIR_def LEGACY_WIKI_DIR_def is_hidden_def lit_def
      ascii_lower_def ascii_class_defs starts_with_def Let_def blen_def len_utf8_def path_components_def trim_defs is_ws_def
      split_on_def text_lines_def strip_cr_def)

lemma sample_import:
  "\<exists>g d'. import_archive sample_json WIKI_DIR True (lit ''old'') sample_archive Merge False sample_data = (Inr g, d')"
proof -
  have "refuse_escaping_members (ar_tar sample_archive) False LIMITS 300 = Inr 2"
    by (simp add: refuse_escaping_members_def list_archive_def sample_archive_def LIMITS_def sample_checks check_member_def
        Let_def wiki_name_def LEGACY_WIKI_DIR_def)
      (simp add: lit_def ROOT_DIR_def starts_with_def)
  moreover have "ar_file sample_archive" "ar_size sample_archive = 300"
    "ar_tree sample_archive = Inr (Some [(lit ''wiki'', Folder [(lit ''a.jsonl'', Reg [98, 10])])])"
    by (simp_all add: sample_archive_def)
  moreover have "li_unpacked_bytes LIMITS = 34359738368" "li_log_bytes LIMITS = 2147483648" by (simp_all add: LIMITS_def)
  moreover have "blen [98, 10] = 2" by (simp add: blen_def len_utf8_def)
  ultimately show ?thesis
    by (simp add: import_archive_def unpack_and_graft_def sample_checks graft_def sample_data_def
        normalize_wiki_member_def wiki_name_def LEGACY_WIKI_DIR_def case_prod_unfold Let_def del: refuse_links.simps)
qed

theorem import_merges_without_loss_witness:
  "\<exists>g d' c'. import_archive sample_json WIKI_DIR True (lit ''old'') sample_archive Merge False sample_data = (Inr g, d') \<and>
     d' [WIKI_DIR, lit ''a.jsonl''] = Some c' \<and> keeps_events sample_json [97, 10] c' \<and> keeps_events sample_json [98, 10] c'"
proof -
  obtain g d' where i: "import_archive sample_json WIKI_DIR True (lit ''old'') sample_archive Merge False sample_data = (Inr g, d')"
    using sample_import by blast
  have "wiki_name WIKI_DIR" "\<not> (True \<and> Merge = Replace)" by (simp_all add: wiki_name_def)
  note k = import_merges_without_loss [OF sample_json_cr this i]
  have log: "is_log_name (lit ''a.jsonl'')"
    by (simp add: is_log_name_def lit_def eq_ignore_case_def ascii_lower_def ascii_class_defs)
  have "\<exists>c'. d' [WIKI_DIR, lit ''a.jsonl''] = Some c' \<and> keeps_events sample_json [97, 10] c'"
    using k log by (simp add: sample_data_def)
  moreover have "\<exists>c'. d' [WIKI_DIR, lit ''a.jsonl''] = Some c' \<and> keeps_events sample_json [98, 10] c'"
    using k log by (auto simp: sample_archive_def normalize_wiki_member_def wiki_name_def LEGACY_WIKI_DIR_def)
  ultimately show ?thesis using i by auto
qed

end
