(* ===== verification/Store_Search.thy ===== *)
theory Store_Search
  imports Store_Index Ids Complex_Main "HOL-Library.Word"
begin

unbundle bit_operations_syntax

text \<open>
  Search, \<open>src/src/store.rs\<close>: the six streams of \<open>search_traced\<close>, their fusion, the relevance
  floor, the spreading over sessions, \<open>related\<close>, \<open>nearest\<close> and \<open>compile_fts\<close>.

  What the code asks of others is the record \<open>searcher\<close>: the two FTS5 indexes (what a query
  matches, in the order SQLite reads it, with its rank; \<open>None\<close> for a query it cannot parse), the
  embedding model and its signature, and the table \<open>entities\<close>. A vector is the number the table
  \<open>event_vec\<close> holds for it.

  An \<open>f32\<close> is the rational number it stands for. \<open>a_round\<close> is IEEE 754 rounding, so an
  operation is \<open>a_round\<close> of the exact result; \<open>a_ln\<close> is the library's \<open>ln\<close>, whose last bits are
  not specified. No score is a NaN or an infinity: \<open>ln 0\<close> is met by \<open>max(0.0)\<close> at once.
\<close>

record entity_row =
  n_name :: rstr
  n_session :: rstr
  n_project :: rstr

record arith =
  a_round :: "rat \<Rightarrow> rat"
  a_ln :: "rat \<Rightarrow> rat"

record searcher =
  sw_fts :: "rstr \<Rightarrow> (int \<times> rat) list option"
  sw_trigram :: "rstr \<Rightarrow> (int \<times> rat) list"
  sw_snippet :: "rstr \<Rightarrow> int \<Rightarrow> rstr"
  sw_encode :: "rstr \<Rightarrow> nat option"
  sw_zero :: "nat \<Rightarrow> bool"
  sw_similarity :: "nat \<Rightarrow> nat \<Rightarrow> rat"
  sw_signature :: rstr
  sw_entities :: "entity_row list"
  sw_machine :: rstr
  sw_lowercase :: "rstr \<Rightarrow> rstr"
  sw_arith :: arith

record hit =
  h_id :: rstr
  h_ts :: rstr
  h_by :: rstr
  h_kind :: event_kind
  h_title :: rstr
  h_snippet :: rstr
  h_session :: rstr

datatype recall = Fused_recall | Lexical

section \<open>Constants\<close>

definition SEARCH_POOL_FACTOR :: nat where "SEARCH_POOL_FACTOR = 4"
definition NEIGHBOUR_SEEDS :: nat where "NEIGHBOUR_SEEDS = 3"
definition ENTITY_TOKEN_MIN :: nat where "ENTITY_TOKEN_MIN = 3"
definition ENTITY_TOKENS_MAX :: nat where "ENTITY_TOKENS_MAX = 8"
definition ENTITY_EVENTS_PER_SESSION :: nat where "ENTITY_EVENTS_PER_SESSION = 2"
definition TRIGRAM_MIN_CHARS :: nat where "TRIGRAM_MIN_CHARS = 3"
definition RELAXED_TERMS :: nat where "RELAXED_TERMS = 5"
definition SEMANTIC_TOP_KEEP :: nat where "SEMANTIC_TOP_KEEP = 3"
definition USIZE_MAX :: nat where "USIZE_MAX = 2 ^ 64 - 1"

definition NEAREST_FLOOR :: "arith \<Rightarrow> rat" where "NEAREST_FLOOR a = a_round a (23 / 100)"
definition SEMANTIC_MATCH :: "arith \<Rightarrow> rat" where "SEMANTIC_MATCH a = a_round a (36 / 100)"
definition LENGTH_PENALTY :: "arith \<Rightarrow> rat" where "LENGTH_PENALTY a = a_round a (6 / 10)"
definition LENGTH_PIVOT :: rat where "LENGTH_PIVOT = 200"

definition STREAM_NAMES :: "rstr list" where
  "STREAM_NAMES = map lit [''keyword'', ''semantic'', ''entity'', ''substring'', ''graph'', ''keyword_relaxed'']"

definition STREAM_WEIGHTS :: "rat list" where
  "STREAM_WEIGHTS = [1, 1, 1 / 2, 1, 1 / 2, 1]"

definition KEYWORD :: nat where "KEYWORD = 0"
definition SEMANTIC :: nat where "SEMANTIC = 1"
definition ENTITY :: nat where "ENTITY = 2"
definition SUBSTRING :: nat where "SUBSTRING = 3"
definition GRAPH :: nat where "GRAPH = 4"
definition RELAXED :: nat where "RELAXED = 5"

lemmas stream_defs = KEYWORD_def SEMANTIC_def ENTITY_def SUBSTRING_def GRAPH_def RELAXED_def

definition stream_bit :: "nat \<Rightarrow> 8 word" where
  "stream_bit i = push_bit i 1"

section \<open>What a read may return\<close>

text \<open>The recall floor every read repeats, and \<open>scope_clause\<close>.\<close>

definition REVISION_HOOKS :: "rstr list" where
  "REVISION_HOOKS = map lit [''correct'', ''feedback'', ''supersede'', ''classify'', ''restore'']"

definition live_row :: "event_row \<Rightarrow> bool" where
  "live_row r = (r_forgotten r = 0 \<and> r_kind r \<noteq> Tombstone \<and> r_kind r \<noteq> Retire \<and> r_hook r \<notin> set REVISION_HOOKS)"

definition in_scope :: "searcher \<Rightarrow> rstr \<Rightarrow> event_row \<Rightarrow> bool" where
  "in_scope w project r = (r_project r = project \<or> r_project r = sw_machine w)"

definition topic_ok :: "rstr option \<Rightarrow> event_row \<Rightarrow> bool" where
  "topic_ok topic r = (case topic of None \<Rightarrow> True | Some t \<Rightarrow> r_topic r = Some t)"

definition demoted_row :: "event_row \<Rightarrow> bool" where
  "demoted_row r = (r_confidence r < 0)"

definition authority :: "event_row \<Rightarrow> nat" where
  "authority r = (case r_kind r of Knowledge \<Rightarrow> 0 | SessionSummary \<Rightarrow> 1 | SourceDoc \<Rightarrow> 1 | _ \<Rightarrow> 2)"

definition hit_of :: "(event_row \<Rightarrow> rstr) \<Rightarrow> event_row \<Rightarrow> hit" where
  "hit_of snip r =
     \<lparr>h_id = r_id r, h_ts = r_ts r, h_by = r_cli r, h_kind = r_kind r, h_title = r_title r,
      h_snippet = snip r, h_session = r_session r\<rparr>"

definition body_start :: "event_row \<Rightarrow> rstr" where
  "body_start r = take 160 (r_body r)"

text \<open>
  A \<open>usize\<close> cast to the \<open>i64\<close> SQLite takes: one past the range is negative, and a negative
  \<open>LIMIT\<close> is none at all.
\<close>

definition sql_limit :: "nat \<Rightarrow> 'a list \<Rightarrow> 'a list" where
  "sql_limit n xs = (if n < 2 ^ 63 then take n xs else xs)"

text \<open>\<open>ORDER BY id DESC\<close>, to be sorted further.\<close>

definition newest_id_first :: "event_row list \<Rightarrow> event_row list" where
  "newest_id_first rs = rev (sort_key r_id rs)"

text \<open>\<open>ROW_NUMBER() OVER (PARTITION BY session ...) <= n\<close> on an ordered list.\<close>

fun cap_sessions :: "nat \<Rightarrow> rstr list \<Rightarrow> event_row list \<Rightarrow> event_row list" where
  "cap_sessions n had [] = []"
| "cap_sessions n had (r # rs) =
     (if count_list had (r_session r) < n then r # cap_sessions n (r_session r # had) rs
      else cap_sessions n had rs)"

text \<open>The rows an FTS5 index found, \<open>JOIN events e ON e.rowid = ...rowid\<close>.\<close>

definition found_rows :: "event_row list \<Rightarrow> (int \<times> rat) list \<Rightarrow> (event_row \<times> rat) list" where
  "found_rows rows found =
     List.map_filter (\<lambda>(rid, relevance). map_option (\<lambda>r. (r, relevance)) (row_of r_rowid rid rows)) found"

section \<open>The streams\<close>

text \<open>\<open>keyword_sql\<close> run on one query.\<close>

definition keyword_read ::
    "searcher \<Rightarrow> rstr \<Rightarrow> rstr option \<Rightarrow> nat \<Rightarrow> nat \<Rightarrow> store \<Rightarrow> rstr \<Rightarrow> hit list option" where
  "keyword_read w project topic limit pool db query =
     (case sw_fts w query of None \<Rightarrow> None
      | Some found \<Rightarrow>
          (let rows = found_rows (events db) found;
               matched = filter (\<lambda>(r, _). in_scope w project r \<and> live_row r \<and> topic_ok topic r) rows;
               ordered = map fst (sort_key (\<lambda>(r, relevance). (demoted_row r, relevance)) matched)
           in Some (map (hit_of (\<lambda>r. sw_snippet w query (r_rowid r)))
                 (sql_limit pool (if limit < 2 ^ 63 then cap_sessions limit [] ordered else [])))))"

definition quoted_phrase :: "rstr \<Rightarrow> rstr" where
  "quoted_phrase q = [34] @ map (\<lambda>c. if c = 34 then 32 else c) q @ [34]"

definition recorded_embedding_model :: "store \<Rightarrow> rstr option" where
  "recorded_embedding_model db = state_get (lit ''embedding_model'') db"

definition vectors_are_this_models :: "searcher \<Rightarrow> store \<Rightarrow> bool" where
  "vectors_are_this_models w db =
     (case recorded_embedding_model db of None \<Rightarrow> True | Some recorded \<Rightarrow> recorded = sw_signature w)"

definition reconcile_embedding_model :: "searcher \<Rightarrow> store \<Rightarrow> store" where
  "reconcile_embedding_model w db =
     (if recorded_embedding_model db = Some (sw_signature w) then db
      else let db1 = (if recorded_embedding_model db \<noteq> None then db\<lparr>event_vec := []\<rparr> else db) in
        set_state (lit ''embedding_model'') (sw_signature w) db1)"

definition nearest :: "searcher \<Rightarrow> rstr \<Rightarrow> nat \<Rightarrow> rstr option \<Rightarrow> nat \<Rightarrow> store \<Rightarrow> (rstr \<times> rat) list option" where
  "nearest w project vector topic limit db =
     (if sw_zero w vector then Some []
      else if \<not> vectors_are_this_models w db then None
      else let rows = List.map_filter (\<lambda>(i, v). map_option (\<lambda>r. (r, v)) (event_of i db)) (event_vec db);
               seen = filter (\<lambda>(r, _). in_scope w project r \<and> live_row r \<and> topic_ok topic r) rows;
               scored = map (\<lambda>(r, v). (r_id r, sw_similarity w vector v, demoted_row r)) seen;
               close = filter (\<lambda>(_, score, _). score \<ge> NEAREST_FLOOR (sw_arith w)) scored
           in Some (map (\<lambda>(i, score, _). (i, score))
                 (take limit (sort_key (\<lambda>(i, score, dem). (dem, - score, i)) close))))"

definition hits_by_id :: "rstr list \<Rightarrow> store \<Rightarrow> hit list" where
  "hits_by_id ids db =
     map (hit_of body_start) (filter live_row (List.map_filter (\<lambda>i. event_of i db) ids))"

text \<open>\<open>LIKE\<close> with \<open>ESCAPE '\'\<close>: \<open>%\<close> any run, \<open>_\<close> any character, ASCII case ignored.\<close>

fun like_esc :: "rstr \<Rightarrow> rstr \<Rightarrow> bool" where
  "like_esc [] t = (t = [])"
| "like_esc (p # ps) t =
     (if p = 37 then like_esc ps t \<or> (case t of [] \<Rightarrow> False | _ # t' \<Rightarrow> like_esc (p # ps) t')
      else if p = 95 then (case t of [] \<Rightarrow> False | _ # t' \<Rightarrow> like_esc ps t')
      else if p = 92 then
        (case ps of [] \<Rightarrow> False
         | q # ps' \<Rightarrow> (case t of [] \<Rightarrow> False | c # t' \<Rightarrow> ascii_lower c = ascii_lower q \<and> like_esc ps' t'))
      else (case t of [] \<Rightarrow> False | c # t' \<Rightarrow> ascii_lower c = ascii_lower p \<and> like_esc ps t'))"

definition escape_like :: "rstr \<Rightarrow> rstr" where
  "escape_like tok = concat (map (\<lambda>c. if c = 92 \<or> c = 37 \<or> c = 95 then [92, c] else [c]) tok)"


text \<open>\<open>normalize_entity\<close> of \<open>src/src/consolidate.rs\<close>; \<open>truncate\<close> never fails (\<open>truncate_bounded\<close>).\<close>

definition normalize_entity :: "(rstr \<Rightarrow> rstr) \<Rightarrow> rstr \<Rightarrow> rstr option" where
  "normalize_entity lower raw =
     truncate_text (lower (join_spaces (split_whitespace
       (trim_by (\<lambda>c. c \<in> set [96, 34, 39, 40, 41, 44, 46, 58]) (trim raw))))) 120"

definition entity_patterns :: "searcher \<Rightarrow> rstr \<Rightarrow> rstr list" where
  "entity_patterns w query =
     map (\<lambda>tok. [37] @ escape_like tok @ [37])
       (take ENTITY_TOKENS_MAX (filter (\<lambda>tok. blen tok \<ge> ENTITY_TOKEN_MIN)
         (List.map_filter (normalize_entity (sw_lowercase w)) (split_whitespace query))))"

text \<open>How many of a session's names in a project satisfy a condition.\<close>

definition names_in :: "searcher \<Rightarrow> rstr \<Rightarrow> (rstr \<Rightarrow> bool) \<Rightarrow> rstr \<Rightarrow> nat" where
  "names_in w project P session =
     length (remdups (map n_name (filter (\<lambda>n. n_session n = session \<and> n_project n = project \<and> P (n_name n)) (sw_entities w))))"

definition entity_matches ::
    "searcher \<Rightarrow> rstr \<Rightarrow> rstr \<Rightarrow> rstr option \<Rightarrow> nat \<Rightarrow> nat \<Rightarrow> store \<Rightarrow> hit list" where
  "entity_matches w project query topic per_session pool db =
     (let patterns = entity_patterns w query in
      if patterns = [] then []
      else let matched = names_in w project (\<lambda>name. list_ex (\<lambda>pat. like_esc pat name) patterns);
               rows = filter (\<lambda>r. r_project r = project \<and> matched (r_session r) > 0 \<and> live_row r \<and> topic_ok topic r) (events db);
               candidates = cap_sessions per_session [] (sort_key (\<lambda>r. (demoted_row r, authority r)) (newest_id_first rows))
           in map (hit_of body_start) (sql_limit pool
                (sort_key (\<lambda>r. (demoted_row r, - int (matched (r_session r)), authority r)) (newest_id_first candidates))))"

definition substring_matches :: "searcher \<Rightarrow> rstr \<Rightarrow> rstr \<Rightarrow> rstr option \<Rightarrow> nat \<Rightarrow> store \<Rightarrow> hit list" where
  "substring_matches w project query topic limit db =
     (if length query < TRIGRAM_MIN_CHARS then []
      else let rows = found_rows (events db) (sw_trigram w (quoted_phrase query));
               matched = filter (\<lambda>(r, _). in_scope w project r \<and> live_row r \<and> topic_ok topic r) rows
           in map (hit_of body_start)
                (sql_limit limit (map fst (sort_key (\<lambda>(r, relevance). (demoted_row r, relevance)) matched))))"

definition sessions_of_ids :: "(event_row \<Rightarrow> bool) \<Rightarrow> rstr list \<Rightarrow> store \<Rightarrow> rstr list" where
  "sessions_of_ids P ids db = map r_session (filter (\<lambda>r. r_id r \<in> set ids \<and> P r) (events db))"

definition subjects_of :: "searcher \<Rightarrow> rstr \<Rightarrow> rstr list \<Rightarrow> rstr list" where
  "subjects_of w project sessions =
     map n_name (filter (\<lambda>n. n_session n \<in> set sessions \<and> n_project n = project) (sw_entities w))"

definition by_shared :: "(rstr \<Rightarrow> nat) \<Rightarrow> event_row list \<Rightarrow> event_row list" where
  "by_shared shared rows =
     sort_key (\<lambda>r. (- int (shared (r_session r)), demoted_row r, authority r)) (newest_id_first rows)"

definition neighbours_of :: "searcher \<Rightarrow> rstr \<Rightarrow> rstr list \<Rightarrow> rstr option \<Rightarrow> nat \<Rightarrow> store \<Rightarrow> hit list" where
  "neighbours_of w project seeds topic limit db =
     (if seeds = [] then []
      else let own = sessions_of_ids (\<lambda>r. r_project r = project) seeds db;
               subject = subjects_of w project own;
               shared = (\<lambda>s. if s \<in> set own then 0 else names_in w project (\<lambda>n. n \<in> set subject) s);
               rows = filter (\<lambda>r. r_project r = project \<and> shared (r_session r) > 0 \<and> live_row r \<and> topic_ok topic r) (events db)
           in map (hit_of body_start) (sql_limit limit (by_shared shared rows)))"

definition related_rows :: "searcher \<Rightarrow> rstr \<Rightarrow> rstr \<Rightarrow> nat \<Rightarrow> store \<Rightarrow> hit list" where
  "related_rows w project seed limit db =
     (let subject = subjects_of w project (sessions_of_ids (in_scope w project) [seed] db);
          shared = names_in w project (\<lambda>n. n \<in> set subject);
          rows = filter (\<lambda>r. in_scope w project r \<and> r_id r \<noteq> seed \<and> shared (r_session r) > 0 \<and> live_row r) (events db)
      in map (hit_of body_start) (sql_limit limit (by_shared shared rows)))"

section \<open>The relaxed query\<close>

definition RELAXED_STOP_WORDS :: "rstr list" where
  "RELAXED_STOP_WORDS = map lit
     [''a'', ''an'', ''and'', ''are'', ''as'', ''be'', ''by'', ''for'', ''from'', ''in'', ''is'', ''it'', ''of'', ''on'',
      ''or'', ''that'', ''the'', ''this'', ''to'', ''with'', ''you'', ''your'', ''how'', ''why'', ''what'', ''which'',
      ''does'', ''did'', ''do'', ''get'', ''was'', ''were'', ''about'', ''not'']"

definition fts_word :: "rstr \<Rightarrow> bool" where
  "fts_word word = (word = lit ''OR'' \<or> word = lit ''AND'' \<or> word = lit ''NOT'' \<or> starts_with word (lit ''NEAR''))"

definition is_edge :: "nat \<Rightarrow> bool" where
  "is_edge c = (is_ascii_punct c \<or> c \<in> set [0x2018, 0x2019, 0x201c, 0x201d])"

definition word_pieces :: "rstr \<Rightarrow> rstr list" where
  "word_pieces raw =
     (let word = trim_by is_edge raw in
      if 47 \<in> set word \<or> 46 \<in> set word then [word]
      else split_on (\<lambda>c. is_edge c \<and> c \<noteq> 95 \<and> c \<noteq> 45) word)"

definition add_term :: "(rstr \<Rightarrow> rstr) \<Rightarrow> rstr list \<Rightarrow> rstr \<Rightarrow> rstr list" where
  "add_term lower terms raw =
     (let piece = trim_by (\<lambda>c. c = 45 \<or> c = 95) raw in
      if length piece < 3 \<or> lower piece \<in> set RELAXED_STOP_WORDS then terms
      else if list_ex (\<lambda>seen. eq_ignore_case seen piece) terms then terms
      else terms @ [piece])"

definition keep_longest :: "rstr list \<Rightarrow> rstr list" where
  "keep_longest terms =
     (if length terms > RELAXED_TERMS
      then map (\<lambda>i. terms ! i)
             (sort (take RELAXED_TERMS (sort_key (\<lambda>i. - int (length (terms ! i))) [0..<length terms])))
      else terms)"

definition quoted_group :: "rstr \<Rightarrow> rstr \<Rightarrow> rstr \<Rightarrow> rstr" where
  "quoted_group a b c = [40, 34] @ a @ [34, 32, 34] @ b @ [34, 32, 34] @ c @ [34, 41]"

definition term_groups :: "rstr list \<Rightarrow> rstr list" where
  "term_groups terms =
     concat (map (\<lambda>a. concat (map (\<lambda>b. map (\<lambda>c. quoted_group (terms ! a) (terms ! b) (terms ! c))
       [b + 1..<length terms]) [a + 1..<length terms])) [0..<length terms])"

fun join_or :: "rstr list \<Rightarrow> rstr" where
  "join_or [] = []"
| "join_or [g] = g"
| "join_or (g # gs) = g @ lit '' OR '' @ join_or gs"

definition relaxed_terms :: "(rstr \<Rightarrow> rstr) \<Rightarrow> rstr \<Rightarrow> rstr list" where
  "relaxed_terms lower query = keep_longest (foldl (add_term lower) [] (concat (map word_pieces (split_whitespace query))))"

definition compile_fts :: "(rstr \<Rightarrow> rstr) \<Rightarrow> rstr \<Rightarrow> rstr option" where
  "compile_fts lower query =
     (if 34 \<in> set query \<or> 42 \<in> set query then None
      else if list_ex fts_word (split_whitespace query) then None
      else let terms = relaxed_terms lower query in
        if length terms < 3 then None else Some (join_or (term_groups terms)))"

definition relaxable :: "(rstr \<Rightarrow> rstr) \<Rightarrow> rstr \<Rightarrow> rstr" where
  "relaxable lower prompt =
     join_spaces (map (\<lambda>word. if fts_word word then lower word else word)
       (split_whitespace (map (\<lambda>c. if c = 34 \<or> c = 42 then 32 else c) prompt)))"

text \<open>The scripts written without spaces.\<close>

definition writes_without_spaces :: "rstr \<Rightarrow> bool" where
  "writes_without_spaces text' =
     list_ex (\<lambda>c. (0x0E00 \<le> c \<and> c \<le> 0x0EFF) \<or> (0x0F00 \<le> c \<and> c \<le> 0x0FFF) \<or> (0x1000 \<le> c \<and> c \<le> 0x109F) \<or>
       (0x1780 \<le> c \<and> c \<le> 0x17FF) \<or> (0x3040 \<le> c \<and> c \<le> 0x30FF) \<or> (0x3400 \<le> c \<and> c \<le> 0x4DBF) \<or>
       (0x4E00 \<le> c \<and> c \<le> 0x9FFF) \<or> (0xAC00 \<le> c \<and> c \<le> 0xD7AF) \<or> (0xF900 \<le> c \<and> c \<le> 0xFAFF)) text'"


section \<open>The relevance floor\<close>

datatype dropped = Loose_semantic | Entity_only | Graph_only | Entity_and_graph

definition WORDS :: "8 word" where
  "WORDS = stream_bit KEYWORD OR stream_bit SUBSTRING OR stream_bit RELAXED"
definition COMPANY :: "8 word" where
  "COMPANY = stream_bit ENTITY OR stream_bit GRAPH"

definition floor_reason :: "arith \<Rightarrow> 8 word \<Rightarrow> rat option \<Rightarrow> nat option \<Rightarrow> dropped option" where
  "floor_reason a seen_in cosine semantic_rank =
     (if seen_in AND WORDS \<noteq> 0 \<or> (case cosine of None \<Rightarrow> False | Some c \<Rightarrow> c \<ge> SEMANTIC_MATCH a) then None
      else if seen_in AND stream_bit SEMANTIC \<noteq> 0 then
        (let top = (case semantic_rank of None \<Rightarrow> False | Some rank \<Rightarrow> rank < SEMANTIC_TOP_KEEP) \<and>
                   (case cosine of None \<Rightarrow> False | Some c \<Rightarrow> c \<ge> NEAREST_FLOOR a)
         in if top \<or> seen_in AND COMPANY \<noteq> 0 then None else Some Loose_semantic)
      else Some (if seen_in AND COMPANY = stream_bit ENTITY then Entity_only
                 else if seen_in AND COMPANY = stream_bit GRAPH then Graph_only
                 else Entity_and_graph))"

section \<open>Fusion\<close>

record fused =
  fu_raw :: rat
  fu_length :: nat
  fu_discount :: rat
  fu_score :: rat
  fu_demoted :: bool
  fu_dropped :: "dropped option"

definition add32 :: "arith \<Rightarrow> rat \<Rightarrow> rat \<Rightarrow> rat" where "add32 a x y = a_round a (x + y)"
definition mul32 :: "arith \<Rightarrow> rat \<Rightarrow> rat \<Rightarrow> rat" where "mul32 a x y = a_round a (x * y)"
definition div32 :: "arith \<Rightarrow> rat \<Rightarrow> rat \<Rightarrow> rat" where "div32 a x y = a_round a (x / y)"

definition contribution :: "arith \<Rightarrow> rat \<Rightarrow> nat \<Rightarrow> rat" where
  "contribution a weight rank = div32 a weight (add32 a (add32 a 60 (a_round a (of_nat rank))) 1)"

definition stream_weight :: "nat \<Rightarrow> rat" where
  "stream_weight i = (if i < length STREAM_WEIGHTS then STREAM_WEIGHTS ! i else 1)"

fun raw_in_list :: "arith \<Rightarrow> rstr \<Rightarrow> rat \<Rightarrow> nat \<Rightarrow> hit list \<Rightarrow> rat \<Rightarrow> rat" where
  "raw_in_list a i weight rank [] raw = raw"
| "raw_in_list a i weight rank (h # hs) raw =
     raw_in_list a i weight (rank + 1) hs (if h_id h = i then add32 a raw (contribution a weight rank) else raw)"

fun raw_score :: "arith \<Rightarrow> rstr \<Rightarrow> nat \<Rightarrow> hit list list \<Rightarrow> rat \<Rightarrow> rat" where
  "raw_score a i k [] raw = raw"
| "raw_score a i k (l # ls) raw =
     raw_score a i (k + 1) ls (raw_in_list a i (stream_weight k) 0 l raw)"

fun seen_in :: "rstr \<Rightarrow> nat \<Rightarrow> hit list list \<Rightarrow> 8 word \<Rightarrow> 8 word" where
  "seen_in i k [] seen = seen"
| "seen_in i k (l # ls) seen =
     seen_in i (k + 1) ls (if i \<in> h_id ` set l then seen OR stream_bit k else seen)"

fun position :: "('a \<Rightarrow> bool) \<Rightarrow> 'a list \<Rightarrow> nat option" where
  "position P [] = None"
| "position P (x # xs) = (if P x then Some 0 else map_option Suc (position P xs))"

definition semantic_rank :: "rstr \<Rightarrow> hit list list \<Rightarrow> nat option" where
  "semantic_rank i ls =
     (if SEMANTIC < length ls then position (\<lambda>h. h_id h = i) (ls ! SEMANTIC) else None)"

text \<open>\<open>length()\<close> of a TEXT column counts characters; \<open>None\<close> for a row that is gone.\<close>

definition length_of :: "rstr \<Rightarrow> store \<Rightarrow> nat option" where
  "length_of i db = map_option (\<lambda>r. length (r_title r) + length (r_body r)) (event_of i db)"

definition discount_for :: "arith \<Rightarrow> nat option \<Rightarrow> rat" where
  "discount_for a len =
     (case len of None \<Rightarrow> 1
      | Some n \<Rightarrow>
          (let over = (if n = 0 then 0 else max 0 (a_ln a (div32 a (a_round a (of_nat n)) LENGTH_PIVOT)))
           in add32 a 1 (mul32 a (LENGTH_PENALTY a) over)))"

definition demoted_id :: "rstr \<Rightarrow> store \<Rightarrow> bool" where
  "demoted_id i db = (case event_of i db of None \<Rightarrow> False | Some r \<Rightarrow> demoted_row r)"

definition fused_of :: "arith \<Rightarrow> (rstr \<Rightarrow> rat option) option \<Rightarrow> hit list list \<Rightarrow> store \<Rightarrow> rstr \<Rightarrow> fused" where
  "fused_of a flr ls db i =
     (let raw = raw_score a i 0 ls 0; discount = discount_for a (length_of i db) in
      \<lparr>fu_raw = raw, fu_length = (case length_of i db of None \<Rightarrow> 0 | Some n \<Rightarrow> n), fu_discount = discount,
       fu_score = div32 a raw discount, fu_demoted = demoted_id i db,
       fu_dropped = (case flr of None \<Rightarrow> None
                     | Some cosines \<Rightarrow> floor_reason a (seen_in i 0 ls 0) (cosines i) (semantic_rank i ls))\<rparr>)"

definition nominated :: "hit list list \<Rightarrow> rstr list" where
  "nominated ls = remdups (map h_id (concat ls))"

definition known_hit :: "hit list list \<Rightarrow> rstr \<Rightarrow> hit option" where
  "known_hit ls i = find (\<lambda>h. h_id h = i) (concat ls)"

definition ranked_ids :: "(rstr \<Rightarrow> fused) \<Rightarrow> rstr list \<Rightarrow> rstr list" where
  "ranked_ids f ids =
     sort_key (\<lambda>i. (fu_demoted (f i), - fu_score (f i)))
       (rev (sort (filter (\<lambda>i. fu_dropped (f i) = None) ids)))"

definition fuse ::
    "arith \<Rightarrow> hit list list \<Rightarrow> nat \<Rightarrow> (rstr \<Rightarrow> rat option) option \<Rightarrow> store \<Rightarrow> hit list \<times> (rstr \<times> fused) list" where
  "fuse a ls limit flr db =
     (let f = fused_of a flr ls db; ids = nominated ls in
      (List.map_filter (known_hit ls) (take limit (ranked_ids f ids)), map (\<lambda>i. (i, f i)) ids))"

section \<open>Spreading over sessions\<close>

fun enqueue :: "hit \<Rightarrow> (rstr \<times> hit list) list \<Rightarrow> (rstr \<times> hit list) list" where
  "enqueue h [] = [(h_session h, [h])]"
| "enqueue h ((s, q) # qs) = (if s = h_session h then (s, q @ [h]) # qs else (s, q) # enqueue h qs)"

fun spread_round :: "nat \<Rightarrow> (rstr \<times> hit list) list \<Rightarrow> hit list \<Rightarrow> (rstr \<times> hit list) list \<times> hit list" where
  "spread_round limit [] out = ([], out)"
| "spread_round limit ((s, q) # qs) out =
     (if length out \<ge> limit then ((s, q) # qs, out)
      else case q of
             [] \<Rightarrow> (let (qs', out') = spread_round limit qs out in ((s, []) # qs', out'))
           | h # t \<Rightarrow> (let (qs', out') = spread_round limit qs (out @ [h]) in ((s, t) # qs', out')))"

lemma spread_round_grows: "length out \<le> length (snd (spread_round limit qs out))"
proof (induction limit qs out rule: spread_round.induct)
  case (2 limit s q qs out)
  show ?case using 2 by (cases q) (auto simp: case_prod_unfold Let_def)
qed simp

function spread_loop :: "nat \<Rightarrow> (rstr \<times> hit list) list \<Rightarrow> hit list \<Rightarrow> hit list" where
  "spread_loop limit qs out =
     (if length out < limit then
        (let (qs', out') = spread_round limit qs out in
         if length out' = length out then out' else spread_loop limit qs' out')
      else out)"
  by auto
termination
proof (relation "measure (\<lambda>(limit, qs, out). limit - length out)")
  fix limit qs out p qs' and out' :: "hit list"
  assume "length out < limit" "p = spread_round limit qs out" "(qs', out') = p" "length out' \<noteq> length out"
  then show "((limit, qs', out'), limit, qs, out) \<in> measure (\<lambda>(limit, qs, out). limit - length out)"
    using spread_round_grows [of out limit qs] by (metis case_prod_conv diff_less_mono2 in_measure le_neq_implies_less snd_conv)
qed simp

declare spread_loop.simps [simp del]

definition spread_across_sessions :: "hit list \<Rightarrow> nat \<Rightarrow> hit list" where
  "spread_across_sessions hits limit = spread_loop limit (foldl (\<lambda>qs h. enqueue h qs) [] hits) []"

section \<open>A search\<close>

text \<open>The trace, without the notes it carries for a reader.\<close>

record stream_trace =
  st_name :: rstr
  st_weight :: rat
  st_ranked :: "(rstr \<times> rat option) list"

record trace =
  tr_streams :: "stream_trace list"
  tr_fused :: "(rstr \<times> fused) list"

definition keyword_or_phrase :: "(rstr \<Rightarrow> hit list option) \<Rightarrow> rstr \<Rightarrow> hit list option" where
  "keyword_or_phrase read query =
     (case read query of Some hits \<Rightarrow> Some hits | None \<Rightarrow> read (quoted_phrase query))"

fun add_seeds :: "hit list \<Rightarrow> rstr list \<Rightarrow> rstr list" where
  "add_seeds [] seeds = seeds"
| "add_seeds (h # hs) seeds =
     (if length seeds \<ge> NEIGHBOUR_SEEDS then seeds
      else add_seeds hs (if h_id h \<in> set seeds then seeds else seeds @ [h_id h]))"

definition search_pool :: "nat \<Rightarrow> nat" where
  "search_pool limit = max (min USIZE_MAX (limit * SEARCH_POOL_FACTOR)) limit"

definition semantic_scored :: "searcher \<Rightarrow> rstr \<Rightarrow> rstr \<Rightarrow> rstr option \<Rightarrow> nat \<Rightarrow> store \<Rightarrow> (rstr \<times> rat) list" where
  "semantic_scored w project query topic pool db =
     (case sw_encode w query of None \<Rightarrow> []
      | Some vector \<Rightarrow>
          if sw_zero w vector then []
          else (case nearest w project vector topic pool db of None \<Rightarrow> [] | Some scored \<Rightarrow> scored))"

definition search_lists ::
    "searcher \<Rightarrow> rstr \<Rightarrow> rstr \<Rightarrow> rstr option \<Rightarrow> nat \<Rightarrow> hit list \<Rightarrow> hit list \<Rightarrow> store \<Rightarrow> hit list list" where
  "search_lists w project query topic pool keyword relaxed db =
     (let semantic = hits_by_id (map fst (semantic_scored w project query topic pool db)) db;
          entity = entity_matches w project query topic ENTITY_EVENTS_PER_SESSION pool db;
          substring = (if writes_without_spaces query then substring_matches w project query topic pool db else []);
          seeds = add_seeds (keyword @ semantic @ substring) [];
          graph = neighbours_of w project seeds topic pool db
      in [keyword, semantic, entity, substring, graph, relaxed])"

definition search_traced ::
    "searcher \<Rightarrow> rstr \<Rightarrow> rstr \<Rightarrow> rstr option \<Rightarrow> nat \<Rightarrow> recall \<Rightarrow> bool \<Rightarrow> store \<Rightarrow> (hit list \<times> trace) option" where
  "search_traced w project query topic limit rec flr db =
     (let pool = search_pool limit; read = keyword_read w project topic limit pool db in
      case keyword_or_phrase read query of None \<Rightarrow> None
      | Some keyword \<Rightarrow>
          if rec = Lexical then
            Some (spread_across_sessions keyword limit,
              \<lparr>tr_streams = [\<lparr>st_name = STREAM_NAMES ! 0, st_weight = STREAM_WEIGHTS ! 0,
                             st_ranked = map (\<lambda>h. (h_id h, None)) keyword\<rparr>], tr_fused = []\<rparr>)
          else
            (let relaxed = (case compile_fts (sw_lowercase w) query of None \<Rightarrow> []
                            | Some fts \<Rightarrow> (case read fts of None \<Rightarrow> [] | Some hits \<Rightarrow> hits));
                 cosines = map_of (rev (semantic_scored w project query topic pool db));
                 ls = search_lists w project query topic pool keyword relaxed db;
                 (hits, fused') = fuse (sw_arith w) ls pool (if flr then Some cosines else None) db;
                 streams = map (\<lambda>((name, weight), l).
                     \<lparr>st_name = name, st_weight = weight,
                      st_ranked = map (\<lambda>h. (h_id h, if name = STREAM_NAMES ! SEMANTIC then cosines (h_id h) else None)) l\<rparr>)
                   (zip (zip STREAM_NAMES STREAM_WEIGHTS) ls)
             in Some (spread_across_sessions hits limit, \<lparr>tr_streams = streams, tr_fused = fused'\<rparr>)))"

definition search_hits :: "searcher \<Rightarrow> rstr \<Rightarrow> rstr \<Rightarrow> rstr option \<Rightarrow> nat \<Rightarrow> recall \<Rightarrow> store \<Rightarrow> hit list option" where
  "search_hits w project query topic limit rec db =
     map_option fst (search_traced w project query topic limit rec False db)"

section \<open>The spread is a fair round robin\<close>

text \<open>The closed form: the first of every queue, then the same on what is left.\<close>

definition heads :: "(rstr \<times> hit list) list \<Rightarrow> hit list" where
  "heads qs = List.map_filter (\<lambda>(s, q). case q of [] \<Rightarrow> None | h # t \<Rightarrow> Some h) qs"

definition tails :: "(rstr \<times> hit list) list \<Rightarrow> (rstr \<times> hit list) list" where
  "tails qs = map (\<lambda>(s, q). (s, tl q)) qs"

definition queued :: "(rstr \<times> hit list) list \<Rightarrow> nat" where
  "queued qs = sum_list (map (\<lambda>(s, q). length q) qs)"

lemma heads_simps [simp]:
  "heads [] = []" "heads ((s, []) # qs) = heads qs" "heads ((s, h # t) # qs) = h # heads qs"
  by (simp_all add: heads_def List.map_filter_def)

lemma tails_simps [simp]: "tails [] = []" "tails ((s, q) # qs) = (s, tl q) # tails qs"
  by (simp_all add: tails_def)

lemma queued_simps [simp]: "queued [] = 0" "queued ((s, q) # qs) = length q + queued qs"
  by (simp_all add: queued_def)

lemma queued_heads: "length (heads qs) + queued (tails qs) = queued qs"
proof (induction qs)
  case (Cons p qs)
  then show ?case by (cases p; cases "snd p") auto
qed simp

lemma heads_empty: "heads qs = [] \<longleftrightarrow> queued qs = 0"
proof (induction qs)
  case (Cons p qs)
  then show ?case by (cases p; cases "snd p") auto
qed simp

function round_robin :: "(rstr \<times> hit list) list \<Rightarrow> hit list" where
  "round_robin qs = (if heads qs = [] then [] else heads qs @ round_robin (tails qs))"
  by auto
termination
proof (relation "measure queued")
  fix qs :: "(rstr \<times> hit list) list"
  assume "heads qs \<noteq> []"
  then show "(tails qs, qs) \<in> measure queued"
    using queued_heads [of qs] by (cases "heads qs") auto
qed simp

declare round_robin.simps [simp del]

lemma round_robin_step: "round_robin qs = heads qs @ round_robin (tails qs)"
proof (cases "heads qs = []")
  case True
  then have "heads (tails qs) = []" using queued_heads [of qs] by (simp add: heads_empty)
  then show ?thesis using True round_robin.simps [of qs] round_robin.simps [of "tails qs"] by simp
qed (simp add: round_robin.simps [of qs])

lemma spread_round_is:
  "length out \<le> limit \<Longrightarrow>
   snd (spread_round limit qs out) = take limit (out @ heads qs) \<and>
   (length out + length (heads qs) < limit \<longrightarrow> fst (spread_round limit qs out) = tails qs)"
proof (induction limit qs out rule: spread_round.induct)
  case (2 limit s q qs out)
  show ?case
  proof (cases q)
    case Nil
    then show ?thesis using 2 by (auto simp: case_prod_unfold Let_def)
  next
    case (Cons h t)
    show ?thesis
    proof (cases "length out \<ge> limit")
      case True
      then show ?thesis using Cons 2(3) by simp
    next
      case False
      then show ?thesis using Cons 2(2) [OF False Cons] by (auto simp: case_prod_unfold Let_def)
    qed
  qed
qed simp

lemma spread_loop_is: "length out \<le> limit \<Longrightarrow> spread_loop limit qs out = take limit (out @ round_robin qs)"
proof (induction limit qs out rule: spread_loop.induct)
  case (1 limit qs out)
  let ?r = "spread_round limit qs out"
  have r: "snd ?r = take limit (out @ heads qs)"
    "length out + length (heads qs) < limit \<longrightarrow> fst ?r = tails qs"
    using spread_round_is [OF 1(2)] by blast+
  consider (full) "length out = limit" | (dry) "length out < limit" "heads qs = []"
    | (cut) "length out < limit" "heads qs \<noteq> []" "limit \<le> length out + length (heads qs)"
    | (more) "length out < limit" "heads qs \<noteq> []" "length out + length (heads qs) < limit"
    using 1(2) by linarith
  then show ?case
  proof cases
    case full
    then show ?thesis by (simp add: spread_loop.simps [of limit qs out])
  next
    case dry
    then show ?thesis using r by (simp add: spread_loop.simps [of limit qs out] case_prod_unfold Let_def round_robin.simps)
  next
    case cut
    then have len: "length (snd ?r) = limit" using r by simp
    have "spread_loop limit qs out = spread_loop limit (fst ?r) (snd ?r)"
      using cut(1) len by (simp add: spread_loop.simps [of limit qs out] case_prod_unfold Let_def)
    also have "\<dots> = snd ?r" using len by (simp add: spread_loop.simps [of limit _ "snd ?r"])
    finally show ?thesis using r cut round_robin_step [of qs] by simp
  next
    case more
    then have s: "snd ?r = out @ heads qs" "fst ?r = tails qs" using r by simp_all
    have "spread_loop limit qs out = spread_loop limit (tails qs) (out @ heads qs)"
      using more s by (simp add: spread_loop.simps [of limit qs out] case_prod_unfold Let_def)
    also have "\<dots> = take limit ((out @ heads qs) @ round_robin (tails qs))"
    proof (rule 1(1) [of ?r])
      show "(tails qs, out @ heads qs) = ?r" by (simp add: prod_eq_iff s)
    qed (use more s in simp_all)
    finally show ?thesis using round_robin_step [of qs] by simp
  qed
qed

text \<open>The queues, one per session in the order the sessions first appear.\<close>

definition queue_of :: "rstr \<Rightarrow> (rstr \<times> hit list) list \<Rightarrow> hit list" where
  "queue_of s qs = (case map_of qs s of None \<Rightarrow> [] | Some q \<Rightarrow> q)"

definition queues_ok :: "(rstr \<times> hit list) list \<Rightarrow> bool" where
  "queues_ok qs = (distinct (map fst qs) \<and> list_all (\<lambda>(s, q). list_all (\<lambda>h. h_session h = s) q) qs)"

abbreviation of_session :: "rstr \<Rightarrow> hit list \<Rightarrow> hit list" where
  "of_session s hs \<equiv> filter (\<lambda>h. h_session h = s) hs"

lemma queues_ok_Cons [simp]:
  "queues_ok ((s, q) # qs) \<longleftrightarrow> s \<notin> fst ` set qs \<and> list_all (\<lambda>h. h_session h = s) q \<and> queues_ok qs"
  by (auto simp: queues_ok_def)

lemma queues_ok_tails: "queues_ok qs \<Longrightarrow> queues_ok (tails qs)"
proof (induction qs)
  case (Cons p qs)
  have "fst ` set (tails qs) = fst ` set qs" by (force simp: tails_def image_iff)
  then show ?case using Cons by (cases p; cases "snd p") auto
qed simp

lemma queue_of_Cons [simp]: "queue_of s ((t, q) # qs) = (if s = t then q else queue_of s qs)"
  by (simp add: queue_of_def)

lemma queue_of_Nil [simp]: "queue_of s [] = []"
  by (simp add: queue_of_def)

lemma queue_of_absent: "s \<notin> fst ` set qs \<Longrightarrow> queue_of s qs = []"
  by (induction qs) auto

lemma queue_of_tails [simp]: "queue_of s (tails qs) = tl (queue_of s qs)"
  by (induction qs) auto

lemma heads_of_session: "queues_ok qs \<Longrightarrow> of_session s (heads qs) = (case queue_of s qs of [] \<Rightarrow> [] | h # t \<Rightarrow> [h])"
proof (induction qs)
  case (Cons p qs)
  obtain t q where p: "p = (t, q)" by (cases p)
  have r: "of_session s (heads qs) = []" if "s = t" using that Cons p queue_of_absent [of t qs] by simp
  show ?case using Cons r p by (cases q) auto
qed simp

lemma round_robin_of_session: "queues_ok qs \<Longrightarrow> of_session s (round_robin qs) = queue_of s qs"
proof (induction qs rule: round_robin.induct)
  case (1 qs)
  show ?case
  proof (cases "heads qs = []")
    case True
    have "queue_of s qs = []"
    proof (cases "map_of qs s")
      case (Some q)
      then have "(s, q) \<in> set qs" by (rule map_of_SomeD)
      then have "length q \<le> queued qs" by (force simp: queued_def intro: member_le_sum_list)
      then show ?thesis using True Some by (simp add: queue_of_def heads_empty)
    qed (simp add: queue_of_def)
    then show ?thesis using True by (simp add: round_robin.simps [of qs])
  next
    case False
    then have "of_session s (round_robin (tails qs)) = tl (queue_of s qs)"
      using 1 queues_ok_tails by simp
    then show ?thesis using heads_of_session [OF 1(2), of s] round_robin_step [of qs] by (simp split: list.splits)
  qed
qed

lemma enqueue_ok:
  "queues_ok qs \<Longrightarrow> queues_ok (enqueue h qs) \<and> fst ` set (enqueue h qs) = insert (h_session h) (fst ` set qs) \<and>
   queue_of s (enqueue h qs) = queue_of s qs @ (if h_session h = s then [h] else [])"
  by (induction h qs rule: enqueue.induct) (auto simp: queues_ok_def queue_of_absent)

lemma queues_of_hits:
  "queues_ok qs \<Longrightarrow> queues_ok (foldl (\<lambda>qs h. enqueue h qs) qs hits) \<and>
   queue_of s (foldl (\<lambda>qs h. enqueue h qs) qs hits) = queue_of s qs @ of_session s hits"
  by (induction hits arbitrary: qs) (simp_all add: enqueue_ok)

lemma mset_by_session: "(\<And>s. of_session s xs = of_session s ys) \<Longrightarrow> mset xs = mset ys"
proof (rule multiset_eqI)
  fix h assume e: "\<And>s. of_session s xs = of_session s ys"
  have "count_list (of_session (h_session h) zs) h = count_list zs h" for zs by (induction zs) auto
  then show "count (mset xs) h = count (mset ys) h" using e [of "h_session h"] by (metis count_mset)
qed

lemma round_robin_fair:
  "queues_ok qs \<Longrightarrow>
   length (of_session t (take n (round_robin qs))) \<le> Suc (length (of_session s (take n (round_robin qs)))) \<or>
   length (of_session s (take n (round_robin qs))) = length (queue_of s qs)"
proof (induction qs arbitrary: n rule: round_robin.induct)
  case (1 qs)
  note own = heads_of_session [OF 1(2)]
  have le: "length (of_session u (take m (heads qs))) \<le> 1" for u m
  proof -
    have "length (of_session u (take m (heads qs))) \<le> length (of_session u (heads qs))"
      using append_take_drop_id [of m "heads qs"] by (metis filter_append length_append le_add1)
    then show ?thesis using own [of u] by (simp split: list.splits)
  qed
  show ?case
  proof (cases "heads qs = [] \<or> n \<le> length (heads qs)")
    case True
    then have "take n (round_robin qs) = take n (heads qs)" using round_robin_step [of qs] round_robin.simps [of qs] by auto
    then show ?thesis using le [of t n] by simp
  next
    case False
    define m where "m = n - length (heads qs)"
    have tk: "take n (round_robin qs) = heads qs @ take m (round_robin (tails qs))"
      using False round_robin_step [of qs] by (simp add: m_def)
    have IH: "length (of_session t (take m (round_robin (tails qs)))) \<le> Suc (length (of_session s (take m (round_robin (tails qs))))) \<or>
        length (of_session s (take m (round_robin (tails qs)))) = length (tl (queue_of s qs))"
      using 1(1) [of m] False queues_ok_tails [OF 1(2)] by simp
    show ?thesis
    proof (cases "queue_of s qs")
      case Nil
      have "of_session s (take m (round_robin (tails qs))) = []"
        using round_robin_of_session [OF queues_ok_tails [OF 1(2)], of s] Nil
        by (metis (no_types, lifting) append_is_Nil_conv append_take_drop_id filter_append list.sel(2) queue_of_tails)
      then show ?thesis using tk Nil own [of s] by simp
    next
      case (Cons h q)
      have "length (of_session t (heads qs)) \<le> 1" using own [of t] by (simp split: list.splits)
      then show ?thesis using IH tk Cons own [of s] by auto
    qed
  qed
qed

lemma spread_is: "spread_across_sessions hits limit = take limit (round_robin (foldl (\<lambda>qs h. enqueue h qs) [] hits))"
  using spread_loop_is [of "[]"] by (simp add: spread_across_sessions_def)

lemma round_robin_hits:
  fixes hits defines "qs \<equiv> foldl (\<lambda>qs h. enqueue h qs) [] hits"
  shows "queues_ok qs" "queue_of s qs = of_session s hits" "mset (round_robin qs) = mset hits"
proof -
  show ok: "queues_ok qs" and q: "queue_of s qs = of_session s hits" for s
    using queues_of_hits [of "[]"] by (simp_all add: qs_def queues_ok_def)
  show "mset (round_robin qs) = mset hits"
    by (rule mset_by_session) (simp add: round_robin_of_session [OF ok] q)
qed

lemma spread_mset: "mset (spread_across_sessions hits limit) \<subseteq># mset hits"
proof -
  let ?r = "round_robin (foldl (\<lambda>qs h. enqueue h qs) [] hits)"
  have "mset (take limit ?r) \<subseteq># mset ?r" by (metis append_take_drop_id mset_append mset_subset_eq_add_left)
  then show ?thesis by (simp add: spread_is round_robin_hits)
qed

lemma enqueue_hd: "qs \<noteq> [] \<Longrightarrow> snd (hd qs) \<noteq> [] \<Longrightarrow>
  enqueue h qs \<noteq> [] \<and> snd (hd (enqueue h qs)) \<noteq> [] \<and> hd (snd (hd (enqueue h qs))) = hd (snd (hd qs))"
  by (cases qs) (auto split: if_splits)

lemma enqueue_all_hd: "qs \<noteq> [] \<Longrightarrow> snd (hd qs) \<noteq> [] \<Longrightarrow>
  (let r = foldl (\<lambda>qs h. enqueue h qs) qs hits in r \<noteq> [] \<and> snd (hd r) \<noteq> [] \<and> hd (snd (hd r)) = hd (snd (hd qs)))"
proof (induction hits arbitrary: qs)
  case (Cons h hits)
  then show ?case using enqueue_hd [OF Cons.prems, of h] by (metis (no_types, lifting) foldl_Cons)
qed simp

lemma round_robin_first: "take 1 (round_robin (foldl (\<lambda>qs h. enqueue h qs) [] hits)) = take 1 hits"
proof (cases hits)
  case (Cons h hs)
  define qs where "qs = foldl (\<lambda>qs h. enqueue h qs) [(h_session h, [h])] hs"
  have "qs \<noteq> []" "snd (hd qs) \<noteq> []" "hd (snd (hd qs)) = h"
    using enqueue_all_hd [of "[(h_session h, [h])]" hs] by (simp_all add: qs_def Let_def)
  then obtain s t qs' where "qs = (s, h # t) # qs'" by (cases qs; cases "snd (hd qs)") auto
  then show ?thesis using Cons round_robin_step [of qs] by (simp add: qs_def)
qed (simp add: round_robin.simps)

text \<open>
  spreading over sessions neither drops nor invents a hit short of the limit, keeps the best
  hit first and each session's own order, and is fair at every cut: no session is shown twice
  more than another that still has something to show.
\<close>

theorem spread_is_fair:
  "length (spread_across_sessions hits limit) = min limit (length hits) \<and>
   mset (spread_across_sessions hits limit) \<subseteq># mset hits \<and>
   take 1 (spread_across_sessions hits limit) = take (min 1 limit) hits \<and>
   (\<forall>s. prefix (of_session s (spread_across_sessions hits limit)) (of_session s hits)) \<and>
   (\<forall>n s t. length (of_session t (take n (spread_across_sessions hits limit)))
              \<le> Suc (length (of_session s (take n (spread_across_sessions hits limit)))) \<or>
            length (of_session s (take n (spread_across_sessions hits limit))) = length (of_session s hits))"
proof -
  let ?qs = "foldl (\<lambda>qs h. enqueue h qs) [] hits"
  note rr = round_robin_hits [where hits = hits]
  have "length (round_robin ?qs) = length hits" using rr(3) by (metis size_mset)
  moreover have "take 1 (take limit (round_robin ?qs)) = take (min 1 limit) hits"
    using round_robin_first [of hits] by (cases limit) simp_all
  moreover have "prefix (of_session s (take limit (round_robin ?qs))) (of_session s hits)" for s
    using round_robin_of_session [OF rr(1), of s] rr(2) [where s = s]
    by (metis append_take_drop_id filter_append prefixI)
  moreover have "length (of_session t (take n (take limit (round_robin ?qs)))) \<le> Suc (length (of_session s (take n (take limit (round_robin ?qs))))) \<or>
      length (of_session s (take n (take limit (round_robin ?qs)))) = length (of_session s hits)" for n s t
    using round_robin_fair [OF rr(1), of t "min n limit" s] rr(2) [where s = s] by simp
  ultimately show ?thesis using spread_mset [of hits limit] unfolding spread_is by (simp add: min.commute)
qed

section \<open>What a search can return\<close>

text \<open>A hit that shows a memory the reader may see: live, in scope, of the topic asked for.\<close>

definition shows_memory :: "searcher \<Rightarrow> rstr \<Rightarrow> rstr option \<Rightarrow> store \<Rightarrow> hit \<Rightarrow> bool" where
  "shows_memory w project topic db h =
     list_ex (\<lambda>r. r_id r = h_id h \<and> h_title h = r_title r \<and> h_session h = r_session r \<and>
        live_row r \<and> in_scope w project r \<and> topic_ok topic r) (events db)"

lemma shows_memoryI:
  "r \<in> set (events db) \<Longrightarrow> live_row r \<Longrightarrow> in_scope w project r \<Longrightarrow> topic_ok topic r \<Longrightarrow>
   shows_memory w project topic db (hit_of snip r)"
  by (auto simp: shows_memory_def list_ex_iff hit_of_def)

lemma hit_of_fields [simp]: "h_id (hit_of snip r) = r_id r" "h_session (hit_of snip r) = r_session r"
  by (simp_all add: hit_of_def)

lemma set_map_filter: "set (List.map_filter f xs) = {y. \<exists>x\<in>set xs. f x = Some y}"
  by (auto simp: List.map_filter_def intro: rev_image_eqI)

lemma set_sql_limit: "x \<in> set (sql_limit n xs) \<Longrightarrow> x \<in> set xs"
  by (auto simp: sql_limit_def split: if_splits dest: in_set_takeD)

lemma subseq_cap: "subseq (cap_sessions n had rs) rs"
  by (induction n had rs rule: cap_sessions.induct) auto

lemma set_cap: "r \<in> set (cap_sessions n had rs) \<Longrightarrow> r \<in> set rs"
  by (induction n had rs rule: cap_sessions.induct) (auto split: if_splits)

lemma set_newest [simp]: "set (newest_id_first rs) = set rs"
  by (simp add: newest_id_first_def)

lemma in_scope_own: "r_project r = project \<Longrightarrow> in_scope w project r"
  by (simp add: in_scope_def)

lemma found_rows_simps [simp]:
  "found_rows rows [] = []"
  "found_rows rows ((rid, v) # found) =
     (case row_of r_rowid rid rows of None \<Rightarrow> found_rows rows found | Some r \<Rightarrow> (r, v) # found_rows rows found)"
  by (simp_all add: found_rows_def List.map_filter_def split: option.split)

lemma found_rows_mem: "(r, v) \<in> set (found_rows rows found) \<Longrightarrow> r \<in> set rows \<and> (r_rowid r, v) \<in> set found"
  by (induction found) (auto split: option.splits dest: row_of_Some)

lemma found_rows_distinct: "distinct (map fst found) \<Longrightarrow> distinct (map (\<lambda>p. r_rowid (fst p)) (found_rows rows found))"
proof (induction found)
  case (Cons p found)
  obtain rid v where p: "p = (rid, v)" by (cases p)
  have new: "rid \<notin> (\<lambda>p. r_rowid (fst p)) ` set (found_rows rows found)"
    using Cons.prems p found_rows_mem [of _ _ rows found] by (force simp: image_iff)
  show ?case
  proof (cases "row_of r_rowid rid rows")
    case (Some r)
    then have "r_rowid r = rid" by (auto dest: row_of_Some)
    then show ?thesis using Cons p Some new by simp
  qed (use Cons p in simp)
qed simp

definition ordered_rows :: "(event_row \<Rightarrow> bool) \<Rightarrow> (event_row \<times> rat) list \<Rightarrow> event_row list" where
  "ordered_rows P rows = map fst (sort_key (\<lambda>(r, relevance). (demoted_row r, relevance)) (filter (\<lambda>(r, _). P r) rows))"

lemma ordered_rows_mem: "r \<in> set (ordered_rows P (found_rows rows found)) \<Longrightarrow> r \<in> set rows \<and> P r \<and> r_rowid r \<in> fst ` set found"
  by (force simp: ordered_rows_def dest: found_rows_mem)

lemma ordered_rows_distinct:
  assumes "distinct (map fst found)" "distinct (map r_id rows)"
  shows "distinct (map r_id (ordered_rows P (found_rows rows found)))"
proof -
  let ?s = "sort_key (\<lambda>(r, relevance). (demoted_row r, relevance)) (filter (\<lambda>(r, _). P r) (found_rows rows found))"
  have "distinct (map (\<lambda>p. r_rowid (fst p)) (found_rows rows found))" by (rule found_rows_distinct [OF assms(1)])
  then have "inj_on (\<lambda>p. r_rowid (fst p)) (set (found_rows rows found))" "distinct (found_rows rows found)"
    by (simp_all add: distinct_map)
  then have "distinct ?s" "inj_on (\<lambda>p. r_rowid (fst p)) (set ?s)" by (auto simp: inj_on_def)
  then have "distinct (map (r_rowid \<circ> fst) ?s)" by (simp add: distinct_map comp_def)
  then have "distinct (map fst ?s)" by (metis distinct_map list.map_comp)
  moreover have "set (map fst ?s) \<subseteq> set rows" using found_rows_mem by fastforce
  ultimately show ?thesis using assms(2) unfolding ordered_rows_def distinct_map by (metis inj_on_subset)
qed

lemma keyword_read_is:
  "keyword_read w project topic limit pool db q =
     map_option (\<lambda>found. map (hit_of (\<lambda>r. sw_snippet w q (r_rowid r)))
       (sql_limit pool (if limit < 2 ^ 63
         then cap_sessions limit [] (ordered_rows (\<lambda>r. in_scope w project r \<and> live_row r \<and> topic_ok topic r) (found_rows (events db) found))
         else [])))
       (sw_fts w q)"
  by (cases "sw_fts w q") (simp_all add: keyword_read_def ordered_rows_def Let_def)

lemma keyword_shows:
  assumes "keyword_read w project topic limit pool db q = Some hits" "h \<in> set hits"
  obtains r found where "r \<in> set (events db)" "h = hit_of (\<lambda>r. sw_snippet w q (r_rowid r)) r" "live_row r"
    "in_scope w project r" "topic_ok topic r" "sw_fts w q = Some found" "r_rowid r \<in> fst ` set found"
proof -
  let ?P = "\<lambda>r. in_scope w project r \<and> live_row r \<and> topic_ok topic r"
  obtain found where f: "sw_fts w q = Some found" using assms(1) by (auto simp: keyword_read_is)
  then obtain r where r: "r \<in> set (ordered_rows ?P (found_rows (events db) found))"
    "h = hit_of (\<lambda>r. sw_snippet w q (r_rowid r)) r"
    using assms by (auto simp: keyword_read_is split: if_splits dest!: set_sql_limit set_cap)
  then show thesis using ordered_rows_mem [OF r(1)] f by (intro that) blast+
qed

lemma subseq_distinct: "subseq xs ys \<Longrightarrow> distinct ys \<Longrightarrow> distinct xs"
  by (induction rule: list_emb.induct) (auto dest: list_emb_set)

lemma subseq_map_distinct: "subseq xs ys \<Longrightarrow> distinct (map f ys) \<Longrightarrow> distinct (map f xs)"
  by (rule subseq_distinct [OF subseq_map])

lemma sql_limit_subseq: "subseq (sql_limit n xs) xs"
proof -
  have "subseq (take n xs) (take n xs @ drop n xs)" by (rule list_emb_prefix) simp
  then show ?thesis by (simp add: sql_limit_def)
qed

lemma keyword_distinct:
  assumes "keyword_read w project topic limit pool db q = Some hits" "distinct (map r_id (events db))"
    and "\<And>q found. sw_fts w q = Some found \<Longrightarrow> distinct (map fst found)"
  shows "distinct (map h_id hits)"
proof -
  obtain found where f: "sw_fts w q = Some found" using assms(1) by (auto simp: keyword_read_is)
  define ordered where "ordered = ordered_rows (\<lambda>r. in_scope w project r \<and> live_row r \<and> topic_ok topic r) (found_rows (events db) found)"
  have "distinct (map r_id ordered)" unfolding ordered_def by (rule ordered_rows_distinct [OF assms(3) [OF f] assms(2)])
  moreover have "subseq (sql_limit pool (if limit < 2 ^ 63 then cap_sessions limit [] ordered else [])) ordered"
    by (rule subseq_order.trans [OF sql_limit_subseq]) (simp add: subseq_cap)
  ultimately have "distinct (map r_id (sql_limit pool (if limit < 2 ^ 63 then cap_sessions limit [] ordered else [])))"
    using subseq_map_distinct by blast
  then show ?thesis using assms(1) f by (auto simp: keyword_read_is ordered_def comp_def)
qed

lemma semantic_shows:
  assumes "distinct (map r_id (events db))"
    and "h \<in> set (hits_by_id (map fst (semantic_scored w project query topic pool db)) db)"
  shows "shows_memory w project topic db h"
proof -
  obtain i where i: "i \<in> fst ` set (semantic_scored w project query topic pool db)"
    and r: "\<exists>r. event_of i db = Some r \<and> live_row r \<and> h = hit_of body_start r"
    using assms(2) by (auto simp: hits_by_id_def set_map_filter)
  obtain vector scored where v: "nearest w project vector topic pool db = Some scored" "i \<in> fst ` set scored"
    using i by (auto simp: semantic_scored_def split: option.splits if_splits)
  then obtain r' where r': "r' \<in> set (events db)" "r_id r' = i" "in_scope w project r'" "topic_ok topic r'"
    by (fastforce simp: nearest_def set_map_filter split: if_splits dest!: in_set_takeD dest: row_of_Some)
  then have "event_of i db = Some r'" using row_of_mem [OF assms(1)] by blast
  then show ?thesis using r r' by (auto intro: shows_memoryI)
qed

lemma entity_shows: "h \<in> set (entity_matches w project query topic n pool db) \<Longrightarrow> shows_memory w project topic db h"
  by (auto simp: entity_matches_def Let_def in_scope_own split: if_splits intro!: shows_memoryI dest!: set_sql_limit set_cap)

lemma substring_shows: "h \<in> set (substring_matches w project query topic pool db) \<Longrightarrow> shows_memory w project topic db h"
  by (auto simp: substring_matches_def Let_def split: if_splits intro!: shows_memoryI dest!: set_sql_limit found_rows_mem)

lemma graph_shows: "h \<in> set (neighbours_of w project seeds topic pool db) \<Longrightarrow> shows_memory w project topic db h"
  by (auto simp: neighbours_of_def by_shared_def Let_def in_scope_own split: if_splits intro!: shows_memoryI dest!: set_sql_limit)

lemma related_shows:
  "h \<in> set (related_rows w project seed limit db) \<Longrightarrow> shows_memory w project None db h \<and> h_id h \<noteq> seed"
  by (auto simp: related_rows_def by_shared_def Let_def topic_ok_def intro!: shows_memoryI dest!: set_sql_limit)

lemma search_lists_show:
  assumes "distinct (map r_id (events db))" "\<forall>h\<in>set keyword \<union> set relaxed. shows_memory w project topic db h"
    and "l \<in> set (search_lists w project query topic pool keyword relaxed db)" "h \<in> set l"
  shows "shows_memory w project topic db h"
  using assms(2-) semantic_shows [OF assms(1)] entity_shows substring_shows graph_shows
  by (auto simp: search_lists_def Let_def split: if_splits)

lemma known_hit_Some: "known_hit ls i = Some h \<Longrightarrow> h_id h = i \<and> (\<exists>l\<in>set ls. h \<in> set l)"
  unfolding known_hit_def using find_Some_iff [of "\<lambda>h. h_id h = i" "concat ls"] by (force dest: nth_mem)

lemma known_hit_nominated: "i \<in> set (nominated ls) \<Longrightarrow> \<exists>h. known_hit ls i = Some h"
  unfolding known_hit_def nominated_def by (auto simp: find_None_iff simp flip: not_None_eq)

lemma ranked_ids_set: "set (ranked_ids f ids) = {i \<in> set ids. fu_dropped (f i) = None}"
  by (simp add: ranked_ids_def)

lemma ranked_ids_distinct: "distinct ids \<Longrightarrow> distinct (ranked_ids f ids)"
  by (simp add: ranked_ids_def)

lemma known_hits_ids:
  "set ids \<subseteq> set (nominated ls) \<Longrightarrow> map h_id (List.map_filter (known_hit ls) ids) = ids"
proof (induction ids)
  case (Cons i ids)
  then obtain h where "known_hit ls i = Some h" using known_hit_nominated [of i ls] by auto
  then show ?case using Cons known_hit_Some [of ls i h] by (simp add: List.map_filter_def)
qed (simp add: List.map_filter_def)

text \<open>The page of a fusion is the ranked ids, cut.\<close>

lemma fuse_ids: "map h_id (fst (fuse a ls limit flr db)) = take limit (ranked_ids (fused_of a flr ls db) (nominated ls))"
proof -
  have "set (take limit (ranked_ids (fused_of a flr ls db) (nominated ls))) \<subseteq> set (nominated ls)"
    using ranked_ids_set by (fastforce dest: in_set_takeD)
  then show ?thesis by (simp add: fuse_def Let_def known_hits_ids)
qed

lemma fuse_hits: "h \<in> set (fst (fuse a ls limit flr db)) \<Longrightarrow> \<exists>l\<in>set ls. h \<in> set l"
  by (auto simp: fuse_def Let_def set_map_filter dest!: known_hit_Some)

lemma fuse_distinct: "distinct (map h_id (fst (fuse a ls limit flr db)))"
  unfolding fuse_ids by (rule distinct_take, rule ranked_ids_distinct) (simp add: nominated_def)

lemma spread_distinct:
  assumes "distinct (map h_id hits)"
  shows "distinct (map h_id (spread_across_sessions hits limit))"
proof -
  let ?r = "round_robin (foldl (\<lambda>qs h. enqueue h qs) [] hits)"
  have "mset (map h_id ?r) = mset (map h_id hits)" by (simp add: round_robin_hits)
  then have "distinct (map h_id ?r)" using assms mset_eq_imp_distinct_iff by blast
  then show ?thesis by (simp add: spread_is flip: take_map)
qed

lemma spread_set: "h \<in> set (spread_across_sessions hits limit) \<Longrightarrow> h \<in> set hits"
  using spread_mset mset_subset_eqD by fastforce

lemma spread_length: "length (spread_across_sessions hits limit) \<le> limit"
  by (simp add: spread_is)

lemma lexical_search:
  assumes "distinct (map r_id (events db))" "\<forall>q found. sw_fts w q = Some found \<longrightarrow> distinct (map fst found)"
    and "keyword_read w project topic limit pool db q = Some keyword"
  shows "distinct (map h_id (spread_across_sessions keyword limit)) \<and>
    (\<forall>h\<in>set (spread_across_sessions keyword limit). shows_memory w project topic db h \<and>
      (\<exists>found r. sw_fts w q = Some found \<and> r \<in> set (events db) \<and> r_id r = h_id h \<and> r_rowid r \<in> fst ` set found))"
proof (intro conjI ballI)
  show "distinct (map h_id (spread_across_sessions keyword limit))"
    by (rule spread_distinct, rule keyword_distinct [OF assms(3,1)]) (use assms(2) in blast)
  fix h assume "h \<in> set (spread_across_sessions keyword limit)"
  then have h: "h \<in> set keyword" by (rule spread_set)
  show "shows_memory w project topic db h" by (rule keyword_shows [OF assms(3) h]) (auto intro: shows_memoryI)
  show "\<exists>found r. sw_fts w q = Some found \<and> r \<in> set (events db) \<and> r_id r = h_id h \<and> r_rowid r \<in> fst ` set found"
    by (rule keyword_shows [OF assms(3) h]) force
qed

text \<open>
  C29: whatever the indexes and the model answer, a search returns at most the number asked for,
  no memory twice, and only memories that are live, of the project or the machine, and of the
  topic asked for; a lexical search returns only rows the text index matched with the words as
  typed or as one phrase.
\<close>

theorem search_shows_live_memory:
  assumes "distinct (map r_id (events db))" "\<And>q found. sw_fts w q = Some found \<Longrightarrow> distinct (map fst found)"
    and "search_traced w project query topic limit rec flr db = Some (hits, tr)"
  shows "length hits \<le> limit \<and> distinct (map h_id hits) \<and> (\<forall>h\<in>set hits. shows_memory w project topic db h) \<and>
    (rec = Lexical \<longrightarrow> (\<forall>h\<in>set hits. \<exists>q\<in>{query, quoted_phrase query}. \<exists>found r.
       sw_fts w q = Some found \<and> r \<in> set (events db) \<and> r_id r = h_id h \<and> r_rowid r \<in> fst ` set found))"
proof -
  let ?pool = "search_pool limit"
  let ?read = "keyword_read w project topic limit ?pool db"
  have shows': "shows_memory w project topic db h" if "?read q = Some hs" "h \<in> set hs" for q hs h
    by (rule keyword_shows [OF that]) (auto intro: shows_memoryI)
  obtain keyword where k: "keyword_or_phrase ?read query = Some keyword"
    using assms(3) by (auto simp: search_traced_def Let_def split: option.splits)
  then obtain q where q: "q \<in> {query, quoted_phrase query}" "?read q = Some keyword"
    by (auto simp: keyword_or_phrase_def split: option.splits)
  show ?thesis
  proof (cases rec)
    case Lexical
    then have hits: "hits = spread_across_sessions keyword limit"
      using assms(3) k by (simp add: search_traced_def Let_def)
    have "\<forall>q found. sw_fts w q = Some found \<longrightarrow> distinct (map fst found)" using assms(2) by blast
    from lexical_search [OF assms(1) this q(2)] show ?thesis
      unfolding hits using spread_length q(1) by blast
  next
    case Fused_recall
    define relaxed where "relaxed = (case compile_fts (sw_lowercase w) query of None \<Rightarrow> []
      | Some fts \<Rightarrow> (case ?read fts of None \<Rightarrow> [] | Some hs \<Rightarrow> hs))"
    define ls where "ls = search_lists w project query topic ?pool keyword relaxed db"
    obtain fl where hits: "hits = spread_across_sessions (fst (fuse (sw_arith w) ls ?pool fl db)) limit"
      using assms(3) k Fused_recall
      by (auto simp: search_traced_def Let_def case_prod_unfold ls_def relaxed_def)
    have kr: "\<forall>h\<in>set keyword \<union> set relaxed. shows_memory w project topic db h"
    proof
      fix h assume "h \<in> set keyword \<union> set relaxed"
      then show "shows_memory w project topic db h" using shows' q(2)
        by (cases "compile_fts (sw_lowercase w) query"; cases "?read (the (compile_fts (sw_lowercase w) query))")
          (auto simp: relaxed_def)
    qed
    have "shows_memory w project topic db h" if h: "h \<in> set hits" for h
    proof -
      obtain l where "l \<in> set ls" "h \<in> set l" using fuse_hits [OF spread_set [OF h [unfolded hits]]] by blast
      then show ?thesis using search_lists_show [OF assms(1) kr] by (simp add: ls_def)
    qed
    then show ?thesis
      using Fused_recall spread_length spread_distinct [OF fuse_distinct] unfolding hits by simp
  qed
qed

section \<open>Agreement wins\<close>

text \<open>
  What IEEE 754 says of rounding: it keeps the order, does nothing to a number already rounded,
  and every integer up to \<open>2\<close> to the 24th is a number of 32 bits.
\<close>

definition ieee_rounding :: "(rat \<Rightarrow> rat) \<Rightarrow> bool" where
  "ieee_rounding f = (mono f \<and> (\<forall>x. f (f x) = f x) \<and> (\<forall>n \<le> 2 ^ 24. f (of_nat n) = of_nat n))"

lemma ieee_roundingD:
  assumes "ieee_rounding f"
  shows "x \<le> y \<Longrightarrow> f x \<le> f y" "f (f x) = f x" "f 0 = 0" "f 1 = 1" "f 60 = 60"
  using assms monoD [of f x y] spec [of "\<lambda>n. n \<le> 2 ^ 24 \<longrightarrow> f (of_nat n) = of_nat n" 0]
    spec [of "\<lambda>n. n \<le> 2 ^ 24 \<longrightarrow> f (of_nat n) = of_nat n" 1]
    spec [of "\<lambda>n. n \<le> 2 ^ 24 \<longrightarrow> f (of_nat n) = of_nat n" 60]
  by (auto simp: ieee_rounding_def)

lemma ieee_nonneg: "ieee_rounding f \<Longrightarrow> 0 \<le> x \<Longrightarrow> 0 \<le> f x"
  using ieee_roundingD(1) [of f 0 x] ieee_roundingD(3) [of f] by simp

lemma rank_denominator:
  assumes "ieee_rounding (a_round a)"
  shows "60 \<le> add32 a (add32 a 60 (a_round a (of_nat rank))) 1"
    "p \<le> q \<Longrightarrow> add32 a (add32 a 60 (a_round a (of_nat p))) 1 \<le> add32 a (add32 a 60 (a_round a (of_nat q))) 1"
proof -
  note r = ieee_roundingD [OF assms]
  have "60 \<le> add32 a 60 (a_round a (of_nat rank))"
    using r(1) [of 60 "60 + a_round a (of_nat rank)"] r(5) ieee_nonneg [OF assms, of "of_nat rank"] by (simp add: add32_def)
  then have "a_round a 60 \<le> add32 a (add32 a 60 (a_round a (of_nat rank))) 1"
    unfolding add32_def by (intro r(1)) simp
  then show "60 \<le> add32 a (add32 a 60 (a_round a (of_nat rank))) 1" using r(5) by simp
  show "add32 a (add32 a 60 (a_round a (of_nat p))) 1 \<le> add32 a (add32 a 60 (a_round a (of_nat q))) 1" if "p \<le> q"
    unfolding add32_def by (intro r(1) add_mono order.refl) (simp add: that)
qed

lemma contribution_mono:
  assumes "ieee_rounding (a_round a)" "0 \<le> w"
  shows "0 \<le> contribution a w p" "p \<le> q \<Longrightarrow> contribution a w q \<le> contribution a w p"
proof -
  note d = rank_denominator [OF assms(1)]
  have pos: "0 < add32 a (add32 a 60 (a_round a (of_nat p))) 1" for p using d(1) [of p] by linarith
  show "0 \<le> contribution a w p"
    unfolding contribution_def div32_def by (rule ieee_nonneg [OF assms(1)]) (use pos [of p] assms(2) in simp)
  show "contribution a w q \<le> contribution a w p" if "p \<le> q"
    unfolding contribution_def div32_def
    by (rule ieee_roundingD(1) [OF assms(1)], rule divide_left_mono [OF d(2) [OF that] assms(2)]) (simp add: pos)
qed

lemma raw_in_list_is:
  "distinct (map h_id l) \<Longrightarrow>
   raw_in_list a i w k l raw =
     (case position (\<lambda>h. h_id h = i) l of None \<Rightarrow> raw | Some p \<Rightarrow> add32 a raw (contribution a w (k + p)))"
proof (induction l arbitrary: k raw)
  case (Cons h l)
  have none: "position (\<lambda>h. h_id h = i) l = None" if "i \<notin> h_id ` set l" for l
    using that by (induction l) auto
  show ?case
  proof (cases "h_id h = i")
    case True
    then have "i \<notin> h_id ` set l" using Cons.prems by auto
    then show ?thesis using Cons True none [of l] by simp
  qed (use Cons in \<open>auto split: option.splits\<close>)
qed simp

text \<open>In every list, \<open>j\<close> is missing or comes after \<open>i\<close>.\<close>

definition never_behind :: "rstr \<Rightarrow> rstr \<Rightarrow> hit list \<Rightarrow> bool" where
  "never_behind i j l =
     (case position (\<lambda>h. h_id h = j) l of None \<Rightarrow> True
      | Some q \<Rightarrow> (case position (\<lambda>h. h_id h = i) l of None \<Rightarrow> False | Some p \<Rightarrow> p < q))"

lemma stream_weight_nonneg: "0 \<le> stream_weight k"
proof -
  have "\<forall>x\<in>set STREAM_WEIGHTS. 0 \<le> x" by (simp add: STREAM_WEIGHTS_def)
  then show ?thesis by (simp add: stream_weight_def)
qed

lemma raw_score_mono:
  assumes "ieee_rounding (a_round a)"
  shows "list_all (\<lambda>l. distinct (map h_id l) \<and> never_behind i j l) ls \<Longrightarrow>
    rj \<le> ri \<Longrightarrow> a_round a rj = rj \<Longrightarrow> a_round a ri = ri \<Longrightarrow> raw_score a j k ls rj \<le> raw_score a i k ls ri"
proof (induction ls arbitrary: k ri rj)
  case (Cons l ls)
  let ?w = "stream_weight k"
  note r = ieee_roundingD [OF assms] and c = contribution_mono [OF assms stream_weight_nonneg [of k]]
  have round: "a_round a (raw_in_list a u ?w 0 l x) = raw_in_list a u ?w 0 l x" if "a_round a x = x" for u x
    using that Cons.prems(1) r(2) by (simp add: raw_in_list_is add32_def split: option.split)
  have "raw_in_list a j ?w 0 l rj \<le> raw_in_list a i ?w 0 l ri"
  proof (cases "position (\<lambda>h. h_id h = j) l")
    case None
    show ?thesis
    proof (cases "position (\<lambda>h. h_id h = i) l")
      case (Some p)
      have "rj = a_round a rj" using Cons.prems(3) by simp
      also have "\<dots> \<le> a_round a (ri + contribution a ?w p)"
        using Cons.prems(2) c(1) [of p] by (intro r(1)) simp
      finally show ?thesis using None Some Cons.prems(1) by (simp add: raw_in_list_is add32_def)
    qed (use None Cons.prems in \<open>simp add: raw_in_list_is\<close>)
  next
    case (Some q)
    then obtain p where p: "position (\<lambda>h. h_id h = i) l = Some p" "p < q"
      using Cons.prems(1) by (auto simp: never_behind_def split: option.splits)
    have "rj + contribution a ?w q \<le> ri + contribution a ?w p"
      using Cons.prems(2) c(2) [of p q] p(2) by (intro add_mono) simp_all
    then show ?thesis using p Some Cons.prems(1) r(1) by (simp add: raw_in_list_is add32_def)
  qed
  then show ?case using Cons.IH [of _ _ "k + 1"] Cons.prems round by simp
qed simp

lemma discount_positive: "ieee_rounding (a_round a) \<Longrightarrow> 1 \<le> discount_for a n"
proof -
  assume i: "ieee_rounding (a_round a)"
  note r = ieee_roundingD [OF i]
  have "1 \<le> a_round a (1 + a_round a (LENGTH_PENALTY a * x))" if "0 \<le> x" for x
  proof -
    have "0 \<le> a_round a (LENGTH_PENALTY a * x)"
      using that ieee_nonneg [OF i] by (simp add: LENGTH_PENALTY_def)
    then show ?thesis using r(1) [of 1 "1 + a_round a (LENGTH_PENALTY a * x)"] r(4) by simp
  qed
  then show ?thesis by (simp add: discount_for_def add32_def mul32_def Let_def split: option.split)
qed

lemma position_nth: "position P xs = Some p \<Longrightarrow> p < length xs \<and> P (xs ! p) \<and> (\<forall>k<p. \<not> P (xs ! k))"
proof (induction xs arbitrary: p)
  case (Cons x xs)
  then show ?case by (auto simp: nth_Cons split: if_splits nat.splits)
qed simp

lemma position_ex: "x \<in> set xs \<Longrightarrow> P x \<Longrightarrow> \<exists>p. position P xs = Some p"
  by (induction xs) auto

lemma position_mem: "position P xs = Some p \<Longrightarrow> \<exists>x\<in>set xs. P x"
  using position_nth nth_mem by blast

lemma sorted_before:
  fixes f :: "'a \<Rightarrow> 'k :: linorder"
  assumes "sorted (map f xs)" "i \<in> set xs" "j \<in> set (take n xs)" "f i < f j" "distinct xs"
  shows "\<exists>p q. p < q \<and> q < length (take n xs) \<and> take n xs ! p = i \<and> take n xs ! q = j"
proof -
  obtain p where p: "p < length xs" "xs ! p = i" using assms(2) by (auto simp: in_set_conv_nth)
  obtain q where q: "q < length (take n xs)" "take n xs ! q = j" using assms(3) by (metis in_set_conv_nth)
  have "p < q"
  proof (rule ccontr)
    assume "\<not> p < q"
    then have "map f xs ! q \<le> map f xs ! p" using p by (intro sorted_nth_mono [OF assms(1)]) simp_all
    then show False using \<open>\<not> p < q\<close> p q assms(4) by simp
  qed
  then show ?thesis using p q by (intro exI [of _ p] exI [of _ q]) simp
qed

lemma raw_score_nonneg:
  assumes "ieee_rounding (a_round a)" "0 \<le> x"
  shows "0 \<le> raw_score a u k xs x"
proof -
  have "0 \<le> raw_in_list a u w k l x" if "0 \<le> x" "0 \<le> w" for w k l x
    using that
  proof (induction l arbitrary: k x)
    case (Cons h l)
    then show ?case
      using contribution_mono(1) [OF assms(1), of w] ieee_nonneg [OF assms(1)] by (simp add: add32_def)
  qed simp
  then show ?thesis using assms(2) stream_weight_nonneg by (induction xs arbitrary: k x) simp_all
qed

lemma fuse_before:
  fixes a flr ls db limit
  defines "f \<equiv> fused_of a flr ls db" and "page \<equiv> fst (fuse a ls limit flr db)"
  assumes "(fu_demoted (f i), - fu_score (f i)) < (fu_demoted (f j), - fu_score (f j))"
    and "i \<in> set (ranked_ids f (nominated ls))" "j \<in> h_id ` set page"
  shows "\<exists>p q. p < q \<and> q < length page \<and> h_id (page ! p) = i \<and> h_id (page ! q) = j"
proof -
  let ?key = "\<lambda>i. (fu_demoted (f i), - fu_score (f i))" and ?ranked = "ranked_ids f (nominated ls)"
  have ids: "map h_id page = take limit ?ranked" unfolding page_def f_def by (rule fuse_ids)
  then have "j \<in> set (take limit ?ranked)" using assms(5) by (metis list.set_map)
  moreover have "sorted (map ?key ?ranked)" by (simp add: ranked_ids_def)
  moreover have "distinct ?ranked" by (rule ranked_ids_distinct) (simp add: nominated_def)
  ultimately obtain p q where pq: "p < q" "q < length (take limit ?ranked)" "take limit ?ranked ! p = i" "take limit ?ranked ! q = j"
    using sorted_before [of ?key ?ranked i j limit] assms(3,4) by blast
  have len: "length page = length (take limit ?ranked)" using ids by (metis length_map)
  have at: "h_id (page ! k) = take limit ?ranked ! k" if "k < length (take limit ?ranked)" for k
    using that len ids by (metis nth_map)
  show ?thesis
  proof (rule exI [of _ p], rule exI [of _ q], intro conjI)
    show "q < length page" using pq(2) by (simp only: len)
    show "h_id (page ! q) = j" using at [OF pq(2)] pq(4) by (rule trans)
    show "h_id (page ! p) = i" using at [OF less_trans [OF pq(1,2)]] pq(3) by (rule trans)
  qed (rule pq(1))
qed

lemma agreed_nominated:
  assumes "list_all (\<lambda>l. distinct (map h_id l) \<and> never_behind i j l) ls" "j \<in> set (nominated ls)"
  shows "i \<in> set (nominated ls)"
proof -
  obtain l where l: "l \<in> set ls" "j \<in> h_id ` set l" using assms(2) by (auto simp: nominated_def)
  then obtain h where "h \<in> set l" "h_id h = j" by blast
  then obtain q where q: "position (\<lambda>h. h_id h = j) l = Some q" using position_ex [of h l "\<lambda>h. h_id h = j"] by blast
  have "never_behind i j l" using assms(1) l(1) by (simp add: list_all_iff)
  then obtain p where "position (\<lambda>h. h_id h = i) l = Some p" using q by (auto simp: never_behind_def split: option.splits)
  then have "i \<in> h_id ` set l" using position_mem [of "\<lambda>h. h_id h = i" l p] by blast
  then show ?thesis using l(1) by (auto simp: nominated_def)
qed

text \<open>
  the fusion respects agreement. If every stream that found \<open>j\<close> had found \<open>i\<close> first, then \<open>i\<close>
  does not lose to \<open>j\<close>: unless it was flagged stale, pays more for its length or was dropped by
  the floor, its score is at least as high, and on the page it stands before \<open>j\<close> if the
  two differ at all.
\<close>

theorem fusion_respects_agreement:
  assumes "ieee_rounding (a_round a)" "list_all (\<lambda>l. distinct (map h_id l) \<and> never_behind i j l) ls"
    and "discount_for a (length_of i db) \<le> discount_for a (length_of j db)"
    and "\<not> demoted_id i db" "fu_dropped (fused_of a flr ls db i) = None"
    and "j \<in> h_id ` set (fst (fuse a ls limit flr db))"
  shows "fu_score (fused_of a flr ls db j) \<le> fu_score (fused_of a flr ls db i) \<and>
    ((fu_score (fused_of a flr ls db j) = fu_score (fused_of a flr ls db i) \<and> \<not> demoted_id j db) \<or>
     (\<exists>p q. p < q \<and> q < length (fst (fuse a ls limit flr db)) \<and>
        h_id (fst (fuse a ls limit flr db) ! p) = i \<and> h_id (fst (fuse a ls limit flr db) ! q) = j))"
proof -
  let ?f = "fused_of a flr ls db"
  note r = ieee_roundingD [OF assms(1)]
  have raw: "raw_score a j 0 ls 0 \<le> raw_score a i 0 ls 0"
    by (rule raw_score_mono [OF assms(1,2)]) (simp_all add: r(3))
  have d: "1 \<le> discount_for a (length_of u db)" for u by (rule discount_positive [OF assms(1)])
  have "raw_score a j 0 ls 0 / discount_for a (length_of j db) \<le> raw_score a i 0 ls 0 / discount_for a (length_of i db)"
    using raw raw_score_nonneg [OF assms(1), of 0 j 0 ls] assms(3) d [of i] by (intro frac_le) simp_all
  then have score: "fu_score (?f j) \<le> fu_score (?f i)"
    by (simp add: fused_of_def Let_def div32_def r(1))
  have "j \<in> set (map h_id (fst (fuse a ls limit flr db)))" using assms(6) by simp
  then have "j \<in> set (nominated ls)" unfolding fuse_ids by (auto simp: ranked_ids_set dest: in_set_takeD)
  then have i: "i \<in> set (ranked_ids ?f (nominated ls))"
    using agreed_nominated [OF assms(2)] assms(5) by (simp add: ranked_ids_set)
  have dem: "fu_demoted (?f u) = demoted_id u db" for u by (simp add: fused_of_def Let_def)
  show ?thesis
  proof (cases "fu_score (?f j) = fu_score (?f i) \<and> \<not> demoted_id j db")
    case False
    then have "(fu_demoted (?f i), - fu_score (?f i)) < (fu_demoted (?f j), - fu_score (?f j))"
      using score assms(4) by (cases "demoted_id j db") (auto simp: less_prod_def dem)
    then show ?thesis using score fuse_before [OF _ i assms(6)] by blast
  qed (use score in blast)
qed

section \<open>Queries\<close>

lemma like_run: "like_esc (37 # ps) t \<longleftrightarrow> (\<exists>u v. t = u @ v \<and> like_esc ps v)"
proof (induction t)
  case (Cons c t)
  have "like_esc (37 # ps) (c # t) \<longleftrightarrow> like_esc ps (c # t) \<or> like_esc (37 # ps) t" by simp
  also have "\<dots> \<longleftrightarrow> (\<exists>u v. c # t = u @ v \<and> like_esc ps v)"
    unfolding Cons by (metis append_Cons append_Nil list.exhaust list.inject)
  finally show ?case .
qed simp

lemma like_typed: "like_esc (escape_like tok @ ps) t \<longleftrightarrow> (\<exists>u v. t = u @ v \<and> map ascii_lower u = map ascii_lower tok \<and> like_esc ps v)"
proof (induction tok arbitrary: t)
  case (Cons c tok)
  have "like_esc (escape_like (c # tok) @ ps) t \<longleftrightarrow> (\<exists>d t'. t = d # t' \<and> ascii_lower d = ascii_lower c \<and> like_esc (escape_like tok @ ps) t')"
    by (cases t) (auto simp: escape_like_def)
  also have "\<dots> \<longleftrightarrow> (\<exists>u v. t = u @ v \<and> map ascii_lower u = map ascii_lower (c # tok) \<and> like_esc ps v)"
  proof
    assume "\<exists>d t'. t = d # t' \<and> ascii_lower d = ascii_lower c \<and> like_esc (escape_like tok @ ps) t'"
    then obtain d u v where "t = (d # u) @ v" "map ascii_lower (d # u) = map ascii_lower (c # tok)" "like_esc ps v"
      unfolding Cons by auto
    then show "\<exists>u v. t = u @ v \<and> map ascii_lower u = map ascii_lower (c # tok) \<and> like_esc ps v" by blast
  next
    assume "\<exists>u v. t = u @ v \<and> map ascii_lower u = map ascii_lower (c # tok) \<and> like_esc ps v"
    then obtain d u v where "t = d # u @ v" "ascii_lower d = ascii_lower c" "map ascii_lower u = map ascii_lower tok" "like_esc ps v"
      by (auto simp: map_eq_Cons_conv)
    then show "\<exists>d t'. t = d # t' \<and> ascii_lower d = ascii_lower c \<and> like_esc (escape_like tok @ ps) t'"
      unfolding Cons by blast
  qed
  finally show ?case .
qed (simp add: escape_like_def)

text \<open>The pattern an entity token becomes matches the names that contain it, whatever signs are in it.\<close>

lemma entity_pattern_contains:
  "like_esc ([37] @ escape_like tok @ [37]) name \<longleftrightarrow> contains (map ascii_lower name) (map ascii_lower tok)"
proof -
  have any: "like_esc [37] t" for t using like_run [of "[]" t] by auto
  have "like_esc (37 # escape_like tok @ [37]) name \<longleftrightarrow> (\<exists>u t. name = u @ t \<and> like_esc (escape_like tok @ [37]) t)"
    by (rule like_run)
  also have "\<dots> \<longleftrightarrow> (\<exists>u t. name = u @ t \<and> (\<exists>v w. t = v @ w \<and> map ascii_lower v = map ascii_lower tok \<and> like_esc [37] w))"
    by (simp only: like_typed)
  also have "\<dots> \<longleftrightarrow> (\<exists>u v w. name = u @ v @ w \<and> map ascii_lower v = map ascii_lower tok)"
    using any by blast
  also have "\<dots> \<longleftrightarrow> contains (map ascii_lower name) (map ascii_lower tok)"
  proof
    assume "\<exists>u v w. name = u @ v @ w \<and> map ascii_lower v = map ascii_lower tok"
    then show "contains (map ascii_lower name) (map ascii_lower tok)" unfolding contains_iff by (metis map_append)
  next
    assume "contains (map ascii_lower name) (map ascii_lower tok)"
    then obtain a b where "map ascii_lower name = a @ map ascii_lower tok @ b" unfolding contains_iff by blast
    then obtain u vw where u: "name = u @ vw" "map ascii_lower tok @ b = map ascii_lower vw"
      using map_eq_append_conv [of ascii_lower name] by auto
    obtain v w where "vw = v @ w" "map ascii_lower v = map ascii_lower tok"
      using u(2) [symmetric, unfolded map_eq_append_conv] by (elim exE conjE) simp
    with u(1) show "\<exists>u v w. name = u @ v @ w \<and> map ascii_lower v = map ascii_lower tok" by blast
  qed
  finally show ?thesis unfolding append_Cons append_Nil .
qed

lemma trim_by_set: "c \<in> set (trim_by p s) \<Longrightarrow> c \<in> set s"
  unfolding trim_by_def trim_end_by_def trim_start_by_def set_rev by (metis set_dropWhileD set_rev)

lemma split_acc_set: "x \<in> set (split_acc p w s) \<Longrightarrow> set x \<subseteq> set w \<union> set s"
proof (induction s arbitrary: w)
  case (Cons d s)
  then show ?case using Cons.IH [of "[]"] Cons.IH [of "d # w"] by (auto split: if_splits)
qed simp

lemma split_on_set: "x \<in> set (split_on p s) \<Longrightarrow> c \<in> set x \<Longrightarrow> c \<in> set s"
  using split_acc_set [of x p "[]" s] by (auto simp: split_on_def)

lemma word_piece_set: "x \<in> set (word_pieces raw) \<Longrightarrow> c \<in> set x \<Longrightarrow> c \<in> set raw"
  by (auto simp: word_pieces_def Let_def split: if_splits dest: trim_by_set split_on_set)

text \<open>A term of the relaxed query: long enough, not a stop word, and free of the quote.\<close>

definition good_term :: "(rstr \<Rightarrow> rstr) \<Rightarrow> rstr \<Rightarrow> bool" where
  "good_term lower t = (3 \<le> length t \<and> lower t \<notin> set RELAXED_STOP_WORDS \<and> 34 \<notin> set t)"

definition apart :: "rstr list \<Rightarrow> bool" where
  "apart ts = sorted_wrt (\<lambda>s t. \<not> eq_ignore_case s t) ts"

lemma apart_subseq: "subseq xs ys \<Longrightarrow> apart ys \<Longrightarrow> apart xs"
  by (induction rule: list_emb.induct) (auto simp: apart_def dest: list_emb_set)

lemma add_terms_good:
  assumes "\<forall>x\<in>set raws. 34 \<notin> set x"
  shows "list_all (good_term lower) ts \<Longrightarrow> apart ts \<Longrightarrow>
    list_all (good_term lower) (foldl (add_term lower) ts raws) \<and> apart (foldl (add_term lower) ts raws)"
  using assms
proof (induction raws arbitrary: ts)
  case (Cons x raws)
  have "34 \<notin> set (trim_by (\<lambda>c. c = 45 \<or> c = 95) x)" using Cons.prems(3) trim_by_set by fastforce
  then have "list_all (good_term lower) (add_term lower ts x) \<and> apart (add_term lower ts x)"
    using Cons.prems
    by (simp add: add_term_def Let_def apart_def sorted_wrt_append list_ex_iff) (simp add: good_term_def)
  then show ?case using Cons by simp
qed simp

text \<open>What \<open>keep_longest\<close> keeps, in the order asked, and that nothing dropped is longer.\<close>

lemma keep_longest_spec:
  "subseq (keep_longest ts) ts \<and> length (keep_longest ts) = min RELAXED_TERMS (length ts)"
proof (cases "length ts > RELAXED_TERMS")
  case True
  let ?s = "sort_key (\<lambda>i. - int (length (ts ! i))) [0..<length ts]"
  let ?o = "sort (take RELAXED_TERMS ?s)"
  have "distinct ?o" by simp
  moreover have "set ?o \<subseteq> set [0..<length ts]" by (auto dest: in_set_takeD)
  ultimately have o': "?o = filter (\<lambda>i. i \<in> set ?o) [0..<length ts]"
    by (intro sorted_distinct_set_unique) (auto intro: sorted_wrt_filter)
  have "subseq ?o [0..<length ts]" by (subst o') (rule subseq_filter_left)
  then have "subseq (map (\<lambda>i. ts ! i) ?o) (map (\<lambda>i. ts ! i) [0..<length ts])" by (rule subseq_map)
  then have "subseq (map (\<lambda>i. ts ! i) ?o) ts" by (simp only: map_nth)
  moreover have "length ?o = RELAXED_TERMS" using True by simp
  ultimately show ?thesis using True by (simp add: keep_longest_def)
qed (simp add: keep_longest_def)

lemma term_groups_count: "length ts \<le> 5 \<Longrightarrow> length (term_groups ts) \<le> 10"
proof -
  assume "length ts \<le> 5"
  then consider "length ts = 0" | "length ts = 1" | "length ts = 2" | "length ts = 3" | "length ts = 4" | "length ts = 5"
    by linarith
  then show ?thesis by cases (simp_all add: term_groups_def upt_rec)
qed

lemma term_groups_set:
  "g \<in> set (term_groups ts) \<longleftrightarrow> (\<exists>a b c. a < b \<and> b < c \<and> c < length ts \<and> g = quoted_group (ts ! a) (ts ! b) (ts ! c))"
    (is "_ \<longleftrightarrow> ?r")
proof
  assume "g \<in> set (term_groups ts)"
  then obtain a b c where "a < length ts" "Suc a \<le> b" "b < length ts" "Suc b \<le> c" "c < length ts"
    "g = quoted_group (ts ! a) (ts ! b) (ts ! c)"
    by (auto simp: term_groups_def)
  then have "a < b \<and> b < c \<and> c < length ts \<and> g = quoted_group (ts ! a) (ts ! b) (ts ! c)" by simp
  then show ?r by blast
next
  assume ?r
  then obtain a b c where abc: "a < b" "b < c" "c < length ts" "g = quoted_group (ts ! a) (ts ! b) (ts ! c)" by blast
  let ?at = "\<lambda>a. concat (map (\<lambda>b. map (\<lambda>c. quoted_group (ts ! a) (ts ! b) (ts ! c)) [b + 1..<length ts]) [a + 1..<length ts])"
  have "g \<in> set (map (\<lambda>c. quoted_group (ts ! a) (ts ! b) (ts ! c)) [b + 1..<length ts])" using abc by auto
  then have "g \<in> set (?at a)" using abc unfolding set_concat by (intro UN_I [of "map (\<lambda>c. quoted_group (ts ! a) (ts ! b) (ts ! c)) [b + 1..<length ts]"]) auto
  moreover have "?at a \<in> set (map ?at [0..<length ts])" using abc by simp
  ultimately show "g \<in> set (term_groups ts)" unfolding term_groups_def set_concat [of "map ?at [0..<length ts]"]
    by (intro UN_I [of "?at a"])
qed

text \<open>
  the relaxed query asks for some three of three to five terms of the question: one group
  for every three of them and no other, at most ten in all. The terms stand in the order asked,
  differ whatever their case, are no stop words, and hold no quote, so none can end its phrase.
\<close>

theorem relaxed_query_is_any_three:
  assumes "compile_fts lower query = Some fts"
  shows "\<exists>ts. fts = join_or (term_groups ts) \<and> 3 \<le> length ts \<and> length ts \<le> 5 \<and>
    length (term_groups ts) \<le> 10 \<and> list_all (good_term lower) ts \<and> apart ts \<and>
    (\<forall>g. g \<in> set (term_groups ts) \<longleftrightarrow>
       (\<exists>a b c. a < b \<and> b < c \<and> c < length ts \<and> g = quoted_group (ts ! a) (ts ! b) (ts ! c)))"
proof -
  let ?raws = "concat (map word_pieces (split_whitespace query))"
  let ?all = "foldl (add_term lower) [] ?raws"
  have fts: "34 \<notin> set query" "fts = join_or (term_groups (relaxed_terms lower query))" "3 \<le> length (relaxed_terms lower query)"
    using assms by (auto simp: compile_fts_def Let_def split: if_splits)
  have "\<forall>x\<in>set ?raws. 34 \<notin> set x"
    using fts(1) word_piece_set split_on_set by (fastforce simp: split_whitespace_def)
  from add_terms_good [OF this, of lower "[]"] have good: "list_all (good_term lower) ?all" "apart ?all"
    by (simp_all add: apart_def)
  have kept: "subseq (relaxed_terms lower query) ?all" "length (relaxed_terms lower query) \<le> 5"
    using keep_longest_spec [of ?all] by (simp_all add: relaxed_terms_def RELAXED_TERMS_def)
  have "list_all (good_term lower) (relaxed_terms lower query)"
    using good(1) list_emb_set [OF kept(1)] by (fastforce simp: list_all_iff)
  moreover have "apart (relaxed_terms lower query)"
    using kept(1) good(2) by (rule apart_subseq)
  ultimately show ?thesis
    using fts kept(2) term_groups_count [OF kept(2)] term_groups_set [of _ "relaxed_terms lower query"]
    by (intro exI [of _ "relaxed_terms lower query"]) simp
qed

section \<open>Examples\<close>

definition sample_arith :: arith where
  "sample_arith = \<lparr>a_round = (\<lambda>x. x), a_ln = (\<lambda>x. x - 1)\<rparr>"

definition sample_searcher :: searcher where
  "sample_searcher =
     \<lparr>sw_fts = (\<lambda>q. if q = lit ''a/b'' then None else Some [(1, -2), (2, -1)]), sw_trigram = (\<lambda>_. []),
      sw_snippet = (\<lambda>_ _. []), sw_encode = (\<lambda>_. None), sw_zero = (\<lambda>_. True), sw_similarity = (\<lambda>_ _. 0),
      sw_signature = [], sw_entities = [], sw_machine = lit ''M'', sw_lowercase = (\<lambda>s. s), sw_arith = sample_arith\<rparr>"

definition memory_row :: "int \<Rightarrow> rstr \<Rightarrow> nat \<Rightarrow> event_row" where
  "memory_row n i gone =
     \<lparr>r_rowid = n, r_id = i, r_ts = [], r_workspace = [], r_project = lit ''P'', r_session = lit ''s'', r_cli = [],
      r_hook = lit ''stop'', r_kind = Observation, r_title = i, r_body = [], r_files = [], r_topic = None,
      r_invocation = None, r_forgotten = gone, r_corrected_by = None, r_read_count = 0, r_injected_count = 0,
      r_confidence = 0, r_consolidated = False, r_team = False, r_agent = None, r_clamped = False, r_class = None,
      r_expires_at = None, r_stale_since = None, r_cites = None, r_scope = None\<rparr>"

definition memory_db :: store where
  "memory_db = empty_store\<lparr>events := [memory_row 1 (lit ''x'') 0, memory_row 2 (lit ''y'') 1]\<rparr>"

lemma spread_single: "0 < limit \<Longrightarrow> spread_across_sessions [h] limit = [h]"
  by (simp add: spread_is round_robin.simps [of "[(h_session h, [h])]"] round_robin.simps [of "[(h_session h, [])]"])

lemma sample_keyword:
  "keyword_or_phrase (keyword_read sample_searcher (lit ''P'') None 5 20 memory_db) (lit ''a/b'') =
     Some [hit_of (\<lambda>_. []) (memory_row 1 (lit ''x'') 0)]"
  by (simp add: keyword_or_phrase_def keyword_read_def sample_searcher_def memory_db_def memory_row_def
      found_rows_def List.map_filter_def row_of_def in_scope_def live_row_def topic_ok_def REVISION_HOOKS_def Let_def
      quoted_phrase_def hit_of_def sql_limit_def)

lemma sample_search:
  "\<exists>h tr. search_traced sample_searcher (lit ''P'') (lit ''a/b'') None 5 Lexical False memory_db = Some ([h], tr) \<and> h_id h = lit ''x''"
proof -
  have "search_pool 5 = 20" by (simp add: search_pool_def SEARCH_POOL_FACTOR_def USIZE_MAX_def)
  then show ?thesis by (simp add: search_traced_def sample_keyword spread_single) (simp add: memory_row_def)
qed

theorem search_shows_live_memory_witness:
  "\<exists>h tr. search_traced sample_searcher (lit ''P'') (lit ''a/b'') None 5 Lexical False memory_db = Some ([h], tr) \<and>
     shows_memory sample_searcher (lit ''P'') None memory_db h \<and> length [h] \<le> 5"
proof -
  obtain h tr where s: "search_traced sample_searcher (lit ''P'') (lit ''a/b'') None 5 Lexical False memory_db = Some ([h], tr)"
    using sample_search by blast
  have "distinct (map r_id (events memory_db))" by (simp add: memory_db_def memory_row_def)
  moreover have "distinct (map fst found)" if "sw_fts sample_searcher q = Some found" for q found
    using that by (auto simp: sample_searcher_def split: if_splits)
  ultimately have "length [h] \<le> 5 \<and> shows_memory sample_searcher (lit ''P'') None memory_db h"
    using search_shows_live_memory [OF _ _ s] by simp
  then show ?thesis using s by blast
qed

definition sample_hit :: "rstr \<Rightarrow> hit" where
  "sample_hit i = \<lparr>h_id = i, h_ts = [], h_by = [], h_kind = Observation, h_title = [], h_snippet = [], h_session = []\<rparr>"

lemma sample_rounding: "ieee_rounding (a_round sample_arith)"
  by (simp add: ieee_rounding_def sample_arith_def mono_def)

theorem fusion_respects_agreement_witness:
  "fu_score (fused_of sample_arith None [[sample_hit [2], sample_hit [1]], [sample_hit [2]]] empty_store [1])
     \<le> fu_score (fused_of sample_arith None [[sample_hit [2], sample_hit [1]], [sample_hit [2]]] empty_store [2])"
proof -
  let ?ls = "[[sample_hit [2], sample_hit [1]], [sample_hit [2]]]"
  have l: "list_all (\<lambda>l. distinct (map h_id l) \<and> never_behind [2] [1] l) ?ls"
    by (simp add: sample_hit_def never_behind_def)
  have d: "discount_for sample_arith (length_of i empty_store) = 1" "demoted_id i empty_store = False" for i
    by (simp_all add: discount_for_def length_of_def demoted_id_def empty_store_def)
  have "map h_id (fst (fuse sample_arith ?ls 2 None empty_store)) =
      take 2 (ranked_ids (fused_of sample_arith None ?ls empty_store) (nominated ?ls))"
    by (rule fuse_ids)
  moreover have "length (ranked_ids (fused_of sample_arith None ?ls empty_store) (nominated ?ls)) = 2"
    by (simp add: ranked_ids_def nominated_def sample_hit_def fused_of_def Let_def)
  moreover have "[1] \<in> set (ranked_ids (fused_of sample_arith None ?ls empty_store) (nominated ?ls))"
    by (simp add: ranked_ids_set nominated_def sample_hit_def fused_of_def Let_def)
  ultimately have "[1] \<in> h_id ` set (fst (fuse sample_arith ?ls 2 None empty_store))"
    by (metis list.set_map order_refl take_all)
  moreover have "fu_dropped (fused_of sample_arith None ?ls empty_store [2]) = None" by (simp add: fused_of_def Let_def)
  ultimately show ?thesis
    using fusion_respects_agreement [OF sample_rounding l, of empty_store None 2] d by simp
qed

theorem relaxed_query_is_any_three_witness:
  "\<exists>fts ts. compile_fts (\<lambda>s. s) (lit ''retry backoff jitter'') = Some fts \<and> fts = join_or (term_groups ts) \<and>
     3 \<le> length ts \<and> list_all (good_term (\<lambda>s. s)) ts"
proof -
  have "split_whitespace (lit ''retry backoff jitter'') = [lit ''retry'', lit ''backoff'', lit ''jitter'']"
    by (simp add: lit_def split_whitespace_def split_on_def is_ws_def)
  moreover have "word_pieces (lit ''retry'') = [lit ''retry'']" "word_pieces (lit ''backoff'') = [lit ''backoff'']"
    "word_pieces (lit ''jitter'') = [lit ''jitter'']"
    by (simp_all add: lit_def word_pieces_def trim_defs is_edge_def is_ascii_punct_def split_on_def Let_def)
  moreover have "foldl (add_term (\<lambda>s. s)) [] [lit ''retry'', lit ''backoff'', lit ''jitter''] =
      [lit ''retry'', lit ''backoff'', lit ''jitter'']"
    by (simp add: lit_def add_term_def trim_defs RELAXED_STOP_WORDS_def eq_ignore_case_def Let_def)
  ultimately have "length (relaxed_terms (\<lambda>s. s) (lit ''retry backoff jitter'')) = 3"
    by (simp add: relaxed_terms_def keep_longest_def RELAXED_TERMS_def)
  then have "\<exists>fts. compile_fts (\<lambda>s. s) (lit ''retry backoff jitter'') = Some fts"
    by (simp add: compile_fts_def Let_def) (simp add: lit_def split_whitespace_def split_on_def is_ws_def fts_word_def starts_with_def)
  then obtain fts where "compile_fts (\<lambda>s. s) (lit ''retry backoff jitter'') = Some fts" by blast
  from relaxed_query_is_any_three [OF this] this show ?thesis by blast
qed

end
