(* ===== verification/Plugin_Text.thy ===== *)
theory Plugin_Text
  imports BrainPrelude
begin

text \<open>
  The two files \<open>src/src/setup.rs\<close> carries as text: the OpenCode plugin with the path of the binary in
  it, already printed the way \<open>{:?}\<close> does, and the commented configuration template.
\<close>

definition PLUGIN_HEAD :: rstr where
  "PLUGIN_HEAD =
     lit ''// rolepod-brain for OpenCode 2. Generated by `brain setup`.'' @
     [10] @
     lit ''//'' @
     [10] @
     lit ''// OpenCode has no hook configuration file; plugins subscribe in code, and'' @
     [10] @
     lit ''// since OpenCode 2 they run inside the shared background service, one'' @
     [10] @
     lit ''// instance per project. Every handler swallows its own errors, and capture'' @
     [10] @
     lit ''// is fire-and-forget: memory must never break the session it is observing.'' @
     [10] @
     lit ''// Only memory handed back to the model is waited for, and never for long.'' @
     [10] @
     lit ''//'' @
     [10] @
     lit ''// Dependency-free on purpose: `Plugin.define` from `@opencode/plugin` returns'' @
     [10] @
     lit ''// its argument unchanged, so the plain object below is the same plugin'' @
     [10] @
     lit ''// without a package to install.'' @
     [10] @
     lit ''import { spawn } from '' @
     [34] @
     lit ''node:child_process'' @
     [34, 10, 10] @
     lit ''const BRAIN = ''"

definition PLUGIN_PART1 :: rstr where
  "PLUGIN_PART1 =
     [10, 10] @
     lit ''function capture(event, payload) {'' @
     [10] @
     lit ''  try {'' @
     [10] @
     lit ''    const child = spawn(BRAIN, ['' @
     [34] @
     lit ''hook'' @
     [34] @
     lit '', '' @
     [34] @
     lit ''--cli'' @
     [34] @
     lit '', '' @
     [34] @
     lit ''opencode'' @
     [34] @
     lit '', '' @
     [34] @
     lit ''--event'' @
     [34] @
     lit '', event], {'' @
     [10] @
     lit ''      stdio: ['' @
     [34] @
     lit ''pipe'' @
     [34] @
     lit '', '' @
     [34] @
     lit ''ignore'' @
     [34] @
     lit '', '' @
     [34] @
     lit ''ignore'' @
     [34] @
     lit ''],'' @
     [10] @
     lit ''      detached: true,'' @
     [10] @
     lit ''    })'' @
     [10] @
     lit ''    child.on('' @
     [34] @
     lit ''error'' @
     [34] @
     lit '', () => {})'' @
     [10] @
     lit ''    child.stdin.on('' @
     [34] @
     lit ''error'' @
     [34] @
     lit '', () => {})'' @
     [10] @
     lit ''    child.stdin.end(JSON.stringify(payload))'' @
     [10] @
     lit ''    child.unref()'' @
     [10] @
     lit ''  } catch {'' @
     [10] @
     lit ''    /* capture is best effort; the session is not */'' @
     [10] @
     lit ''  }'' @
     [10] @
     lit ''}'' @
     [10, 10] @
     lit ''// How long a hook whose answer we read may hold up a turn. The capture'' @
     [10] @
     lit ''// finishes either way; only the answer is dropped.'' @
     [10] @
     lit ''const ANSWER_WAIT_MS = 2000'' @
     [10] @
     lit ''// brain must have its answer built by then, less this, or build none: its'' @
     [10] @
     lit ''// last write and the pipe back need the time.'' @
     [10] @
     lit ''const ANSWER_MARGIN_MS = 500'' @
     [10, 10] @
     lit ''// The same hook, but its answer is read: what memory holds for this moment,'' @
     [10] @
     lit ''// as text to put in front of the model, or null. `reads_answer` tells the'' @
     [10] @
     lit ''// hook someone is listening - without it, brain builds nothing for OpenCode,'' @
     [10] @
     lit ''// because an injection nobody reads still spends the session'' @
     [39] @
     lit ''s budget - and'' @
     [10] @
     lit ''// `answer_by` tells it until when.'' @
     [10] @
     lit ''function ask(event, payload) {'' @
     [10] @
     lit ''  const answer_by = Date.now() + ANSWER_WAIT_MS - ANSWER_MARGIN_MS'' @
     [10] @
     lit ''  return new Promise((resolve) => {'' @
     [10] @
     lit ''    let out = '' @
     [34, 34, 10] @
     lit ''    const timer = setTimeout(() => resolve(null), ANSWER_WAIT_MS)'' @
     [10] @
     lit ''    const done = (text) => {'' @
     [10] @
     lit ''      clearTimeout(timer)'' @
     [10] @
     lit ''      resolve(text)'' @
     [10] @
     lit ''    }'' @
     [10] @
     lit ''    try {'' @
     [10] @
     lit ''      const child = spawn(BRAIN, ['' @
     [34] @
     lit ''hook'' @
     [34] @
     lit '', '' @
     [34] @
     lit ''--cli'' @
     [34] @
     lit '', '' @
     [34] @
     lit ''opencode'' @
     [34] @
     lit '', '' @
     [34] @
     lit ''--event'' @
     [34] @
     lit '', event], {'' @
     [10] @
     lit ''        stdio: ['' @
     [34] @
     lit ''pipe'' @
     [34] @
     lit '', '' @
     [34] @
     lit ''pipe'' @
     [34] @
     lit '', '' @
     [34] @
     lit ''ignore'' @
     [34] @
     lit ''],'' @
     [10] @
     lit ''        detached: true,'' @
     [10] @
     lit ''      })'' @
     [10] @
     lit ''      child.on('' @
     [34] @
     lit ''error'' @
     [34] @
     lit '', () => done(null))'' @
     [10] @
     lit ''      child.stdin.on('' @
     [34] @
     lit ''error'' @
     [34] @
     lit '', () => {})'' @
     [10] @
     lit ''      child.stdout.on('' @
     [34] @
     lit ''data'' @
     [34] @
     lit '', (chunk) => {'' @
     [10] @
     lit ''        out += chunk'' @
     [10] @
     lit ''      })'' @
     [10] @
     lit ''      child.on('' @
     [34] @
     lit ''close'' @
     [34] @
     lit '', () => {'' @
     [10] @
     lit ''        try {'' @
     [10] @
     lit ''          done(JSON.parse(out)?.hookSpecificOutput?.additionalContext || null)'' @
     [10] @
     lit ''        } catch {'' @
     [10] @
     lit ''          done(null)'' @
     [10] @
     lit ''        }'' @
     [10] @
     lit ''      })'' @
     [10] @
     lit ''      child.stdin.end(JSON.stringify({ ...payload, ''"

definition PLUGIN_PART2 :: rstr where
  "PLUGIN_PART2 =
     lit '', answer_by }))'' @
     [10] @
     lit ''      child.unref()'' @
     [10] @
     lit ''    } catch {'' @
     [10] @
     lit ''      done(null)'' @
     [10] @
     lit ''    }'' @
     [10] @
     lit ''  })'' @
     [10] @
     lit ''}'' @
     [10, 10]"

definition PLUGIN_PART3 :: rstr where
  "PLUGIN_PART3 =
     lit '' {'' @
     [10] @
     lit ''  ''"

definition PLUGIN_PART4 :: rstr where
  "PLUGIN_PART4 =
     lit '','' @
     [10, 10] @
     lit ''  async setup(ctx) {'' @
     [10] @
     lit ''    // The service'' @
     [39] @
     lit ''s cwd is $HOME and its env is not the shell'' @
     [39] @
     lit ''s: the project'' @
     [10] @
     lit ''    // is whatever this instance was created for, and nothing else.'' @
     [10] @
     lit ''    const instanceDir = ctx.location?.directory ?? ctx.location?.project?.directory ?? n'' @
     lit ''ull'' @
     [10] @
     lit ''    // No project, no capture: a memory filed under a guess is worse than a'' @
     [10] @
     lit ''    // missing one, and without a directory the guess would be the home.'' @
     [10] @
     lit ''    if (!instanceDir) return'' @
     [10, 10] @
     lit ''    // The event stream is the whole service'' @
     [39] @
     lit ''s, every project at once, and'' @
     [10] @
     lit ''    // only `session.created` says which project a session belongs to. So:'' @
     [10] @
     lit ''    // remember the sessions created here, and ignore every later event for'' @
     [10] @
     lit ''    // a session this instance did not see start - a session opened before'' @
     [10] @
     lit ''    // the plugin loaded loses its boundaries, never its tool calls, because'' @
     [10] @
     lit ''    // the tool hook below is scoped to this instance already.'' @
     [10] @
     lit ''    //'' @
     [10] @
     lit ''    // A child session (`parentID` set) is a subagent: its start and its end'' @
     [10] @
     lit ''    // are not the lead'' @
     [39] @
     lit ''s boundaries, and its tool calls are tagged as its'' @
     [10] @
     lit ''    // own work rather than filed as the lead'' @
     [39] @
     lit ''s.'' @
     [10] @
     lit ''    const sessions = new Map()'' @
     [10] @
     lit ''    const cwdOf = (id) => sessions.get(id)?.cwd ?? instanceDir'' @
     [10] @
     lit ''    // The primer each lead session was handed, as a pending answer.'' @
     [10] @
     lit ''    const primers = new Map()'' @
     [10, 10] @
     lit ''    const onEvent = (ev) => {'' @
     [10] @
     lit ''      const data = ev?.data ?? {}'' @
     [10] @
     lit ''      const session_id = data.sessionID ?? null'' @
     [10] @
     lit ''      if (ev?.type === '' @
     [34] @
     lit ''session.created'' @
     [34] @
     lit '') {'' @
     [10] @
     lit ''        // Ours if it opened in this directory, or is a child of a session'' @
     [10] @
     lit ''        // that did: a subagent'' @
     [39] @
     lit ''s session is filed where its lead'' @
     [39] @
     lit ''s is.'' @
     [10] @
     lit ''        const ours = data.location?.directory === instanceDir || sessions.has(data.paren'' @
     lit ''tID)'' @
     [10] @
     lit ''        if (!ours) return'' @
     [10] @
     lit ''        const agent = data.parentID ? String(data.agent ?? '' @
     [34] @
     lit ''subagent'' @
     [34] @
     lit '') : null'' @
     [10] @
     lit ''        sessions.set(session_id, { cwd: data.location?.directory ?? instanceDir, agent }'' @
     lit '')'' @
     [10] @
     lit ''        if (agent) return'' @
     [10] @
     lit ''        primers.set(session_id, ask('' @
     [34] @
     lit ''SessionStart'' @
     [34] @
     lit '', { cwd: cwdOf(session_id), session_id, source: '' @
     [34] @
     lit ''startup'' @
     [34] @
     lit '' }))'' @
     [10] @
     lit ''        return'' @
     [10] @
     lit ''      }'' @
     [10] @
     lit ''      if (ev.type === '' @
     [34] @
     lit ''session.deleted'' @
     [34] @
     lit '') {'' @
     [10] @
     lit ''        sessions.delete(session_id)'' @
     [10] @
     lit ''        primers.delete(session_id)'' @
     [10] @
     lit ''        return'' @
     [10] @
     lit ''      }'' @
     [10] @
     lit ''      const known = sessions.get(session_id)'' @
     [10] @
     lit ''      if (!known || known.agent) return'' @
     [10] @
     lit ''      switch (ev.type) {'' @
     [10] @
     lit ''        // The end of a turn. `session.idle` is the documented name for it,'' @
     [10] @
     lit ''        // but it is a status event that headless runs never emit; the'' @
     [10] @
     lit ''        // execution event is the engine'' @
     [39] @
     lit ''s own and fires in every mode.'' @
     [10] @
     lit ''        case '' @
     [34] @
     lit ''session.execution.succeeded'' @
     [34] @
     lit '':'' @
     [10] @
     lit ''          capture('' @
     [34] @
     lit ''Stop'' @
     [34] @
     lit '', { cwd: known.cwd, session_id })'' @
     [10] @
     lit ''          return'' @
     [10] @
     lit ''        case '' @
     [34] @
     lit ''session.compaction.ended'' @
     [34] @
     lit '':'' @
     [10] @
     lit ''          capture('' @
     [34] @
     lit ''PreCompact'' @
     [34] @
     lit '', { cwd: known.cwd, session_id, trigger: data.reason ?? '' @
     [34] @
     lit ''auto'' @
     [34] @
     lit '' })'' @
     [10] @
     lit ''          return'' @
     [10] @
     lit ''      }'' @
     [10] @
     lit ''    }'' @
     [10, 10] @
     lit ''    const stop = new AbortController()'' @
     [10] @
     lit ''    void (async () => {'' @
     [10] @
     lit ''      try {'' @
     [10] @
     lit ''        for await (const ev of ctx.event.subscribe({ signal: stop.signal })) {'' @
     [10] @
     lit ''          try {'' @
     [10] @
     lit ''            onEvent(ev)'' @
     [10] @
     lit ''          } catch {'' @
     [10] @
     lit ''            /* never break the session */'' @
     [10] @
     lit ''          }'' @
     [10] @
     lit ''        }'' @
     [10] @
     lit ''      } catch (error) {'' @
     [10] @
     lit ''        // The stream ends with the service; a stream that dies before it'' @
     [10] @
     lit ''        // is the one failure worth a line in OpenCode'' @
     [39] @
     lit ''s log, because from'' @
     [10] @
     lit ''        // here on session boundaries are silently lost.'' @
     [10] @
     lit ''        if (!stop.signal.aborted) console.error('' @
     [34] @
     lit ''rolepod-brain: event stream ended:'' @
     [34] @
     lit '', error)'' @
     [10] @
     lit ''      }'' @
     [10] @
     lit ''    })()'' @
     [10, 10] @
     lit ''    // Measured on the live service: unlike the event stream, the tool hook'' @
     [10] @
     lit ''    // is scoped to this instance, so a session created before the plugin'' @
     [10] @
     lit ''    // loaded still captures its calls, filed under the instance directory.'' @
     [10] @
     lit ''    const onTool = async (e) => {'' @
     [10] @
     lit ''      try {'' @
     [10] @
     lit ''        const session_id = e?.sessionID ?? null'' @
     [10] @
     lit ''        const payload = {'' @
     [10] @
     lit ''          cwd: cwdOf(session_id),'' @
     [10] @
     lit ''          session_id,'' @
     [10] @
     lit ''          tool_name: String(e?.tool ?? '' @
     [34, 34] @
     lit ''),'' @
     [10] @
     lit ''          tool_input: e?.input ?? {},'' @
     [10] @
     lit ''        }'' @
     [10] @
     lit ''        const agent = sessions.get(session_id)?.agent'' @
     [10] @
     lit ''        if (agent) {'' @
     [10] @
     lit ''          // The keys Claude Code uses for the same fact, so the hook applies'' @
     [10] @
     lit ''          // the same rule: a delegate'' @
     [39] @
     lit ''s footsteps are not the lead'' @
     [39] @
     lit ''s.'' @
     [10] @
     lit ''          payload.agent_id = session_id'' @
     [10] @
     lit ''          payload.agent_type = agent'' @
     [10] @
     lit ''        }'' @
     [10] @
     lit ''        // Only a completed call has a result to carry memory back in; a'' @
     [10] @
     lit ''        // delegate is never handed any. Both are captured and nothing more.'' @
     [10] @
     lit ''        if (agent || e?.status !== '' @
     [34] @
     lit ''completed'' @
     [34] @
     lit '' || !e?.result) {'' @
     [10] @
     lit ''          capture('' @
     [34] @
     lit ''PostToolUse'' @
     [34] @
     lit '', payload)'' @
     [10] @
     lit ''          return'' @
     [10] @
     lit ''        }'' @
     [10] @
     lit ''        // What memory holds about the file just touched rides back inside'' @
     [10] @
     lit ''        // the tool'' @
     [39] @
     lit ''s own result, the next thing the model reads.'' @
     [10] @
     lit ''        const text = await ask('' @
     [34] @
     lit ''PostToolUse'' @
     [34] @
     lit '', payload)'' @
     [10] @
     lit ''        if (text) e.result.content = [...(e.result.content ?? []), { type: '' @
     [34] @
     lit ''text'' @
     [34] @
     lit '', text }]'' @
     [10] @
     lit ''      } catch {'' @
     [10] @
     lit ''        /* never break a tool call */'' @
     [10] @
     lit ''      }'' @
     [10] @
     lit ''    }'' @
     [10] @
     lit ''    try {'' @
     [10] @
     lit ''      await ctx.tool.hook('' @
     [34] @
     lit ''execute.after'' @
     [34] @
     lit '', onTool)'' @
     [10] @
     lit ''    } catch (error) {'' @
     [10] @
     lit ''      console.error('' @
     [34] @
     lit ''rolepod-brain: tool hook not registered:'' @
     [34] @
     lit '', error)'' @
     [10] @
     lit ''    }'' @
     [10, 10] @
     lit ''    // OpenCode rebuilds the system prompt for every request, so the primer'' @
     [10] @
     lit ''    // goes back into each one: asked for once, paid for once from the'' @
     [10] @
     lit ''    // budget, and still there after a compaction. Title and summary calls'' @
     [10] @
     lit ''    // are the session'' @
     [39] @
     lit ''s own bookkeeping and get none.'' @
     [10] @
     lit ''    const onContext = async (e) => {'' @
     [10] @
     lit ''      try {'' @
     [10] @
     lit ''        if (e?.kind && e.kind !== '' @
     [34] @
     lit ''primary'' @
     [34] @
     lit '') return'' @
     [10] @
     lit ''        const text = await primers.get(e?.sessionID)'' @
     [10] @
     lit ''        if (text) e.system.push({ type: '' @
     [34] @
     lit ''text'' @
     [34] @
     lit '', text })'' @
     [10] @
     lit ''      } catch {'' @
     [10] @
     lit ''        /* never break a request */'' @
     [10] @
     lit ''      }'' @
     [10] @
     lit ''    }'' @
     [10] @
     lit ''    try {'' @
     [10] @
     lit ''      await ctx.session.hook('' @
     [34] @
     lit ''context'' @
     [34] @
     lit '', onContext)'' @
     [10] @
     lit ''    } catch (error) {'' @
     [10] @
     lit ''      console.error('' @
     [34] @
     lit ''rolepod-brain: context hook not registered:'' @
     [34] @
     lit '', error)'' @
     [10] @
     lit ''    }'' @
     [10, 10] @
     lit ''    return () => stop.abort()'' @
     [10] @
     lit ''  },'' @
     [10] @
     lit ''}'' @
     [10]"

definition opencode_plugin :: "rstr \<Rightarrow> rstr" where
  "opencode_plugin exe =
     PLUGIN_HEAD @
     exe @
     PLUGIN_PART1 @
     (lit ''reads_answer: true'') @
     PLUGIN_PART2 @
     (lit ''export default'') @
     PLUGIN_PART3 @
     (lit ''id: '' @ [34] @ lit ''rolepod-brain'' @ [34]) @
     PLUGIN_PART4"

definition CONFIG_TEMPLATE :: rstr where
  "CONFIG_TEMPLATE =
     lit ''# rolepod-brain configuration.'' @
     [10] @
     lit ''#'' @
     [10] @
     lit ''# Everything here is optional and shown at its default. Uncomment a line to'' @
     [10] @
     lit ''# change it; delete this file to return to all defaults. `brain doctor`'' @
     [10] @
     lit ''# reports the effective settings.'' @
     [10, 10] @
     lit ''# [sync]'' @
     [10] @
     lit ''# Multi-device sync, off by default - memory stays on this machine until you'' @
     [10] @
     lit ''# run `brain sync init <dir>` yourself. The dir is any folder your machines'' @
     [10] @
     lit ''# already share (iCloud, Dropbox, a NAS); bundles in it are encrypted, and'' @
     [10] @
     lit ''# the key in sync.key never leaves your machines.'' @
     [10] @
     lit ''# dir = '' @
     [34] @
     lit ''/path/to/shared/folder'' @
     [34, 10, 10] @
     lit ''[summarizer]'' @
     [10] @
     lit ''# Which CLI'' @
     [39] @
     lit ''s model writes the summaries.'' @
     [10] @
     lit ''#   auto        borrow the CLI that produced the events, cheapest tier'' @
     [10] @
     lit ''#   claude-code / codex / antigravity / cursor / opencode / gemini'' @
     [10] @
     lit ''#               pin one CLI'' @
     [10] @
     lit ''#   off         permanent rule-based summaries - fully functional, never'' @
     [10] @
     lit ''#               spends a model call'' @
     [10] @
     lit ''# mode = '' @
     [34] @
     lit ''auto'' @
     [34, 10, 10] @
     lit ''[summarizer.models]'' @
     [10] @
     lit ''# Per-CLI model overrides. Memory quality is a spend decision: the default is'' @
     [10] @
     lit ''# each CLI'' @
     [39] @
     lit ''s cheap tier, and naming a better model here buys better summaries'' @
     [10] @
     lit ''# at that CLI'' @
     [39] @
     lit ''s price. Per-CLI because model names do not travel between'' @
     [10] @
     lit ''# vendors. A CLI not named here keeps its cheap default.'' @
     [10] @
     lit ''#'' @
     [10] @
     lit ''# Cursor and OpenCode send no model name at all - Cursor'' @
     [39] @
     lit ''s list differs per'' @
     [10] @
     lit ''# plan and OpenCode fronts whatever you authenticated - so this does not'' @
     [10] @
     lit ''# reach them. Change the default inside those CLIs instead. `brain doctor`'' @
     [10] @
     lit ''# prints both as '' @
     [34] @
     lit ''(its own default)'' @
     [34] @
     lit ''.'' @
     [10] @
     lit ''# '' @
     [34] @
     lit ''claude-code'' @
     [34] @
     lit '' = '' @
     [34] @
     lit ''sonnet'' @
     [34, 10, 10] @
     lit ''[injection]'' @
     [10] @
     lit ''# Byte ceilings for automatic context injection. Ceilings, not targets: a'' @
     [10] @
     lit ''# short primer of real signal beats a full one padded with noise.'' @
     [10] @
     lit ''#'' @
     [10] @
     lit ''# primer_budget caps the memory list pushed at session start (~1k tokens at'' @
     [10] @
     lit ''# the default); session_budget caps EVERYTHING injected automatically in one'' @
     [10] @
     lit ''# session, primer included. Raising them costs input tokens in every future'' @
     [10] @
     lit ''# session; lowering them keeps only the top-ranked lines, and the agent can'' @
     [10] @
     lit ''# still pull anything through brain_search, which has no budget. `brain'' @
     [10] @
     lit ''# doctor` shows what sessions actually spend - tune from that.'' @
     [10] @
     lit ''# primer_budget = 4096'' @
     [10] @
     lit ''# session_budget = 8192'' @
     [10, 10] @
     lit ''[search]'' @
     [10] @
     lit ''# true spends one cheap-tier model call per search, reordering results by'' @
     [10] @
     lit ''# what the query was asking rather than term statistics. A failed or slow'' @
     [10] @
     lit ''# call leaves the order exactly as the index ranked it.'' @
     [10] @
     lit ''# rerank = false'' @
     [10, 10] @
     lit ''[hub]'' @
     [10] @
     lit ''# One shared reranker process serves every session instead of each loading'' @
     [10] @
     lit ''# the model. '' @
     [34] @
     lit ''off'' @
     [34] @
     lit '' gives each session its own. ROLEPOD_BRAIN_HUB=off beats'' @
     [10] @
     lit ''# this file.'' @
     [10] @
     lit ''# mode = '' @
     [34] @
     lit ''on'' @
     [34, 10, 10] @
     lit ''[sanitize]'' @
     [10] @
     lit ''# Your own redaction on top of the built-in credential patterns. Anything an'' @
     [10] @
     lit ''# extra pattern matches becomes [REDACTED] before it is written anywhere:'' @
     [10] @
     lit ''#   extra_patterns = ['' @
     [34] @
     lit ''EMP-[0-9]{6}'' @
     [34] @
     lit '', '' @
     [34] @
     lit ''[a-z0-9-]+'' @
     [92, 92] @
     lit ''.internal'' @
     [92, 92] @
     lit ''.example'' @
     [92, 92] @
     lit ''.com'' @
     [34] @
     lit '']'' @
     [10] @
     lit ''# The allowlist is for false positives - strings a built-in pattern catches'' @
     [10] @
     lit ''# that are not secrets, like a `DESIGN_TOKEN = '' @
     [34] @
     lit ''spacing-4'' @
     [34] @
     lit ''` assignment the'' @
     [10] @
     lit ''# generic `*_TOKEN=` pattern cannot tell from a credential:'' @
     [10] @
     lit ''#   allowlist = ['' @
     [34] @
     lit ''DESIGN_TOKEN'' @
     [34] @
     lit '']'' @
     [10] @
     lit ''# extra_patterns = []'' @
     [10] @
     lit ''# allowlist = []'' @
     [10]"

end
