(* ===== verification/Setup.thy ===== *)
theory Setup
  imports Ids Plugin_Text
begin

text \<open>
  \<open>brain setup\<close>, \<open>src/src/setup.rs\<close>: which configuration file each CLI keeps, what one run writes
  into it, what uninstalling takes out again, and the backups left beside it. A file's content is
  its text, \<open>disk\<close> of the identity theory holds files and directories, and reads and writes of an
  existing path succeed. A JSON object is \<open>serde_json\<close>'s map, ordered by key. The sentence shown to
  the user is the datatype \<open>notice\<close>: the facts in it, without the wording.
\<close>

section \<open>JSON objects\<close>

definition get_key :: "rstr \<Rightarrow> json \<Rightarrow> json option" where
  "get_key k v = (case v of JObj o' \<Rightarrow> map_of o' k | _ \<Rightarrow> None)"

text \<open>\<open>insert\<close> of an ordered map.\<close>

fun put_key :: "rstr \<Rightarrow> json \<Rightarrow> (rstr \<times> json) list \<Rightarrow> (rstr \<times> json) list" where
  "put_key k v [] = [(k, v)]"
| "put_key k v ((k', v') # kvs) =
     (if k = k' then (k, v) # kvs else if k < k' then (k, v) # (k', v') # kvs else (k', v') # put_key k v kvs)"

definition del_key :: "rstr \<Rightarrow> (rstr \<times> json) list \<Rightarrow> (rstr \<times> json) list" where
  "del_key k kvs = filter (\<lambda>(k', _). k' \<noteq> k) kvs"

text \<open>\<open>entry(k).or_insert(v)\<close>.\<close>

definition or_put :: "rstr \<Rightarrow> json \<Rightarrow> (rstr \<times> json) list \<Rightarrow> (rstr \<times> json) list" where
  "or_put k v kvs = (if map_of kvs k = None then put_key k v kvs else kvs)"

definition as_obj :: "json \<Rightarrow> (rstr \<times> json) list option" where
  "as_obj v = (case v of JObj kvs \<Rightarrow> Some kvs | _ \<Rightarrow> None)"

definition as_arr :: "json \<Rightarrow> json list option" where
  "as_arr v = (case v of JArr vs \<Rightarrow> Some vs | _ \<Rightarrow> None)"

section \<open>What is ours\<close>

definition MARKER :: rstr where "MARKER = lit ''brain hook''"
definition MCP_SERVER_NAME :: rstr where "MCP_SERVER_NAME = lit ''brain''"
definition PLUGIN_NAME :: rstr where "PLUGIN_NAME = lit ''rolepod-brain''"

definition strip_exe :: "rstr \<Rightarrow> rstr" where
  "strip_exe name =
     (if suffix (lit ''.exe'') name then take (length name - 4) name else name)"

definition carries_marker :: "json \<Rightarrow> bool" where
  "carries_marker v =
     (list_ex (\<lambda>key. case get_key (lit key) v of Some (JStr t) \<Rightarrow> contains t MARKER | _ \<Rightarrow> False)
        [''command'', ''command_windows'', ''commandWindows''] \<or>
      (case get_key (lit ''command'') v of
         Some (JStr program) \<Rightarrow>
           eq_ignore_case (strip_exe (last (split_on (\<lambda>c. c = 47 \<or> c = 92) program))) (lit ''brain'')
       | _ \<Rightarrow> False) \<and>
      (case get_key (lit ''args'') v of Some (JArr (JStr a # _)) \<Rightarrow> a = lit ''hook'' | _ \<Rightarrow> False))"

definition is_ours :: "json \<Rightarrow> bool" where
  "is_ours v =
     (carries_marker v \<or>
      (case get_key (lit ''hooks'') v of Some (JArr handlers) \<Rightarrow> list_ex carries_marker handlers | _ \<Rightarrow> False))"

section \<open>The CLIs\<close>

datatype hook_layout = Grouped | Namespaced | Plugin_file | Flat | External

record target =
  tg_kind :: agent_kind
  tg_layout :: hook_layout
  tg_grouped :: "rstr list"
  tg_hooks_file :: path
  tg_binaries :: "rstr list"
  tg_events :: "rstr list"
  tg_timeout :: nat
  tg_overrides :: "(rstr \<times> nat) list"
  tg_matchers :: "(rstr \<times> rstr) list"
  tg_register :: "(rstr \<times> rstr list) option"
  tg_mcp_file :: "path option"

definition HOOK_TIMEOUT_SECS :: nat where "HOOK_TIMEOUT_SECS = 5"
definition HOOK_TIMEOUT_MILLIS :: nat where "HOOK_TIMEOUT_MILLIS = 10000"

definition targets_in :: "path \<Rightarrow> rstr \<Rightarrow> target list" where
  "targets_in home exe =
    [\<lparr>tg_kind = ClaudeCode, tg_layout = Grouped, tg_grouped = [],
      tg_hooks_file = home @ map lit [''.claude'', ''settings.json''], tg_binaries = [lit ''claude''],
      tg_events = map lit [''SessionStart'', ''UserPromptSubmit'', ''PreToolUse'', ''PostToolUse'', ''PostToolUseFailure'',
        ''Stop'', ''SubagentStop'', ''PreCompact'', ''SessionEnd''],
      tg_timeout = HOOK_TIMEOUT_SECS, tg_overrides = [], tg_matchers = [(lit ''PreToolUse'', lit ''Read|Bash'')],
      tg_register = Some (lit ''claude'', map lit [''mcp'', ''add'', ''--scope'', ''user''] @ [MCP_SERVER_NAME, lit ''--'', exe, lit ''mcp'']),
      tg_mcp_file = None\<rparr>,
     \<lparr>tg_kind = Codex, tg_layout = External, tg_grouped = [],
      tg_hooks_file = home @ map lit [''.codex'', ''hooks.json''], tg_binaries = [lit ''codex''],
      tg_events = map lit [''SessionStart'', ''UserPromptSubmit'', ''PostToolUse'', ''Stop'', ''SubagentStop'', ''PreCompact'', ''SessionEnd''],
      tg_timeout = HOOK_TIMEOUT_SECS, tg_overrides = [(lit ''SessionEnd'', 3)], tg_matchers = [],
      tg_register = Some (lit ''codex'', map lit [''mcp'', ''add''] @ [MCP_SERVER_NAME, lit ''--'', exe, lit ''mcp'']),
      tg_mcp_file = None\<rparr>,
     \<lparr>tg_kind = parse_agent (lit ''gemini-cli''), tg_layout = Grouped, tg_grouped = [],
      tg_hooks_file = home @ map lit [''.gemini'', ''settings.json''], tg_binaries = [lit ''gemini''],
      tg_events = map lit [''SessionStart'', ''BeforeAgent'', ''AfterAgent'', ''AfterTool'', ''PreCompress''],
      tg_timeout = HOOK_TIMEOUT_MILLIS, tg_overrides = [], tg_matchers = [], tg_register = None, tg_mcp_file = None\<rparr>,
     \<lparr>tg_kind = parse_agent (lit ''antigravity''), tg_layout = Namespaced, tg_grouped = map lit [''PreToolUse'', ''PostToolUse''],
      tg_hooks_file = home @ map lit [''.gemini'', ''config'', ''hooks.json''], tg_binaries = map lit [''agy'', ''antigravity''],
      tg_events = map lit [''PostToolUse'', ''Stop''],
      tg_timeout = HOOK_TIMEOUT_SECS, tg_overrides = [], tg_matchers = [], tg_register = None, tg_mcp_file = None\<rparr>,
     \<lparr>tg_kind = parse_agent (lit ''opencode''), tg_layout = Plugin_file, tg_grouped = [],
      tg_hooks_file = home @ map lit [''.config'', ''opencode'', ''plugins'', ''rolepod-brain.js''], tg_binaries = [lit ''opencode''],
      tg_events = map lit [''session.created'', ''session.execution.succeeded'', ''session.compaction.ended'', ''tool.execute.after''],
      tg_timeout = 0, tg_overrides = [], tg_matchers = [],
      tg_register = Some (lit ''opencode'', map lit [''mcp'', ''add'', ''--global''] @ [MCP_SERVER_NAME, lit ''--'', exe, lit ''mcp'']),
      tg_mcp_file = None\<rparr>,
     \<lparr>tg_kind = parse_agent (lit ''cursor''), tg_layout = Flat, tg_grouped = [],
      tg_hooks_file = home @ map lit [''.cursor'', ''hooks.json''], tg_binaries = map lit [''cursor-agent'', ''cursor''],
      tg_events = map lit [''beforeSubmitPrompt'', ''postToolUse'', ''stop''],
      tg_timeout = HOOK_TIMEOUT_SECS, tg_overrides = [], tg_matchers = [], tg_register = None,
      tg_mcp_file = Some (home @ map lit [''.cursor'', ''mcp.json''])\<rparr>]"

text \<open>
  The machine a run sees. \<open>su_parse\<close> and \<open>su_print\<close> are \<open>serde_json\<close>, \<open>su_plugins\<close> the \<open>plugins\<close> table
  of a \<open>config.toml\<close> (each key with its \<open>enabled\<close> flag), \<open>su_debug\<close> the \<open>{:?}\<close> of a path, \<open>su_run\<close>
  another program, \<open>su_resolve\<close> the path lookup that finds it.
\<close>

datatype ran_program = Not_started | Ended bool rstr rstr

record machine =
  su_windows :: bool
  su_home :: path
  su_exe :: rstr
  su_path :: "path list"
  su_stamp :: rstr
  su_config :: "path option"
  su_parse :: "rstr \<Rightarrow> json option"
  su_print :: "json \<Rightarrow> rstr"
  su_plugins :: "rstr \<Rightarrow> (rstr \<times> bool option) list option"
  su_debug :: "rstr \<Rightarrow> rstr"
  su_lower :: "rstr \<Rightarrow> rstr"
  su_resolve :: "disk \<Rightarrow> rstr \<Rightarrow> rstr option"
  su_run :: "rstr list \<Rightarrow> disk \<Rightarrow> disk \<times> ran_program"

definition config_dir_present :: "disk \<Rightarrow> target \<Rightarrow> bool" where
  "config_dir_present d t =
     (case (if tg_layout t = Plugin_file then Option.bind (parent (tg_hooks_file t)) parent else parent (tg_hooks_file t)) of
        None \<Rightarrow> False | Some p \<Rightarrow> is_dir d p)"

definition binary_present :: "machine \<Rightarrow> disk \<Rightarrow> target \<Rightarrow> bool" where
  "binary_present m d t =
     (let found = (\<lambda>dir name. is_file d (dir @ [name]) \<or>
             su_windows m \<and> list_ex (\<lambda>ext. is_file d (dir @ [name @ lit ''.'' @ lit ext])) [''exe'', ''cmd'', ''bat''])
      in list_ex (\<lambda>name. list_ex (\<lambda>dir. dir \<noteq> [] \<and> found dir name) (su_path m)) (tg_binaries t) \<or>
         (case parent (tg_hooks_file t) of None \<Rightarrow> False
          | Some dir \<Rightarrow> list_ex (found (dir @ [lit ''local''])) (tg_binaries t)))"


section \<open>The plugin of a CLI\<close>

definition subdirs :: "disk \<Rightarrow> path \<Rightarrow> path list" where
  "subdirs d p = filter (\<lambda>q. parent q = Some p) (remdups (d_dirs d))"

definition plugin_installed_in :: "machine \<Rightarrow> disk \<Rightarrow> agent_kind \<Rightarrow> bool" where
  "plugin_installed_in m d kind =
     (let home = su_home m; name = agent_as_str kind in
      if name = lit ''claude-code'' then
        (case Option.bind (read_file d (home @ map lit [''.claude'', ''plugins'', ''installed_plugins.json''])) (su_parse m) of
           None \<Rightarrow> False
         | Some root \<Rightarrow>
             (case Option.bind (get_key (lit ''plugins'') root) as_obj of None \<Rightarrow> False
              | Some plugins \<Rightarrow> list_ex (\<lambda>(key, _). starts_with key (PLUGIN_NAME @ [64])) plugins))
      else if name = lit ''cursor'' then
        list_ex (\<lambda>marketplace. is_dir d (marketplace @ [PLUGIN_NAME])) (subdirs d (home @ map lit [''.cursor'', ''plugins'', ''cache'']))
      else if name = lit ''codex'' then
        (case Option.bind (read_file d (home @ map lit [''.codex'', ''config.toml''])) (su_plugins m) of None \<Rightarrow> False
         | Some plugins \<Rightarrow> list_ex (\<lambda>(key, enabled). starts_with key PLUGIN_NAME \<and> enabled \<noteq> Some False) plugins)
      else False)"

definition plugin_hook_files :: "path \<Rightarrow> disk \<Rightarrow> agent_kind \<Rightarrow> path list" where
  "plugin_hook_files home d kind =
     (let name = agent_as_str kind in
      case (if name = lit ''claude-code'' then Some (home @ map lit [''.claude'', ''plugins'', ''cache''], map lit [''hooks'', ''hooks.json''])
            else if name = lit ''codex'' then Some (home @ map lit [''.codex'', ''plugins'', ''cache''], map lit [''hooks'', ''codex-hooks.json''])
            else None) of
        None \<Rightarrow> []
      | Some (cache, hooks) \<Rightarrow>
          filter (is_file d) (map (\<lambda>version. version @ hooks)
            (concat (map (\<lambda>marketplace. subdirs d (marketplace @ [PLUGIN_NAME])) (subdirs d cache)))))"

definition plugin_carries_hooks_in :: "path \<Rightarrow> disk \<Rightarrow> agent_kind \<Rightarrow> bool" where
  "plugin_carries_hooks_in home d kind = (plugin_hook_files home d kind \<noteq> [])"

definition plugin_hook_events_in :: "machine \<Rightarrow> disk \<Rightarrow> agent_kind \<Rightarrow> rstr list option" where
  "plugin_hook_events_in m d kind =
     (if \<not> plugin_installed_in m d kind \<or> \<not> plugin_carries_hooks_in (su_home m) d kind then None
      else case Option.bind (Option.bind (Option.bind (Option.bind
                (read_file d (last (sort (plugin_hook_files (su_home m) d kind)))) (su_parse m)) (get_key (lit ''hooks''))) as_obj)
                (\<lambda>o'. Some (sort (map fst o'))) of
             None \<Rightarrow> None | Some names \<Rightarrow> if names = [] then None else Some names)"

section \<open>Reading and writing a configuration\<close>

datatype setup_error = Not_json path | Not_an_object path rstr | Not_an_array path rstr | Unknown_cli rstr "rstr list"

definition read_json :: "machine \<Rightarrow> disk \<Rightarrow> path \<Rightarrow> setup_error + json" where
  "read_json m d p =
     (case read_file d p of None \<Rightarrow> Inr (JObj [])
      | Some text \<Rightarrow>
          if trim text = [] then Inr (JObj [])
          else case su_parse m text of None \<Rightarrow> Inl (Not_json p) | Some v \<Rightarrow> Inr v)"

datatype written = Unchanged | Wrote "path option"

definition BACKUPS_KEPT :: nat where "BACKUPS_KEPT = 2"

definition backup_prefix :: "path \<Rightarrow> rstr" where
  "backup_prefix p = (case file_name p of None \<Rightarrow> [] | Some name \<Rightarrow> name) @ lit ''.brain-bak.''"

definition backup_path :: "machine \<Rightarrow> path \<Rightarrow> path" where
  "backup_path m p = butlast p @ [backup_prefix p @ su_stamp m]"

definition backup :: "machine \<Rightarrow> path \<Rightarrow> disk \<Rightarrow> path option \<times> disk" where
  "backup m p d =
     (case read_file d p of None \<Rightarrow> (None, d)
      | Some text \<Rightarrow> (Some (backup_path m p), write_file (backup_path m p) text d))"

definition remove_file :: "path \<Rightarrow> disk \<Rightarrow> disk" where
  "remove_file p d = d\<lparr>d_files := filter (\<lambda>(q, _). q \<noteq> p) (d_files d)\<rparr>"

definition backups_of :: "disk \<Rightarrow> path \<Rightarrow> path list" where
  "backups_of d p =
     (case parent p of None \<Rightarrow> []
      | Some dir \<Rightarrow> sort (remdups (filter (\<lambda>q. parent q = Some dir \<and>
           (case file_name q of None \<Rightarrow> False | Some name \<Rightarrow> starts_with name (backup_prefix p))) (map fst (d_files d)))))"

definition prune_backups :: "path \<Rightarrow> disk \<Rightarrow> disk" where
  "prune_backups p d = foldl (\<lambda>d q. remove_file q d) d (drop BACKUPS_KEPT (rev (backups_of d p)))"

definition write_text :: "machine \<Rightarrow> path \<Rightarrow> rstr \<Rightarrow> disk \<Rightarrow> written \<times> disk" where
  "write_text m p text d =
     (let (w, d') = (if read_file d p = Some text then (Unchanged, d)
                     else let d1 = (case parent p of None \<Rightarrow> d | Some dir \<Rightarrow> create_dir_all dir d);
                              (saved, d2) = backup m p d1
                          in (Wrote saved, write_file p text d2))
      in (w, prune_backups p d'))"

definition write_json :: "machine \<Rightarrow> path \<Rightarrow> json \<Rightarrow> disk \<Rightarrow> written \<times> disk" where
  "write_json m p v d = write_text m p (su_print m v @ [10]) d"

section \<open>Our entries\<close>

fun escape_quotes :: "rstr \<Rightarrow> rstr" where
  "escape_quotes [] = []"
| "escape_quotes (c # cs) = (if c = 39 then [39, 92, 39, 39] else [c]) @ escape_quotes cs"

definition plain_char :: "nat \<Rightarrow> bool" where
  "plain_char c = (is_ascii_alnum c \<or> c \<in> {47, 46, 95, 45})"

definition shell_quote :: "rstr \<Rightarrow> rstr" where
  "shell_quote s = (if list_all plain_char s then s else [39] @ escape_quotes s @ [39])"

definition hook_command :: "rstr \<Rightarrow> rstr \<Rightarrow> rstr \<Rightarrow> rstr" where
  "hook_command exe cli ev = exe @ lit '' hook --cli '' @ cli @ lit '' --event '' @ ev"

definition handler_for :: "bool \<Rightarrow> target \<Rightarrow> rstr \<Rightarrow> rstr \<Rightarrow> rstr \<Rightarrow> nat \<Rightarrow> json" where
  "handler_for windows t exe ev command timeout =
     (let cli = agent_as_str (tg_kind t); number = (lit ''timeout'', JNum (dec timeout)); kind = (lit ''type'', JStr (lit ''command'')) in
      if windows \<and> cli = lit ''claude-code''
      then JObj [(lit ''args'', JArr (map JStr [lit ''hook'', lit ''--cli'', cli, lit ''--event'', ev])), (lit ''command'', JStr exe), number, kind]
      else if windows \<and> cli = lit ''codex''
      then JObj [(lit ''command'', JStr command), (lit ''command_windows'', JStr (hook_command exe cli ev)), number, kind]
      else JObj [(lit ''command'', JStr command), number, kind])"

text \<open>One entry of \<open>wire_hooks\<close>' loop.\<close>

definition entry_for :: "bool \<Rightarrow> target \<Rightarrow> rstr \<Rightarrow> rstr \<Rightarrow> json" where
  "entry_for windows t exe ev =
     (let command = hook_command (shell_quote exe) (agent_as_str (tg_kind t)) ev;
          timeout = (case map_of (tg_overrides t) ev of None \<Rightarrow> tg_timeout t | Some s \<Rightarrow> s);
          handler = handler_for windows t exe ev command timeout
      in if tg_layout t = Grouped \<or> ev \<in> set (tg_grouped t)
         then (case map_of (tg_matchers t) ev of
                 Some matcher \<Rightarrow> JObj [(lit ''hooks'', JArr [handler]), (lit ''matcher'', JStr matcher)]
               | None \<Rightarrow> JObj [(lit ''hooks'', JArr [handler])])
         else handler)"

definition retain_others :: "json \<Rightarrow> json" where
  "retain_others v = (case v of JArr es \<Rightarrow> JArr (filter (\<lambda>e. \<not> is_ours e) es) | _ \<Rightarrow> v)"

definition count_ours :: "json \<Rightarrow> nat" where
  "count_ours v = (case v of JArr es \<Rightarrow> length (filter is_ours es) | _ \<Rightarrow> 0)"

definition map_values :: "(json \<Rightarrow> json) \<Rightarrow> (rstr \<times> json) list \<Rightarrow> (rstr \<times> json) list" where
  "map_values f kvs = map (\<lambda>(k, v). (k, f v)) kvs"

definition drop_empty :: "(rstr \<times> json) list \<Rightarrow> (rstr \<times> json) list" where
  "drop_empty kvs = filter (\<lambda>(_, v). v \<noteq> JArr []) kvs"

section \<open>Wiring\<close>

definition hooks_key :: "target \<Rightarrow> rstr" where
  "hooks_key t = (if tg_layout t = Namespaced then MCP_SERVER_NAME else lit ''hooks'')"

text \<open>The events no longer wired: our entries leave them.\<close>

definition sweep_events :: "target \<Rightarrow> (rstr \<times> json) list \<Rightarrow> rstr list \<times> (rstr \<times> json) list" where
  "sweep_events t kvs =
     (map fst (filter (\<lambda>(k, v). k \<notin> set (tg_events t) \<and> count_ours v > 0) kvs),
      drop_empty (map (\<lambda>(k, v). (k, if k \<in> set (tg_events t) then v else retain_others v)) kvs))"

fun wire_events :: "(rstr \<Rightarrow> json) \<Rightarrow> path \<Rightarrow> rstr list \<Rightarrow> (rstr \<times> json) list \<Rightarrow> nat \<Rightarrow> setup_error + (rstr \<times> json) list \<times> nat" where
  "wire_events entry p [] kvs replaced = Inr (kvs, replaced)"
| "wire_events entry p (ev # evs) kvs replaced =
     (let kvs1 = or_put ev (JArr []) kvs in
      case map_of kvs1 ev of
        Some (JArr es) \<Rightarrow>
          wire_events entry p evs (put_key ev (JArr (filter (\<lambda>e. \<not> is_ours e) es @ [entry ev])) kvs1)
            (replaced + length (filter is_ours es))
      | _ \<Rightarrow> Inl (Not_an_array p ev))"

definition wire_json :: "bool \<Rightarrow> target \<Rightarrow> rstr \<Rightarrow> json \<Rightarrow> setup_error + json \<times> nat \<times> rstr list" where
  "wire_json windows t exe v =
     (let root = or_put (hooks_key t) (JObj []) (case as_obj v of Some kvs \<Rightarrow> kvs | None \<Rightarrow> []) in
      case map_of root (hooks_key t) of
        Some (JObj hooks) \<Rightarrow>
          (let (swept, hooks1) = sweep_events t hooks in
           case wire_events (entry_for windows t exe) (tg_hooks_file t) (tg_events t) hooks1 0 of
             Inl e \<Rightarrow> Inl e
           | Inr (hooks2, replaced) \<Rightarrow>
               (let root2 = put_key (hooks_key t) (JObj hooks2) root;
                    root3 = (if tg_layout t = Flat then or_put (lit ''version'') (JNum (lit ''1'')) root2 else root2)
                in Inr (JObj root3, replaced, swept)))
      | _ \<Rightarrow> Inl (Not_an_object (tg_hooks_file t) (hooks_key t)))"

datatype notice =
    Not_installed
  | Binary_missing "rstr list" "path option"
  | Cursor_on_windows
  | Hooks_written bool nat nat "rstr list"
  | Hooks_current nat
  | Backed_up path
  | Hooks_removed bool nat
  | Raw_removed bool nat
  | Use_plugin_flow
  | Remove_plugin_yourself
  | Plugin_has_hooks
  | Plugin_has_hooks_swept bool nat
  | Plugin_written
  | Plugin_current
  | Plugin_planned nat
  | Plugin_removed bool
  | Server_planned path
  | Server_registered
  | Server_in_file path
  | Server_already
  | Server_failed rstr
  | Server_would_run "rstr list"
  | Server_from_plugin
  | Server_withdrawn bool path
  | Server_removed bool path
  | Server_deregistered
  | Not_plain_json path
  | Backstop_hooks
  | Backstop_removed bool path
  | Template_written bool path

type_synonym change = "rstr \<times> notice"

definition said :: "target \<Rightarrow> notice \<Rightarrow> change" where
  "said t n = (agent_as_str (tg_kind t), n)"

text \<open>\<open>sweep_ours\<close> looks under \<open>hooks\<close> whatever the layout, and keeps emptied events.\<close>

definition sweep_ours :: "machine \<Rightarrow> target \<Rightarrow> bool \<Rightarrow> disk \<Rightarrow> change list \<times> disk" where
  "sweep_ours m t apply' d =
     (case read_json m d (tg_hooks_file t) of Inl _ \<Rightarrow> ([said t Plugin_has_hooks], d)
      | Inr root \<Rightarrow>
          (case (as_obj root, Option.bind (get_key (lit ''hooks'') root) as_obj) of
             (Some kvs, Some hooks) \<Rightarrow>
               (let removed = sum_list (map (\<lambda>(_, v). count_ours v) hooks) in
                if removed = 0 then ([said t Plugin_has_hooks], d)
                else ([said t (Plugin_has_hooks_swept apply' removed)],
                      if apply' then snd (write_json m (tg_hooks_file t) (JObj (put_key (lit ''hooks'') (JObj (map_values retain_others hooks)) kvs)) d) else d))
           | _ \<Rightarrow> ([said t Plugin_has_hooks], d)))"

definition wire_hooks :: "machine \<Rightarrow> target \<Rightarrow> bool \<Rightarrow> disk \<Rightarrow> setup_error + change list \<times> disk" where
  "wire_hooks m t apply' d =
     (if su_windows m \<and> agent_as_str (tg_kind t) = lit ''cursor'' then Inr ([said t Cursor_on_windows], d)
      else if plugin_installed_in m d (tg_kind t) \<and> plugin_carries_hooks_in (su_home m) d (tg_kind t)
      then Inr (sweep_ours m t apply' d)
      else case read_json m d (tg_hooks_file t) of Inl e \<Rightarrow> Inl e
      | Inr v \<Rightarrow>
          (case wire_json (su_windows m) t (su_exe m) v of Inl e \<Rightarrow> Inl e
           | Inr (root, replaced, swept) \<Rightarrow>
               (let n = length (tg_events t) in
                if \<not> apply' then Inr ([said t (Hooks_written False n replaced swept)], d)
                else case write_json m (tg_hooks_file t) root d of
                  (Unchanged, d') \<Rightarrow> Inr ([said t (Hooks_current n)], d')
                | (Wrote (Some b), d') \<Rightarrow> Inr ([said t (Hooks_written True n replaced swept), said t (Backed_up b)], d')
                | (Wrote None, d') \<Rightarrow> Inr ([said t (Hooks_written True n replaced swept)], d'))))"


section \<open>Taking our entries out\<close>

text \<open>\<open>strip_hooks\<close> up to the write: the number of entries removed and the new file.\<close>

definition strip_json :: "target \<Rightarrow> json \<Rightarrow> nat \<times> json" where
  "strip_json t v =
     (case as_obj v of None \<Rightarrow> (0, v)
      | Some kvs \<Rightarrow>
          (let (removed, kvs1) =
             (case Option.bind (map_of kvs (hooks_key t)) as_obj of
                Some hooks \<Rightarrow>
                  (sum_list (map (\<lambda>(_, es). count_ours es) hooks),
                   put_key (hooks_key t) (JObj (drop_empty (map_values retain_others hooks))) kvs)
              | None \<Rightarrow> (0, kvs))
           in (removed, JObj (if tg_layout t = Namespaced then del_key MCP_SERVER_NAME kvs1 else kvs1))))"

definition strip_hooks :: "machine \<Rightarrow> target \<Rightarrow> bool \<Rightarrow> disk \<Rightarrow> setup_error + change list \<times> disk" where
  "strip_hooks m t apply' d =
     (case read_json m d (tg_hooks_file t) of Inl e \<Rightarrow> Inl e
      | Inr v \<Rightarrow>
          (let (removed, root) = strip_json t v in
           if removed = 0 then Inr ([], d)
           else Inr ([said t (Hooks_removed apply' removed)], if apply' then snd (write_json m (tg_hooks_file t) root d) else d)))"

text \<open>The servers of \<open>mcp.json\<close>, and of OpenCode's configuration two levels down.\<close>

definition has_server :: "json option \<Rightarrow> bool" where
  "has_server servers = (case Option.bind servers as_obj of None \<Rightarrow> False | Some kvs \<Rightarrow> map_of kvs MCP_SERVER_NAME \<noteq> None)"

definition without_server :: "json \<Rightarrow> json" where
  "without_server v = (case v of JObj kvs \<Rightarrow> JObj (del_key MCP_SERVER_NAME kvs) | _ \<Rightarrow> v)"

definition change_key :: "rstr \<Rightarrow> (json \<Rightarrow> json) \<Rightarrow> json \<Rightarrow> json" where
  "change_key k f v =
     (case v of JObj kvs \<Rightarrow> (case map_of kvs k of None \<Rightarrow> v | Some w \<Rightarrow> JObj (put_key k (f w) kvs)) | _ \<Rightarrow> v)"

definition strip_server_file :: "machine \<Rightarrow> target \<Rightarrow> path \<Rightarrow> bool \<Rightarrow> disk \<Rightarrow> change list \<times> disk" where
  "strip_server_file m t p apply' d =
     (case read_json m d p of Inl _ \<Rightarrow> ([], d)
      | Inr root \<Rightarrow>
          if \<not> has_server (get_key (lit ''mcpServers'') root) then ([], d)
          else ([said t (Server_removed apply' p)],
                if apply' then snd (write_json m p (change_key (lit ''mcpServers'') without_server root) d) else d))"

definition opencode_configs :: "target \<Rightarrow> path list" where
  "opencode_configs t =
     (case Option.bind (parent (tg_hooks_file t)) parent of None \<Rightarrow> []
      | Some dir \<Rightarrow> [dir @ [lit ''opencode.json''], dir @ [lit ''opencode.jsonc'']])"

definition strip_opencode_file :: "machine \<Rightarrow> target \<Rightarrow> bool \<Rightarrow> path \<Rightarrow> disk \<Rightarrow> change list \<times> disk" where
  "strip_opencode_file m t apply' p d =
     (case read_file d p of None \<Rightarrow> ([], d)
      | Some text \<Rightarrow>
          (case su_parse m text of
             None \<Rightarrow> (if contains text ([34] @ MCP_SERVER_NAME @ [34]) then [said t (Not_plain_json p)] else [], d)
           | Some root \<Rightarrow>
               if \<not> has_server (Option.bind (get_key (lit ''mcp'') root) (get_key (lit ''servers''))) then ([], d)
               else ([said t (Server_removed apply' p)],
                     if apply' then snd (write_json m p (change_key (lit ''mcp'') (change_key (lit ''servers'') without_server) root) d) else d)))"

fun each_in_turn :: "('x \<Rightarrow> disk \<Rightarrow> change list \<times> disk) \<Rightarrow> 'x list \<Rightarrow> disk \<Rightarrow> change list \<times> disk" where
  "each_in_turn f [] d = ([], d)"
| "each_in_turn f (x # xs) d =
     (let (c, d1) = f x d; (cs, d2) = each_in_turn f xs d1 in (c @ cs, d2))"

definition strip_mcp :: "machine \<Rightarrow> target \<Rightarrow> bool \<Rightarrow> disk \<Rightarrow> change list \<times> disk" where
  "strip_mcp m t apply' d =
     (case tg_mcp_file t of Some p \<Rightarrow> strip_server_file m t p apply' d
      | None \<Rightarrow>
          if agent_as_str (tg_kind t) = lit ''opencode'' then each_in_turn (strip_opencode_file m t apply') (opencode_configs t) d
          else (case tg_register t of None \<Rightarrow> ([], d)
          | Some (program, _) \<Rightarrow>
              if \<not> apply' then ([said t (Server_would_run ([program] @ map lit [''mcp'', ''remove''] @ [MCP_SERVER_NAME]))], d)
              else (case su_resolve m d program of None \<Rightarrow> ([], d)
              | Some program' \<Rightarrow>
                  (case su_run m ([program'] @ map lit [''mcp'', ''remove''] @ [MCP_SERVER_NAME]) d of
                     (d', Ended True _ _) \<Rightarrow> ([said t Server_deregistered], d')
                   | (d', _) \<Rightarrow> ([], d')))))"

definition LEGACY_TIMER_LABEL :: rstr where "LEGACY_TIMER_LABEL = lit ''dev.rolepod.brain.consolidate''"

definition legacy_plist :: "path \<Rightarrow> path" where
  "legacy_plist home = home @ map lit [''Library'', ''LaunchAgents''] @ [LEGACY_TIMER_LABEL @ lit ''.plist'']"

text \<open>\<open>unload\<close> asks launchd to drop the job first, under the user id \<open>id -u\<close> prints.\<close>

definition sweep_legacy_timer_in :: "machine \<Rightarrow> path \<Rightarrow> bool \<Rightarrow> bool \<Rightarrow> disk \<Rightarrow> change list \<times> disk" where
  "sweep_legacy_timer_in m home apply' unload d =
     (let plist = legacy_plist home; backstop = lit ''backstop'' in
      if \<not> is_file d plist then ([(backstop, Backstop_hooks)], d)
      else if \<not> apply' then ([(backstop, Backstop_removed False plist)], d)
      else let d1 = (if unload
                     then (case su_run m [lit ''id'', lit ''-u''] d of (d1, r) \<Rightarrow>
                             fst (su_run m [lit ''launchctl'', lit ''bootout'',
                               lit ''gui/'' @ (case r of Ended _ out _ \<Rightarrow> trim out | Not_started \<Rightarrow> lit ''501'') @ [47] @ LEGACY_TIMER_LABEL] d1))
                     else d)
           in ([(backstop, Backstop_removed True plist)], remove_file plist d1))"

section \<open>The plugin file, the server and the template\<close>

definition install_plugin :: "machine \<Rightarrow> target \<Rightarrow> bool \<Rightarrow> disk \<Rightarrow> change list \<times> disk" where
  "install_plugin m t apply' d =
     (if \<not> apply' then ([said t (Plugin_planned (length (tg_events t)))], d)
      else case write_text m (tg_hooks_file t) (opencode_plugin (su_debug m (su_exe m))) d of
        (Unchanged, d') \<Rightarrow> ([said t Plugin_current], d')
      | (Wrote saved, d') \<Rightarrow>
          ((case saved of None \<Rightarrow> [] | Some b \<Rightarrow> [said t (Backed_up b)]) @ [said t Plugin_written], d'))"

text \<open>Codex: our raw entries go, whatever the container holds.\<close>

definition defer_to_plugin_flow :: "machine \<Rightarrow> target \<Rightarrow> bool \<Rightarrow> disk \<Rightarrow> setup_error + change list \<times> disk" where
  "defer_to_plugin_flow m t apply' d =
     (case read_json m d (tg_hooks_file t) of Inl e \<Rightarrow> Inl e
      | Inr v \<Rightarrow>
          (let (removed, root) =
             (case (as_obj v, Option.bind (get_key (lit ''hooks'') v) as_obj) of
                (Some kvs, Some hooks) \<Rightarrow>
                  (sum_list (map (\<lambda>(_, es). count_ours es) hooks),
                   JObj (put_key (lit ''hooks'') (JObj (drop_empty (map_values retain_others hooks))) kvs))
              | _ \<Rightarrow> (0, v))
           in Inr ((if removed > 0 then [said t (Raw_removed apply' removed)] else []) @ [said t Use_plugin_flow],
                   if removed > 0 \<and> apply' then snd (write_json m (tg_hooks_file t) root d) else d)))"

definition withdraw_mcp :: "machine \<Rightarrow> target \<Rightarrow> bool \<Rightarrow> disk \<Rightarrow> change list \<times> disk" where
  "withdraw_mcp m t apply' d =
     (case tg_mcp_file t of
        Some p \<Rightarrow>
          if \<not> apply' then ([said t (Server_withdrawn False p)], d)
          else (case read_json m d p of Inl _ \<Rightarrow> ([said t (Server_failed [])], d)
          | Inr root \<Rightarrow>
              if has_server (get_key (lit ''mcpServers'') root)
              then ([said t (Server_withdrawn True p)], snd (write_json m p (change_key (lit ''mcpServers'') without_server root) d))
              else ([said t Server_from_plugin], d))
      | None \<Rightarrow>
          (case tg_register t of None \<Rightarrow> ([said t Server_from_plugin], d)
           | Some (program, _) \<Rightarrow>
               (let call = [program] @ map lit [''mcp'', ''remove'', ''--scope'', ''user''] @ [MCP_SERVER_NAME] in
                if \<not> apply' then ([said t (Server_would_run call)], d)
                else case su_run m call d of
                  (d', Ended _ _ _) \<Rightarrow> ([said t Server_from_plugin], d')
                | (d', Not_started) \<Rightarrow> ([said t (Server_failed program)], d'))))"

definition register_mcp_file :: "machine \<Rightarrow> target \<Rightarrow> path \<Rightarrow> bool \<Rightarrow> disk \<Rightarrow> change list \<times> disk" where
  "register_mcp_file m t p apply' d =
     (if \<not> apply' then ([said t (Server_planned p)], d)
      else case read_json m d p of Inl _ \<Rightarrow> ([said t (Server_failed [])], d)
      | Inr v \<Rightarrow>
          (let root = or_put (lit ''mcpServers'') (JObj []) (case as_obj v of Some kvs \<Rightarrow> kvs | None \<Rightarrow> []) in
           case map_of root (lit ''mcpServers'') of
             Some (JObj servers) \<Rightarrow>
               ([said t (Server_in_file p)],
                snd (write_json m p (JObj (put_key (lit ''mcpServers'')
                  (JObj (put_key MCP_SERVER_NAME (JObj [(lit ''args'', JArr [JStr (lit ''mcp'')]), (lit ''command'', JStr (su_exe m))]) servers)) root)) d))
           | _ \<Rightarrow> ([said t (Server_failed [])], d)))"

definition register_mcp :: "machine \<Rightarrow> target \<Rightarrow> bool \<Rightarrow> disk \<Rightarrow> change list \<times> disk" where
  "register_mcp m t apply' d =
     (if plugin_installed_in m d (tg_kind t) then withdraw_mcp m t apply' d
      else case tg_mcp_file t of Some p \<Rightarrow> register_mcp_file m t p apply' d
      | None \<Rightarrow>
          (case tg_register t of None \<Rightarrow> ([], d)
           | Some (program, args) \<Rightarrow>
               if \<not> apply' then ([said t (Server_would_run (program # args))], d)
               else (case su_run m (program # args) d of
                 (d', Not_started) \<Rightarrow> ([said t (Server_failed program)], d')
               | (d', Ended ok out err) \<Rightarrow>
                   ([said t (if ok then Server_registered
                             else if contains (su_lower m (err @ out)) (lit ''already exists'') then Server_already
                             else Server_failed (trim err))], d'))))"

definition write_config_template :: "machine \<Rightarrow> bool \<Rightarrow> disk \<Rightarrow> change list \<times> disk" where
  "write_config_template m apply' d =
     (case su_config m of None \<Rightarrow> ([], d)
      | Some p \<Rightarrow>
          if path_exists d p then ([], d)
          else ([(lit ''config'', Template_written apply' p)],
                if apply' then write_file p CONFIG_TEMPLATE (case parent p of None \<Rightarrow> d | Some dir \<Rightarrow> create_dir_all dir d) else d))"

section \<open>The two commands\<close>

definition set_up_target :: "machine \<Rightarrow> rstr option \<Rightarrow> bool \<Rightarrow> target \<Rightarrow> disk \<Rightarrow> setup_error + change list \<times> disk" where
  "set_up_target m only apply' t d =
     (if (case only of None \<Rightarrow> False | Some o' \<Rightarrow> o' \<noteq> lit ''all'' \<and> o' \<noteq> agent_as_str (tg_kind t)) then Inr ([], d)
      else if \<not> config_dir_present d t then Inr ([said t Not_installed], d)
      else if \<not> binary_present m d t then Inr ([said t (Binary_missing (tg_binaries t) (parent (tg_hooks_file t)))], d)
      else case (case tg_layout t of
                   Plugin_file \<Rightarrow> Inr (install_plugin m t apply' d)
                 | External \<Rightarrow> defer_to_plugin_flow m t apply' d
                 | _ \<Rightarrow> wire_hooks m t apply' d) of
             Inl e \<Rightarrow> Inl e
           | Inr (cs, d1) \<Rightarrow> (let (cs', d2) = register_mcp m t apply' d1 in Inr (cs @ cs', d2)))"

text \<open>The loop over the targets: an error ends the run, what was written before it stays.\<close>

fun over_targets :: "(target \<Rightarrow> disk \<Rightarrow> setup_error + change list \<times> disk) \<Rightarrow> target list \<Rightarrow> disk
    \<Rightarrow> (setup_error + change list) \<times> disk" where
  "over_targets f [] d = (Inr [], d)"
| "over_targets f (t # ts) d =
     (case f t d of Inl e \<Rightarrow> (Inl e, d)
      | Inr (cs, d1) \<Rightarrow>
          (case over_targets f ts d1 of
             (Inl e, d2) \<Rightarrow> (Inl e, d2)
           | (Inr cs', d2) \<Rightarrow> (Inr (cs @ cs'), d2)))"

definition run_setup :: "machine \<Rightarrow> rstr option \<Rightarrow> bool \<Rightarrow> disk \<Rightarrow> (setup_error + change list) \<times> disk" where
  "run_setup m only apply' d =
     (let ts = targets_in (su_home m) (su_exe m); known = map (\<lambda>t. agent_as_str (tg_kind t)) ts in
      if (case only of None \<Rightarrow> False | Some o' \<Rightarrow> o' \<noteq> lit ''all'' \<and> o' \<notin> set known)
      then (Inl (Unknown_cli (the only) known), d)
      else case over_targets (set_up_target m only apply') ts d of
        (Inl e, d1) \<Rightarrow> (Inl e, d1)
      | (Inr cs, d1) \<Rightarrow>
          (let (cs1, d2) = sweep_legacy_timer_in m (su_home m) apply' True d1;
               (cs2, d3) = write_config_template m apply' d2
           in (Inr (cs @ cs1 @ cs2), d3)))"

definition take_down_target :: "machine \<Rightarrow> bool \<Rightarrow> target \<Rightarrow> disk \<Rightarrow> setup_error + change list \<times> disk" where
  "take_down_target m apply' t d =
     (if \<not> config_dir_present d t then Inr ([], d)
      else case (case tg_layout t of
                   Plugin_file \<Rightarrow>
                     (if is_file d (tg_hooks_file t)
                      then Inr ([said t (Plugin_removed apply')], if apply' then remove_file (tg_hooks_file t) d else d)
                      else Inr ([], d))
                 | External \<Rightarrow> Inr ([said t Remove_plugin_yourself], d)
                 | _ \<Rightarrow> strip_hooks m t apply' d) of
             Inl e \<Rightarrow> Inl e
           | Inr (cs, d1) \<Rightarrow> (let (cs', d2) = strip_mcp m t apply' d1 in Inr (cs @ cs', d2)))"

definition uninstall :: "machine \<Rightarrow> bool \<Rightarrow> disk \<Rightarrow> (setup_error + change list) \<times> disk" where
  "uninstall m apply' d =
     (case over_targets (take_down_target m apply') (targets_in (su_home m) (su_exe m)) d of
        (Inl e, d1) \<Rightarrow> (Inl e, d1)
      | (Inr cs, d1) \<Rightarrow>
          (let (cs1, d2) = sweep_legacy_timer_in m (su_home m) apply' True d1 in (Inr (cs @ cs1), d2)))"

section \<open>What a consolidation run repairs\<close>

definition plugin_text_is_current :: "rstr \<Rightarrow> bool" where
  "plugin_text_is_current text =
     (contains text (lit ''export default'') \<and> contains text (lit ''id: '' @ [34] @ PLUGIN_NAME @ [34]))"

definition plugin_source_is_current :: "disk \<Rightarrow> path \<Rightarrow> bool" where
  "plugin_source_is_current d p = (case read_file d p of None \<Rightarrow> False | Some text \<Rightarrow> plugin_text_is_current text)"

definition plugin_source_delivers :: "disk \<Rightarrow> path \<Rightarrow> bool" where
  "plugin_source_delivers d p = (case read_file d p of None \<Rightarrow> False | Some text \<Rightarrow> contains text (lit ''reads_answer: true''))"

fun heal_targets :: "machine \<Rightarrow> target list \<Rightarrow> disk \<Rightarrow> nat \<times> disk" where
  "heal_targets m [] d = (0, d)"
| "heal_targets m (t # ts) d =
     (let p = tg_hooks_file t in
      if tg_layout t \<noteq> Plugin_file \<or> \<not> is_file d p \<or> plugin_source_is_current d p \<and> plugin_source_delivers d p
      then heal_targets m ts d
      else let (_, d1) = install_plugin m t True d; (n, d2) = heal_targets m ts d1 in (n + 1, d2))"

definition heal_owned_files :: "machine \<Rightarrow> path \<Rightarrow> bool \<Rightarrow> disk \<Rightarrow> nat \<times> disk" where
  "heal_owned_files m home unload d =
     (let (healed, d1) = heal_targets m (targets_in home (su_exe m)) d in
      if is_file d1 (legacy_plist home) then (healed + 1, snd (sweep_legacy_timer_in m home True unload d1))
      else (healed, d1))"

end
