(* ===== verification/Json_Text.thy ===== *)
theory Json_Text
  imports Events
begin

text \<open>
  What \<open>serde_json\<close> gives back: objects are ordered by key, without duplicates. And a printer and a
  parser that read each other back on such values, the concrete pair the witnesses run on.
\<close>

definition keys_ok :: "(rstr \<times> json) list \<Rightarrow> bool" where
  "keys_ok kvs = sorted_wrt (<) (map fst kvs)"

fun json_ok :: "json \<Rightarrow> bool" where
  "json_ok (JArr vs) = list_all json_ok vs"
| "json_ok (JObj kvs) = (keys_ok kvs \<and> list_all (\<lambda>kv. json_ok (snd kv)) kvs)"
| "json_ok _ = True"

text \<open>
  A printer and a parser that read each other back, to run the properties on: a tag for the kind of
  value, a 1 before each element, and 0 at the end of a string, an array or an object.
\<close>

definition print_text :: "rstr \<Rightarrow> rstr" where "print_text s = map Suc s @ [0]"

fun print_tree :: "json \<Rightarrow> rstr" where
  "print_tree JNull = [65]"
| "print_tree (JBool b) = [66, if b then 1 else 0]"
| "print_tree (JNum s) = 67 # print_text s"
| "print_tree (JStr s) = 68 # print_text s"
| "print_tree (JArr vs) = 69 # concat (map (\<lambda>v. 1 # print_tree v) vs) @ [0]"
| "print_tree (JObj kvs) = 70 # concat (map (\<lambda>kv. 1 # print_text (fst kv) @ print_tree (snd kv)) kvs) @ [0]"

fun parse_text :: "rstr \<Rightarrow> rstr \<times> rstr" where
  "parse_text (Suc c # t) = (let (s, r) = parse_text t in (c # s, r))"
| "parse_text (0 # t) = ([], t)"
| "parse_text [] = ([], [])"

fun parse_tree :: "nat \<Rightarrow> rstr \<Rightarrow> (json \<times> rstr) option"
  and parse_elems :: "nat \<Rightarrow> rstr \<Rightarrow> (json list \<times> rstr) option"
  and parse_fields :: "nat \<Rightarrow> rstr \<Rightarrow> ((rstr \<times> json) list \<times> rstr) option"
where
  "parse_tree 0 t = None"
| "parse_tree (Suc n) t =
     (case t of [] \<Rightarrow> None
      | c # r \<Rightarrow>
          if c = 65 then Some (JNull, r)
          else if c = 66 then (case r of [] \<Rightarrow> None | b # r' \<Rightarrow> Some (JBool (b = 1), r'))
          else if c = 67 then Some (case parse_text r of (s, r') \<Rightarrow> (JNum s, r'))
          else if c = 68 then Some (case parse_text r of (s, r') \<Rightarrow> (JStr s, r'))
          else if c = 69 then map_option (\<lambda>(vs, r'). (JArr vs, r')) (parse_elems n r)
          else map_option (\<lambda>(kvs, r'). (JObj kvs, r')) (parse_fields n r))"
| "parse_elems 0 t = None"
| "parse_elems (Suc n) t =
     (case t of [] \<Rightarrow> None
      | c # r \<Rightarrow> if c = 0 then Some ([], r)
          else (case parse_tree n r of None \<Rightarrow> None
                | Some (v, r') \<Rightarrow> map_option (\<lambda>(vs, r2). (v # vs, r2)) (parse_elems n r')))"
| "parse_fields 0 t = None"
| "parse_fields (Suc n) t =
     (case t of [] \<Rightarrow> None
      | c # r \<Rightarrow> if c = 0 then Some ([], r)
          else (case parse_text r of (k, r1) \<Rightarrow>
            (case parse_tree n r1 of None \<Rightarrow> None
             | Some (v, r') \<Rightarrow> map_option (\<lambda>(kvs, r2). ((k, v) # kvs, r2)) (parse_fields n r'))))"

definition tree_parse :: "rstr \<Rightarrow> json option" where
  "tree_parse t = (case parse_tree (length t) t of None \<Rightarrow> None | Some (v, r) \<Rightarrow> if json_ok v then Some v else None)"

lemma parse_print_text [simp]: "parse_text (print_text s @ r) = (s, r)"
  by (induction s) (simp_all add: print_text_def)

lemma parse_print_elems:
  assumes "\<And>v n r. v \<in> set vs \<Longrightarrow> length (print_tree v) \<le> n \<Longrightarrow> parse_tree n (print_tree v @ r) = Some (v, r)"
    and "length (concat (map (\<lambda>v. 1 # print_tree v) vs)) < n"
  shows "parse_elems n (concat (map (\<lambda>v. 1 # print_tree v) vs) @ 0 # r) = Some (vs, r)"
  using assms
proof (induction vs arbitrary: n)
  case Nil then show ?case by (cases n) simp_all
next
  case (Cons v vs)
  then obtain n' where n: "n = Suc n'" by (cases n) simp_all
  have "parse_tree n' (print_tree v @ concat (map (\<lambda>v. 1 # print_tree v) vs) @ 0 # r) =
      Some (v, concat (map (\<lambda>v. 1 # print_tree v) vs) @ 0 # r)"
    using Cons.prems n by (intro Cons.prems(1)) simp_all
  moreover have "parse_elems n' (concat (map (\<lambda>v. 1 # print_tree v) vs) @ 0 # r) = Some (vs, r)"
    using Cons.prems n by (intro Cons.IH) simp_all
  ultimately show ?case by (simp add: n)
qed

lemma parse_print_fields:
  assumes "\<And>kv n r. kv \<in> set kvs \<Longrightarrow> length (print_tree (snd kv)) \<le> n \<Longrightarrow> parse_tree n (print_tree (snd kv) @ r) = Some (snd kv, r)"
    and "length (concat (map (\<lambda>kv. 1 # print_text (fst kv) @ print_tree (snd kv)) kvs)) < n"
  shows "parse_fields n (concat (map (\<lambda>kv. 1 # print_text (fst kv) @ print_tree (snd kv)) kvs) @ 0 # r) = Some (kvs, r)"
  using assms
proof (induction kvs arbitrary: n)
  case Nil then show ?case by (cases n) simp_all
next
  case (Cons kv kvs)
  let ?rest = "concat (map (\<lambda>kv. 1 # print_text (fst kv) @ print_tree (snd kv)) kvs) @ 0 # r"
  obtain n' where n: "n = Suc n'" using Cons.prems(2) by (cases n) simp_all
  have "parse_tree n' (print_tree (snd kv) @ ?rest) = Some (snd kv, ?rest)"
    using Cons.prems n by (intro Cons.prems(1)) simp_all
  moreover have "parse_fields n' ?rest = Some (kvs, r)"
    using Cons.prems n by (intro Cons.IH) simp_all
  ultimately show ?case by (simp add: n)
qed

lemma print_length: "0 < length (print_tree v)"
  by (cases v) simp_all

lemma parse_print_tree: "length (print_tree v) \<le> n \<Longrightarrow> parse_tree n (print_tree v @ r) = Some (v, r)"
proof (induction v arbitrary: n r)
  case (JArr vs)
  then obtain n' where n: "n = Suc n'" by (cases n) simp_all
  have "parse_elems n' (concat (map (\<lambda>v. 1 # print_tree v) vs) @ 0 # r) = Some (vs, r)"
    using JArr.prems n by (intro parse_print_elems JArr.IH) simp_all
  then show ?case by (simp add: n)
next
  case (JObj kvs)
  then obtain n' where n: "n = Suc n'" by (cases n) simp_all
  have "parse_tree k (print_tree (snd kv) @ r') = Some (snd kv, r')" if "kv \<in> set kvs" "length (print_tree (snd kv)) \<le> k" for kv k r'
    using JObj.IH [of kv "snd kv"] that by (simp add: snds.intros prod_set_defs)
  then have "parse_fields n' (concat (map (\<lambda>kv. 1 # print_text (fst kv) @ print_tree (snd kv)) kvs) @ 0 # r) = Some (kvs, r)"
    using JObj.prems n by (intro parse_print_fields) simp_all
  then show ?case by (simp add: n)
qed (auto simp: Suc_le_eq elim!: less_natE)

lemma sample_parses_back: "json_ok v \<Longrightarrow> tree_parse (print_tree v @ [10]) = Some v"
  using parse_print_tree [of v "length (print_tree v @ [10])" "[10]"]
  by (simp add: tree_parse_def del: parse_tree.simps)

lemma tree_parse_ok: "tree_parse t = Some v \<Longrightarrow> json_ok v"
  by (auto simp: tree_parse_def split: option.splits prod.splits if_splits)

lemma trim_keeps: "\<not> is_ws c \<Longrightarrow> trim (c # s) \<noteq> []"
  by (auto simp: trim_defs dropWhile_eq_Nil_conv)

lemma sample_print_visible: "trim (print_tree v @ [10]) \<noteq> []"
proof -
  obtain c s where "print_tree v @ [10] = c # s" "c \<in> {65, 66, 67, 68, 69, 70}" by (cases v) auto
  then show ?thesis using trim_keeps [of c s] by (auto simp: is_ws_def)
qed

end
