(* ===== verification/Setup_Wire.thy ===== *)
theory Setup_Wire
  imports Setup Json_Text
begin

text \<open>
  What the two commands of \<open>src/src/setup.rs\<close> promise: what wiring a configuration changes and what it
  leaves alone, that a second run changes nothing, that uninstalling takes out what setup put in,
  which entries are recognised as ours, that a repair settles, and that a backup keeps the old text.
\<close>

section \<open>Ordered objects\<close>

lemma map_of_put [simp]: "map_of (put_key k v kvs) = (map_of kvs)(k \<mapsto> v)"
  by (induction k v kvs rule: put_key.induct) (auto simp: fun_eq_iff)

lemma keys_put: "set (map fst (put_key k v kvs)) = insert k (set (map fst kvs))"
  by (induction k v kvs rule: put_key.induct) auto

lemma keys_ok_put: "keys_ok kvs \<Longrightarrow> keys_ok (put_key k v kvs)"
proof (induction k v kvs rule: put_key.induct)
  case (2 k v k' v' kvs)
  have keys: "\<forall>x\<in>set (map fst (put_key k v kvs)). k' < x" if "k' < k"
    unfolding keys_put using 2(2) that by (auto simp: keys_ok_def)
  show ?case
  proof (cases "k = k' \<or> k < k'")
    case True
    then show ?thesis using 2(2) by (auto simp: keys_ok_def)
  next
    case False
    then have "k' < k" by auto
    then show ?thesis using 2(1) 2(2) False keys by (auto simp: keys_ok_def)
  qed
qed (simp add: keys_ok_def)

lemma keys_ok_or_put: "keys_ok kvs \<Longrightarrow> keys_ok (or_put k v kvs)"
  by (simp add: or_put_def keys_ok_put)

lemma map_of_or_put [simp]: "map_of (or_put k v kvs) k' = (if k' = k \<and> map_of kvs k = None then Some v else map_of kvs k')"
  by (simp add: or_put_def)

lemma keys_ok_filter: "keys_ok kvs \<Longrightarrow> keys_ok (filter P kvs)"
  by (induction kvs) (auto simp: keys_ok_def)

lemma keys_ok_map: "keys_ok (map (\<lambda>(k, v). (k, f k v)) kvs) = keys_ok kvs"
  by (simp add: keys_ok_def comp_def case_prod_beta)

lemma map_of_keep:
  "keys_ok kvs \<Longrightarrow> map_of (filter (\<lambda>(k, v). P v) (map (\<lambda>(k, v). (k, f k v)) kvs)) k =
     (case map_of kvs k of None \<Rightarrow> None | Some v \<Rightarrow> if P (f k v) then Some (f k v) else None)"
proof (induction kvs)
  case (Cons kv kvs)
  have "map_of kvs (fst kv) = None" using Cons.prems by (auto simp: keys_ok_def map_of_eq_None_iff)
  moreover have "keys_ok kvs" using Cons.prems by (simp add: keys_ok_def)
  ultimately show ?case using Cons.IH by (auto simp: case_prod_beta)
qed simp

lemma map_of_del: "map_of (del_key k kvs) k' = (if k' = k then None else map_of kvs k')"
  by (induction kvs) (auto simp: del_key_def)

text \<open>An ordered object is its map.\<close>

lemma keys_ok_eq:
  assumes "keys_ok a" "keys_ok b" "map_of a = map_of b"
  shows "a = b"
proof -
  have d: "distinct (map fst a)" "distinct (map fst b)" "sorted (map fst a)" "sorted (map fst b)"
    using assms(1,2) by (auto simp: keys_ok_def strict_sorted_iff)
  then have "set a = set b" using assms(3) by (metis graph_map_of_if_distinct_dom)
  then show ?thesis using d
    by (intro map_sorted_distinct_set_unique [where f = fst]) (auto simp: inj_on_def distinct_map)
qed

lemma put_key_same: "keys_ok kvs \<Longrightarrow> map_of kvs k = Some v \<Longrightarrow> put_key k v kvs = kvs"
  by (rule keys_ok_eq) (auto simp: keys_ok_put)

lemma json_ok_obj: "json_ok (JObj kvs) \<Longrightarrow> map_of kvs k = Some v \<Longrightarrow> json_ok v"
  by (auto simp: list_all_iff dest!: map_of_SomeD)

lemma keys_ok_obj: "json_ok (JObj kvs) \<Longrightarrow> keys_ok kvs"
  by simp

lemma values_put: "set (put_key k v kvs) \<subseteq> insert (k, v) (set kvs)"
  by (induction k v kvs rule: put_key.induct) auto

lemma json_ok_put: "json_ok (JObj kvs) \<Longrightarrow> json_ok v \<Longrightarrow> json_ok (JObj (put_key k v kvs))"
  using values_put [of k v kvs] by (auto simp: keys_ok_put list_all_iff)

lemma json_ok_or_put: "json_ok (JObj kvs) \<Longrightarrow> json_ok v \<Longrightarrow> json_ok (JObj (or_put k v kvs))"
  by (simp only: or_put_def json_ok_put split: if_split) simp

section \<open>What one run writes\<close>

definition others_of :: "json option \<Rightarrow> json list" where
  "others_of x = (case x of Some (JArr es) \<Rightarrow> filter (\<lambda>e. \<not> is_ours e) es | _ \<Rightarrow> [])"

definition ours_of :: "json option \<Rightarrow> json list" where
  "ours_of x = (case x of Some (JArr es) \<Rightarrow> filter is_ours es | _ \<Rightarrow> [])"

definition kept :: "json option \<Rightarrow> json option" where
  "kept x = (case x of None \<Rightarrow> None | Some v \<Rightarrow> if retain_others v = JArr [] then None else Some (retain_others v))"

lemma sweep_map:
  "keys_ok kvs \<Longrightarrow> map_of (snd (sweep_events t kvs)) ev =
     (if ev \<in> set (tg_events t) then (if map_of kvs ev = Some (JArr []) then None else map_of kvs ev) else kept (map_of kvs ev))"
  using map_of_keep [of kvs "\<lambda>v. v \<noteq> JArr []" "\<lambda>k v. if k \<in> set (tg_events t) then v else retain_others v" ev]
  by (auto simp: sweep_events_def drop_empty_def kept_def split: option.split)

lemma sweep_keys: "keys_ok kvs \<Longrightarrow> keys_ok (snd (sweep_events t kvs))"
  by (simp add: sweep_events_def drop_empty_def keys_ok_filter keys_ok_map)

lemma wire_events_spec:
  "wire_events entry p evs kvs r = Inr (kvs', r') \<Longrightarrow> distinct evs \<Longrightarrow>
   (keys_ok kvs \<longrightarrow> keys_ok kvs') \<and>
   (\<forall>ev. map_of kvs' ev = (if ev \<in> set evs then Some (JArr (others_of (map_of kvs ev) @ [entry ev])) else map_of kvs ev)) \<and>
   r' = r + (\<Sum>ev\<leftarrow>evs. length (ours_of (map_of kvs ev))) \<and>
   (\<forall>ev\<in>set evs. map_of kvs ev = None \<or> (\<exists>es. map_of kvs ev = Some (JArr es)))"
proof (induction entry p evs kvs r rule: wire_events.induct)
  case (2 entry p ev evs kvs r)
  let ?kvs = "or_put ev (JArr []) kvs"
  obtain es where es: "map_of ?kvs ev = Some (JArr es)"
    using 2(2) by (auto simp: Let_def split: option.splits json.splits)
  let ?next = "put_key ev (JArr (filter (\<lambda>e. \<not> is_ours e) es @ [entry ev])) ?kvs"
  have run: "wire_events entry p evs ?next (r + length (filter is_ours es)) = Inr (kvs', r')"
    using 2(2) by (simp add: es Let_def del: map_of_or_put)
  have fields: "others_of (map_of kvs ev) = filter (\<lambda>e. \<not> is_ours e) es" "ours_of (map_of kvs ev) = filter is_ours es"
    using es by (auto simp: others_of_def ours_of_def split: if_splits)
  have other: "map_of ?next e' = map_of kvs e'" if "e' \<noteq> ev" for e' using that by simp
  have d: "ev \<notin> set evs" "distinct evs" using 2(3) by simp_all
  from 2(1) [OF refl es refl run d(2)] have IH: "keys_ok ?next \<longrightarrow> keys_ok kvs'"
    "\<And>e'. map_of kvs' e' = (if e' \<in> set evs then Some (JArr (others_of (map_of ?next e') @ [entry e'])) else map_of ?next e')"
    "r' = r + length (filter is_ours es) + (\<Sum>e'\<leftarrow>evs. length (ours_of (map_of ?next e')))"
    "\<forall>e'\<in>set evs. map_of ?next e' = None \<or> (\<exists>es. map_of ?next e' = Some (JArr es))" by blast+
  have "\<forall>e'\<in>set (ev # evs). map_of kvs e' = None \<or> (\<exists>es. map_of kvs e' = Some (JArr es))"
    using IH(4) other d(1) es by (auto split: if_splits)
  moreover
  have "(\<Sum>e'\<leftarrow>evs. length (ours_of (map_of ?next e'))) = (\<Sum>e'\<leftarrow>evs. length (ours_of (map_of kvs e')))"
    using d(1) other by (intro arg_cong [where f = sum_list] map_cong) auto
  then have "r' = r + (\<Sum>e'\<leftarrow>ev # evs. length (ours_of (map_of kvs e')))" using IH(3) fields(2) by simp
  moreover have "map_of kvs' e' = (if e' \<in> set (ev # evs) then Some (JArr (others_of (map_of kvs e') @ [entry e'])) else map_of kvs e')" for e'
    using IH(2) [of e'] other [of e'] d(1) fields(1) by (cases "e' = ev") auto
  ultimately show ?case using IH(1) keys_ok_put keys_ok_or_put by blast
qed simp

lemma wire_events_ok:
  "distinct evs \<Longrightarrow> \<forall>ev\<in>set evs. map_of kvs ev = None \<or> (\<exists>es. map_of kvs ev = Some (JArr es)) \<Longrightarrow>
   \<exists>kvs' r'. wire_events entry p evs kvs r = Inr (kvs', r')"
proof (induction entry p evs kvs r rule: wire_events.induct)
  case (2 entry p ev evs kvs r)
  obtain es where es: "map_of (or_put ev (JArr []) kvs) ev = Some (JArr es)" using 2(3) by auto
  have "\<forall>e'\<in>set evs. map_of (put_key ev (JArr (filter (\<lambda>e. \<not> is_ours e) es @ [entry ev])) (or_put ev (JArr []) kvs)) e' = None \<or>
      (\<exists>es'. map_of (put_key ev (JArr (filter (\<lambda>e. \<not> is_ours e) es @ [entry ev])) (or_put ev (JArr []) kvs)) e' = Some (JArr es'))"
    using 2(2,3) by auto
  then show ?case using 2(1) [OF refl es refl] 2(2) es by (simp add: Let_def del: map_of_or_put)
qed simp

text \<open>The entries at one event, before or after.\<close>

definition fields_of :: "json \<Rightarrow> (rstr \<times> json) list" where
  "fields_of v = (case as_obj v of Some kvs \<Rightarrow> kvs | None \<Rightarrow> [])"

definition hooks_at :: "target \<Rightarrow> json \<Rightarrow> (rstr \<times> json) list" where
  "hooks_at t v = (case map_of (fields_of v) (hooks_key t) of Some (JObj hooks) \<Rightarrow> hooks | _ \<Rightarrow> [])"

definition entries_at :: "target \<Rightarrow> json \<Rightarrow> rstr \<Rightarrow> json option" where
  "entries_at t v ev = map_of (hooks_at t v) ev"

lemma fields_ok: "json_ok v \<Longrightarrow> json_ok (JObj (fields_of v))"
  by (cases v) (auto simp: fields_of_def as_obj_def keys_ok_def)

lemma hooks_ok: "json_ok v \<Longrightarrow> json_ok (JObj (hooks_at t v))"
  using json_ok_obj [OF fields_ok, of v "hooks_key t"]
  by (auto simp: hooks_at_def keys_ok_def split: option.splits json.splits)

lemma get_key_fields: "get_key k v = map_of (fields_of v) k"
  by (cases v) (simp_all add: get_key_def fields_of_def as_obj_def)

lemma hooks_key_version: "hooks_key t \<noteq> lit ''version''"
  by (simp add: hooks_key_def MCP_SERVER_NAME_def)

lemma wire_json_spec:
  assumes "distinct (tg_events t)" "json_ok v" "wire_json windows t exe v = Inr (v', replaced, swept)"
  shows "\<exists>kvs' hooks'. v' = JObj kvs' \<and> keys_ok kvs' \<and> map_of kvs' (hooks_key t) = Some (JObj hooks') \<and> keys_ok hooks' \<and>
    (\<forall>k. k \<noteq> hooks_key t \<longrightarrow> map_of kvs' k =
       (if tg_layout t = Flat \<and> k = lit ''version'' \<and> get_key k v = None then Some (JNum (lit ''1'')) else get_key k v)) \<and>
    (\<forall>ev. map_of hooks' ev = (if ev \<in> set (tg_events t)
       then Some (JArr (others_of (entries_at t v ev) @ [entry_for windows t exe ev])) else kept (entries_at t v ev))) \<and>
    replaced = (\<Sum>ev\<leftarrow>tg_events t. length (ours_of (entries_at t v ev))) \<and>
    (\<forall>ev\<in>set (tg_events t). entries_at t v ev = None \<or> (\<exists>es. entries_at t v ev = Some (JArr es)))"
proof -
  let ?key = "hooks_key t" and ?old = "fields_of v"
  define root where "root = or_put ?key (JObj []) ?old"
  obtain hooks where hooks: "map_of root ?key = Some (JObj hooks)"
    using assms(3) by (auto simp: wire_json_def Let_def root_def fields_of_def split: option.splits json.splits)
  have at: "hooks = hooks_at t v" using hooks by (auto simp: root_def hooks_at_def split: if_splits)
  have ok: "keys_ok root" "keys_ok hooks"
    using fields_ok [OF assms(2)] hooks_ok [OF assms(2), of t] keys_ok_or_put [of ?old ?key "JObj []"] by (simp_all add: root_def at)
  obtain hooks1 where s: "sweep_events t hooks = (swept, hooks1)"
    using assms(3) hooks
    by (auto simp: wire_json_def Let_def root_def fields_of_def split: option.splits json.splits prod.splits sum.splits)
  obtain hooks2 where w: "wire_events (entry_for windows t exe) (tg_hooks_file t) (tg_events t) hooks1 0 = Inr (hooks2, replaced)"
    and v': "v' = JObj (if tg_layout t = Flat then or_put (lit ''version'') (JNum (lit ''1'')) (put_key ?key (JObj hooks2) root)
                   else put_key ?key (JObj hooks2) root)"
    using assms(3) hooks s
    by (auto simp: wire_json_def Let_def root_def fields_of_def split: option.splits json.splits prod.splits sum.splits if_splits)
  have h1: "keys_ok hooks1" "\<And>ev. map_of hooks1 ev =
     (if ev \<in> set (tg_events t) then (if map_of hooks ev = Some (JArr []) then None else map_of hooks ev) else kept (map_of hooks ev))"
    using sweep_keys [OF ok(2), of t] sweep_map [OF ok(2), of t] by (simp_all add: s)
  have same: "others_of (map_of hooks1 ev) = others_of (map_of hooks ev)" "ours_of (map_of hooks1 ev) = ours_of (map_of hooks ev)"
    if "ev \<in> set (tg_events t)" for ev
    using h1(2) [of ev] that by (auto simp: others_of_def ours_of_def)
  note e = wire_events_spec [OF w assms(1)]
  have "replaced = (\<Sum>ev\<leftarrow>tg_events t. length (ours_of (entries_at t v ev)))"
    using e same by (simp add: entries_at_def at cong: map_cong)
  moreover have "map_of hooks2 ev = (if ev \<in> set (tg_events t)
       then Some (JArr (others_of (entries_at t v ev) @ [entry_for windows t exe ev])) else kept (entries_at t v ev))" for ev
    using e same [of ev] h1(2) [of ev] by (simp add: entries_at_def at)
  moreover have "keys_ok hooks2" using e h1(1) by blast
  moreover have "entries_at t v ev = None \<or> (\<exists>es. entries_at t v ev = Some (JArr es))" if "ev \<in> set (tg_events t)" for ev
  proof -
    have "map_of hooks1 ev = None \<or> (\<exists>es. map_of hooks1 ev = Some (JArr es))" using e that by blast
    then show ?thesis using h1(2) [of ev] that by (simp add: entries_at_def at split: if_splits)
  qed
  moreover define kvs' where "kvs' = (if tg_layout t = Flat then or_put (lit ''version'') (JNum (lit ''1'')) (put_key ?key (JObj hooks2) root)
                   else put_key ?key (JObj hooks2) root)"
  moreover have "keys_ok kvs'" using ok(1) by (simp add: kvs'_def keys_ok_or_put keys_ok_put)
  moreover have "map_of kvs' ?key = Some (JObj hooks2)" using hooks_key_version [of t] by (simp add: kvs'_def)
  moreover have "map_of kvs' k = (if tg_layout t = Flat \<and> k = lit ''version'' \<and> get_key k v = None then Some (JNum (lit ''1'')) else get_key k v)"
    if "k \<noteq> ?key" for k
    using that hooks_key_version [of t] by (auto simp: kvs'_def root_def get_key_fields)
  ultimately show ?thesis using v' by (intro exI [of _ kvs'] exI [of _ hooks2] conjI allI ballI impI) simp_all
qed

section \<open>A second run\<close>

definition recognised :: "bool \<Rightarrow> target \<Rightarrow> rstr \<Rightarrow> bool" where
  "recognised windows t exe = list_all (\<lambda>ev. is_ours (entry_for windows t exe ev)) (tg_events t)"

lemma parts_of_filter [simp]:
  "others_of (Some (JArr (others_of x @ [e]))) = others_of x @ (if is_ours e then [] else [e])"
  "ours_of (Some (JArr (others_of x @ [e]))) = (if is_ours e then [e] else [])"
  by (auto simp: others_of_def ours_of_def split: option.split json.split)

lemma parts_of_kept [simp]: "others_of (kept x) = others_of x" "ours_of (kept x) = []"
  by (auto simp: others_of_def ours_of_def kept_def retain_others_def split: option.split json.split)

lemma kept_kept [simp]: "kept (kept x) = kept x"
  by (auto simp: kept_def retain_others_def split: option.split json.split)

lemma json_ok_map:
  assumes "keys_ok kvs" "\<And>k v. map_of kvs k = Some v \<Longrightarrow> json_ok v"
  shows "json_ok (JObj kvs)"
proof -
  have "distinct (map fst kvs)" using assms(1) by (simp add: keys_ok_def strict_sorted_iff)
  then show ?thesis using assms by (auto simp: list_all_iff)
qed

lemma json_ok_handler: "json_ok (handler_for windows t exe ev command timeout)"
  by (simp add: handler_for_def Let_def keys_ok_def lit_def)

lemma json_ok_entry: "json_ok (entry_for windows t exe ev)"
  using json_ok_handler by (simp add: entry_for_def Let_def keys_ok_def lit_def split: option.split)

lemma json_ok_others: "(\<And>v. x = Some v \<Longrightarrow> json_ok v) \<Longrightarrow> list_all json_ok (others_of x)"
  by (auto simp: others_of_def list_all_iff split: option.splits json.splits)

lemma json_ok_kept: "(\<And>v. x = Some v \<Longrightarrow> json_ok v) \<Longrightarrow> kept x = Some w \<Longrightarrow> json_ok w"
  by (auto simp: kept_def retain_others_def list_all_iff split: option.splits json.splits if_splits)

lemma wire_json_ok:
  assumes "distinct (tg_events t)" "json_ok v" "wire_json windows t exe v = Inr (v', replaced, swept)"
  shows "json_ok v'"
proof -
  obtain kvs' hooks' where w: "v' = JObj kvs'" "keys_ok kvs'" "map_of kvs' (hooks_key t) = Some (JObj hooks')" "keys_ok hooks'"
    and rest: "\<forall>k. k \<noteq> hooks_key t \<longrightarrow> map_of kvs' k =
       (if tg_layout t = Flat \<and> k = lit ''version'' \<and> get_key k v = None then Some (JNum (lit ''1'')) else get_key k v)"
    and at: "\<forall>ev. map_of hooks' ev = (if ev \<in> set (tg_events t)
       then Some (JArr (others_of (entries_at t v ev) @ [entry_for windows t exe ev])) else kept (entries_at t v ev))"
    using wire_json_spec [OF assms] by blast
  have old: "entries_at t v ev = Some x \<Longrightarrow> json_ok x" for ev x
    using json_ok_obj [OF hooks_ok [OF assms(2)]] by (simp add: entries_at_def)
  have "json_ok (JObj hooks')"
  proof (rule json_ok_map [OF w(4)])
    fix ev x assume "map_of hooks' ev = Some x"
    then show "json_ok x" using at old json_ok_others [of "entries_at t v ev"] json_ok_kept [of "entries_at t v ev" x] json_ok_entry
      by (auto split: if_splits)
  qed
  then have "json_ok x" if "map_of kvs' k = Some x" for k x
    using that w(3) rest json_ok_obj [OF fields_ok [OF assms(2)]] by (cases "k = hooks_key t") (auto simp: get_key_fields split: if_splits)
  then show ?thesis unfolding w(1) by (intro json_ok_map w(2))
qed

lemma entries_at_wired:
  "map_of kvs (hooks_key t) = Some (JObj hooks) \<Longrightarrow> entries_at t (JObj kvs) ev = map_of hooks ev"
  by (simp add: entries_at_def hooks_at_def fields_of_def as_obj_def)


lemma wire_json_total:
  assumes "distinct (tg_events t)" "v = JObj kvs" "map_of kvs (hooks_key t) = Some (JObj hooks)" "keys_ok hooks"
    and "\<forall>ev\<in>set (tg_events t). \<exists>es. map_of hooks ev = Some (JArr es)"
  shows "\<exists>v' replaced. wire_json windows t exe v = Inr (v', replaced, fst (sweep_events t hooks))"
proof -
  obtain swept hooks1 where s: "sweep_events t hooks = (swept, hooks1)" by fastforce
  have "\<forall>ev\<in>set (tg_events t). map_of hooks1 ev = None \<or> (\<exists>es. map_of hooks1 ev = Some (JArr es))"
    using sweep_map [OF assms(4), of t] assms(5) by (auto simp: s)
  from wire_events_ok [OF assms(1) this] obtain hooks2 r where
    "wire_events (entry_for windows t exe) (tg_hooks_file t) (tg_events t) hooks1 0 = Inr (hooks2, r)" by blast
  then show ?thesis using assms(2,3) s by (simp add: wire_json_def as_obj_def Let_def or_put_def)
qed

lemma wire_json_again:
  assumes "distinct (tg_events t)" "json_ok v" "recognised windows t exe"
    and "wire_json windows t exe v = Inr (v', replaced, swept)"
  shows "\<exists>n. wire_json windows t exe v' = Inr (v', n, [])"
proof -
  obtain kvs' hooks' where w: "v' = JObj kvs'" "keys_ok kvs'" "map_of kvs' (hooks_key t) = Some (JObj hooks')" "keys_ok hooks'"
    and rest: "\<forall>k. k \<noteq> hooks_key t \<longrightarrow> map_of kvs' k =
       (if tg_layout t = Flat \<and> k = lit ''version'' \<and> get_key k v = None then Some (JNum (lit ''1'')) else get_key k v)"
    and at: "\<forall>ev. map_of hooks' ev = (if ev \<in> set (tg_events t)
       then Some (JArr (others_of (entries_at t v ev) @ [entry_for windows t exe ev])) else kept (entries_at t v ev))"
    using wire_json_spec [OF assms(1,2,4)] by blast
  have ours: "is_ours (entry_for windows t exe ev)" if "ev \<in> set (tg_events t)" for ev
    using assms(3) that by (simp add: recognised_def list_all_iff)
  have e: "entries_at t v' ev = map_of hooks' ev" for ev using w by (simp add: entries_at_wired)
  obtain v'' n where again: "wire_json windows t exe v' = Inr (v'', n, fst (sweep_events t hooks'))"
    using wire_json_total [OF assms(1) w(1,3,4), of windows exe] at by auto
  obtain kvs2 hooks2 where w2: "v'' = JObj kvs2" "keys_ok kvs2" "map_of kvs2 (hooks_key t) = Some (JObj hooks2)" "keys_ok hooks2"
    and rest2: "\<forall>k. k \<noteq> hooks_key t \<longrightarrow> map_of kvs2 k =
       (if tg_layout t = Flat \<and> k = lit ''version'' \<and> get_key k v' = None then Some (JNum (lit ''1'')) else get_key k v')"
    and at2: "\<forall>ev. map_of hooks2 ev = (if ev \<in> set (tg_events t)
       then Some (JArr (others_of (entries_at t v' ev) @ [entry_for windows t exe ev])) else kept (entries_at t v' ev))"
    using wire_json_spec [OF assms(1) wire_json_ok [OF assms(1,2,4)] again] by blast
  have "map_of hooks2 ev = map_of hooks' ev" for ev
    using at2 at ours by (simp add: e)
  then have "hooks2 = hooks'" by (intro keys_ok_eq w(4) w2(4)) auto
  moreover have "get_key k v' = map_of kvs' k" for k by (simp add: w(1) get_key_def)
  ultimately have "map_of kvs2 k = map_of kvs' k" for k
    using rest rest2 w(3) w2(3) by (cases "k = hooks_key t") auto
  then have "v'' = v'" unfolding w(1) w2(1) by (intro arg_cong [where f = JObj] keys_ok_eq w(2) w2(2)) auto
  moreover have "count_ours x = 0" if "(k, x) \<in> set hooks'" "k \<notin> set (tg_events t)" for k x
  proof -
    have "map_of hooks' k = Some x" using that(1) w(4) by (simp add: keys_ok_def strict_sorted_iff)
    then have "ours_of (Some x) = []" using at that(2) parts_of_kept(2) by metis
    then show ?thesis by (auto simp: ours_of_def count_ours_def split: json.split)
  qed
  then have "fst (sweep_events t hooks') = []" by (auto simp: sweep_events_def filter_empty_conv)
  ultimately show ?thesis using again by simp
qed

section \<open>The file\<close>

lemma read_write [simp]: "read_file (write_file p text d) q = (if q = p then Some text else read_file d q)"
  by (simp add: read_file_def write_file_def)

lemma read_create_dir [simp]: "read_file (create_dir_all p d) q = read_file d q"
  by (simp add: read_file_def create_dir_all_def)

lemma read_remove [simp]: "read_file (remove_file p d) q = (if q = p then None else read_file d q)"
proof -
  have "map_of (filter (\<lambda>(q, _). q \<noteq> p) fs) q = (if q = p then None else map_of fs q)" for fs :: "(path \<times> rstr) list"
    by (induction fs) auto
  then show ?thesis by (simp add: read_file_def remove_file_def)
qed

lemma read_removes: "read_file (foldl (\<lambda>d q. remove_file q d) d qs) p = (if p \<in> set qs then None else read_file d p)"
  by (induction qs arbitrary: d) auto

lemma backups_named:
  assumes "q \<in> set (backups_of d p)"
  obtains rest where "file_name q = Some (backup_prefix p @ rest)" "parent q = parent p" "is_file d q"
proof -
  obtain dir where dir: "parent p = Some dir" using assms by (cases "parent p") (auto simp: backups_of_def)
  then have q: "parent q = Some dir" "q \<in> fst ` set (d_files d)"
    "case file_name q of None \<Rightarrow> False | Some name \<Rightarrow> starts_with name (backup_prefix p)"
    using assms by (auto simp: backups_of_def)
  from q(3) obtain name where name: "file_name q = Some name" "starts_with name (backup_prefix p)" by (cases "file_name q") auto
  from name(2) obtain rest where "name = backup_prefix p @ rest" by (auto simp: starts_with_iff)
  moreover have "is_file d q" using q(2) by (simp add: is_file_def read_file_def map_of_eq_None_iff)
  ultimately show thesis using name(1) q(1) dir by (intro that [of rest]) simp_all
qed

lemma not_its_own_backup: "p \<notin> set (backups_of d p)"
proof
  assume "p \<in> set (backups_of d p)"
  then obtain rest where "file_name p = Some (backup_prefix p @ rest)" by (rule backups_named)
  then show False by (cases "file_name p") (simp_all add: backup_prefix_def)
qed

lemma read_prune [simp]: "read_file (prune_backups p d) p = read_file d p"
  using not_its_own_backup [of p d] by (auto simp: prune_backups_def read_removes dest: in_set_dropD)

lemma read_write_text: "read_file (snd (write_text m p text d)) p = Some text"
  by (auto simp: write_text_def Let_def split: prod.split)

lemma backups_removes: "backups_of (foldl (\<lambda>d q. remove_file q d) d qs) p = filter (\<lambda>q. q \<notin> set qs) (backups_of d p)"
proof (induction qs arbitrary: d)
  case (Cons q qs)
  have "map fst (d_files (remove_file q d)) = filter (\<lambda>r. r \<noteq> q) (map fst (d_files d))"
    by (simp add: remove_file_def filter_map comp_def split_def)
  then have "backups_of (remove_file q d) p = filter (\<lambda>r. r \<noteq> q) (backups_of d p)"
    by (auto simp: backups_of_def filter_sort remdups_filter conj_commute conj_left_commute intro!: arg_cong [where f = sort]
        arg_cong [where f = remdups] filter_cong split: option.split)
  then show ?case using Cons by (simp add: conj_commute)
qed simp

lemma pruned_backups:
  "backups_of (prune_backups p d) p = rev (take BACKUPS_KEPT (rev (backups_of d p)))"
proof -
  let ?l = "rev (backups_of d p)"
  have "distinct ?l" by (auto simp: backups_of_def split: option.split)
  then have "set (take BACKUPS_KEPT ?l) \<inter> set (drop BACKUPS_KEPT ?l) = {}" by (simp add: set_take_disj_set_drop_if_distinct)
  then have "filter (\<lambda>q. q \<notin> set (drop BACKUPS_KEPT ?l)) (take BACKUPS_KEPT ?l @ drop BACKUPS_KEPT ?l) = take BACKUPS_KEPT ?l"
    unfolding filter_append by (auto simp: filter_id_conv filter_empty_conv)
  then have "filter (\<lambda>q. q \<notin> set (drop BACKUPS_KEPT ?l)) ?l = take BACKUPS_KEPT ?l" by (simp only: append_take_drop_id)
  then have "rev (filter (\<lambda>q. q \<notin> set (drop BACKUPS_KEPT ?l)) (backups_of d p)) = take BACKUPS_KEPT ?l" by (simp only: rev_filter)
  then show ?thesis unfolding prune_backups_def backups_removes by (metis rev_rev_ident)
qed

lemma prune_again: "prune_backups p (prune_backups p d) = prune_backups p d"
  by (subst prune_backups_def) (simp add: pruned_backups)

lemma write_text_again:
  "write_text m p text (snd (write_text m' p text d)) = (Unchanged, snd (write_text m' p text d))"
proof -
  have "\<exists>d'. snd (write_text m' p text d) = prune_backups p d'" by (auto simp: write_text_def Let_def case_prod_beta)
  then obtain d' where d': "snd (write_text m' p text d) = prune_backups p d'" by blast
  then show ?thesis using read_write_text [of m' p "text" d] by (simp add: write_text_def [of m] prune_again)
qed


lemma backup_survives:
  assumes "read_file d p = Some old" "old \<noteq> text" "parent p \<noteq> None" "\<forall>q\<in>set (backups_of d p). q < backup_path m p"
  shows "read_file (snd (write_text m p text d)) (backup_path m p) = Some old"
proof -
  let ?b = "backup_path m p"
  obtain dir where dir: "parent p = Some dir" using assms(3) by blast
  define d2 where "d2 = write_file p text (write_file ?b old (create_dir_all dir d))"
  have out: "snd (write_text m p text d) = prune_backups p d2"
    using assms(1,2) dir by (simp add: write_text_def backup_def d2_def Let_def)
  have "p \<noteq> []" using dir by (auto simp: parent_def)
  have "length (last p) < length (backup_prefix p)"
    by (auto simp: file_name_def backup_prefix_def ROOT_DIR_def \<open>p \<noteq> []\<close>)
  moreover have "last ?b = backup_prefix p @ su_stamp m" by (simp add: backup_path_def)
  ultimately have ne: "?b \<noteq> p" by (metis length_append not_add_less1)
  have "set (backups_of d2 p) \<subseteq> insert ?b (insert p (set (backups_of d p)))"
    by (auto simp: backups_of_def d2_def write_file_def create_dir_all_def dir)
  then have "\<forall>q\<in>set (backups_of d2 p). q \<le> ?b" using assms(4) not_its_own_backup [of p d2] by fastforce
  have "?b \<in> set (rev (take BACKUPS_KEPT (rev (backups_of d2 p))))" if mem: "?b \<in> set (backups_of d2 p)"
  proof -
    have "sorted (backups_of d2 p)" by (auto simp: backups_of_def split: option.split)
    obtain a b where ab: "backups_of d2 p = a @ ?b # b" using split_list [OF mem] by blast
    have "b = []"
    proof (rule ccontr)
      assume "b \<noteq> []"
      then obtain c cs where "b = c # cs" by (cases b) auto
      moreover have "distinct (backups_of d2 p)" by (auto simp: backups_of_def split: option.split)
      ultimately show False
        using \<open>sorted (backups_of d2 p)\<close> \<open>\<forall>q\<in>set (backups_of d2 p). q \<le> ?b\<close> ab by (auto simp: sorted_append)
    qed
    then show ?thesis by (simp add: ab BACKUPS_KEPT_def)
  qed
  then have "?b \<in> set (drop BACKUPS_KEPT (rev (backups_of d2 p))) \<Longrightarrow> ?b \<in> set (take BACKUPS_KEPT (rev (backups_of d2 p)))"
    by (auto dest: in_set_dropD)
  moreover have "distinct (rev (backups_of d2 p))" by (auto simp: backups_of_def split: option.split)
  ultimately have "?b \<notin> set (drop BACKUPS_KEPT (rev (backups_of d2 p)))"
    using set_take_disj_set_drop_if_distinct [of "rev (backups_of d2 p)" BACKUPS_KEPT BACKUPS_KEPT] by auto
  moreover have "read_file d2 ?b = Some old" using ne by (simp add: d2_def)
  ultimately show ?thesis by (simp add: out prune_backups_def read_removes)
qed

section \<open>Uninstalling\<close>

lemma sum_by_key:
  assumes "keys_ok kvs"
  shows "sum_list (map (\<lambda>(_, v). f v) kvs) = (\<Sum>k\<in>set (map fst kvs). f (the (map_of kvs k)))"
proof -
  have d: "distinct (map fst kvs)" using assms by (simp add: keys_ok_def strict_sorted_iff)
  have "map (\<lambda>(_, v). f v) kvs = map (\<lambda>k. f (the (map_of kvs k))) (map fst kvs)" using d by auto
  then show ?thesis using d by (metis sum.distinct_set_conv_list)
qed

lemma stripped_events:
  "keys_ok kvs \<Longrightarrow> keys_ok (drop_empty (map_values retain_others kvs)) \<and>
   (\<forall>k. map_of (drop_empty (map_values retain_others kvs)) k = kept (map_of kvs k))"
  using map_of_keep [of kvs "\<lambda>v. v \<noteq> JArr []" "\<lambda>_. retain_others"]
  by (auto simp: drop_empty_def map_values_def keys_ok_filter keys_ok_map kept_def split: option.split)

lemma kept_clean: "ours_of x = [] \<Longrightarrow> x \<noteq> Some (JArr []) \<Longrightarrow> kept x = x"
  by (auto simp: kept_def retain_others_def ours_of_def filter_id_conv filter_empty_conv split: option.splits json.splits)

lemma count_as_ours: "count_ours v = length (ours_of (Some v))"
  by (auto simp: ours_of_def count_ours_def split: json.splits)

lemma counted_entries:
  assumes "keys_ok hooks" "distinct evs" "\<forall>ev. ours_of (map_of hooks ev) = (if ev \<in> set evs then [f ev] else [])"
  shows "sum_list (map (\<lambda>(_, es). count_ours es) hooks) = length evs"
proof -
  have count: "count_ours (the (map_of hooks ev)) = (if ev \<in> set evs then 1 else 0)" if "ev \<in> set (map fst hooks)" for ev
  proof -
    have "map_of hooks ev \<noteq> None" using that by (simp add: map_of_eq_None_iff)
    then have "Some (the (map_of hooks ev)) = map_of hooks ev" by simp
    then show ?thesis unfolding count_as_ours using assms(3) by simp
  qed
  have "ev \<in> set (map fst hooks)" if "ev \<in> set evs" for ev
  proof (rule ccontr)
    assume "ev \<notin> set (map fst hooks)"
    then have "map_of hooks ev = None" by (simp add: map_of_eq_None_iff)
    then have "ours_of (map_of hooks ev) = []" by (simp add: ours_of_def)
    then show False using assms(3) that by simp
  qed
  then have sub: "set evs \<subseteq> set (map fst hooks)" by blast
  have "sum_list (map (\<lambda>(_, es). count_ours es) hooks) = (\<Sum>ev\<in>set (map fst hooks). if ev \<in> set evs then 1 else 0)"
    unfolding sum_by_key [OF assms(1)] by (rule sum.cong [OF refl count])
  also have "\<dots> = card (set (map fst hooks) \<inter> set evs)"
    by (subst sum.If_cases) simp_all
  also have "\<dots> = length evs" using sub assms(2) by (simp add: Int_absorb1 distinct_card)
  finally show ?thesis .
qed


section \<open>Which entries are recognised\<close>

lemma carries_marker_handler:
  "carries_marker (handler_for False t exe ev command n) = contains command MARKER"
  by (simp add: carries_marker_def handler_for_def Let_def get_key_def)

lemma ours_by_marker:
  "is_ours (entry_for False t exe ev) = contains (hook_command (shell_quote exe) (agent_as_str (tg_kind t)) ev) MARKER"
  by (simp add: is_ours_def entry_for_def Let_def carries_marker_handler split: option.split)
    (simp add: carries_marker_def get_key_def handler_for_def Let_def carries_marker_handler)

lemma contains_around:
  assumes "c \<notin> set p"
  shows "contains (a @ c # b) p \<longleftrightarrow> contains a p \<or> contains b p \<or> p = []"
proof
  assume "contains (a @ c # b) p"
  then obtain x y where xy: "a @ c # b = x @ p @ y" by (auto simp: contains_iff)
  then consider us where "a = x @ us" "us @ c # b = p @ y" | us where "a @ us = x" "c # b = us @ p @ y"
    by (auto simp: append_eq_append_conv2)
  then show "contains a p \<or> contains b p \<or> p = []"
  proof cases
    case 1
    then have "us @ c # b = p @ y" by simp
    then consider vs where "us = p @ vs" | vs where "us @ vs = p" "c # b = vs @ y" by (auto simp: append_eq_append_conv2)
    then show ?thesis
    proof cases
      case 2
      then have "vs = []" using assms by (cases vs) auto
      then show ?thesis using 2(1) \<open>a = x @ us\<close> contains_iff [of a p] by (metis append.right_neutral)
    qed (use 1(1) in \<open>auto simp: contains_iff\<close>)
  next
    case 2
    then show ?thesis by (cases us) (use assms in \<open>auto simp: contains_iff Cons_eq_append_conv\<close>)
  qed
next
  assume "contains a p \<or> contains b p \<or> p = []"
  then show "contains (a @ c # b) p"
  proof (elim disjE)
    assume "contains a p"
    then obtain x y where "a = x @ p @ y" by (auto simp: contains_iff)
    then show ?thesis unfolding contains_iff by (intro exI [of _ x] exI [of _ "y @ c # b"]) simp
  next
    assume "contains b p"
    then obtain x y where "b = x @ p @ y" by (auto simp: contains_iff)
    then show ?thesis unfolding contains_iff by (intro exI [of _ "a @ c # x"] exI [of _ y]) simp
  next
    assume "p = []"
    then show ?thesis unfolding contains_iff by (intro exI [of _ "[]"] exI [of _ "a @ c # b"]) simp
  qed
qed

lemma plain_path_recognised:
  assumes "list_all plain_char exe" "suffix (lit ''brain'') exe"
  shows "recognised False t exe"
proof -
  obtain dir where exe: "exe = dir @ lit ''brain''" using assms(2) by (auto simp: suffix_def)
  have "contains (hook_command exe cli ev) MARKER" for cli ev
    unfolding contains_iff hook_command_def exe
    by (intro exI [of _ dir] exI [of _ "lit '' --cli '' @ cli @ lit '' --event '' @ ev"]) (simp add: MARKER_def lit_def)
  then show ?thesis using assms(1) by (simp add: recognised_def list_all_iff ours_by_marker shell_quote_def)
qed

lemma escape_contains_39: "39 \<in> set exe \<Longrightarrow> 39 \<in> set (escape_quotes exe)"
  by (induction exe) auto

lemma quoted_not_recognised:
  assumes "\<not> list_all plain_char exe" "\<not> contains (escape_quotes exe) MARKER"
    and "\<not> contains (lit '' hook --cli '' @ agent_as_str (tg_kind t) @ lit '' --event '' @ ev) MARKER"
  shows "\<not> is_ours (entry_for False t exe ev)"
proof -
  have no: "39 \<notin> set MARKER" "MARKER \<noteq> []" by (simp_all add: MARKER_def lit_def)
  let ?tail = "lit '' hook --cli '' @ agent_as_str (tg_kind t) @ lit '' --event '' @ ev"
  have cmd: "hook_command (shell_quote exe) (agent_as_str (tg_kind t)) ev = [] @ 39 # (escape_quotes exe @ 39 # ?tail)"
    using assms(1) by (simp add: hook_command_def shell_quote_def)
  have "\<not> contains [] MARKER" using no(2) by (simp add: contains_iff)
  then have "\<not> contains ([] @ 39 # (escape_quotes exe @ 39 # ?tail)) MARKER"
    using assms(2,3) no(2) unfolding contains_around [OF no(1)] by blast
  then show ?thesis unfolding ours_by_marker cmd .
qed

lemma targets_distinct: "t \<in> set (targets_in home exe) \<Longrightarrow> distinct (tg_events t)"
  by (auto simp: targets_in_def)

lemma tails_unmarked:
  "t \<in> set (targets_in home exe) \<Longrightarrow> ev \<in> set (tg_events t) \<Longrightarrow>
   \<not> contains (lit '' hook --cli '' @ agent_as_str (tg_kind t) @ lit '' --event '' @ ev) MARKER"
  by (auto simp: targets_in_def parse_agent_def MARKER_def lit_def starts_with_def)

text \<open>
  a quoted path piles up. Where the path of the binary needs quoting - a space in a home
  directory is enough - no entry \<open>setup\<close> writes is recognised as ours: the quote stands between
  \<open>brain\<close> and \<open>hook\<close>. A second run puts a second entry beside the first at every event, and
  uninstalling finds nothing of ours to remove and leaves them all.
\<close>
theorem quoted_path_piles_up:
  assumes "t \<in> set (targets_in home exe)" "\<not> list_all plain_char exe" "\<not> contains (escape_quotes exe) MARKER"
    and "json_ok v" "\<And>ev. ours_of (entries_at t v ev) = []"
    and "wire_json False t exe v = Inr (v1, n1, s1)" "wire_json False t exe v1 = Inr (v2, n2, s2)"
  shows "(\<forall>ev\<in>set (tg_events t). entries_at t v2 ev =
       Some (JArr (others_of (entries_at t v ev) @ [entry_for False t exe ev, entry_for False t exe ev]))) \<and>
    fst (strip_json t v2) = 0"
proof -
  have d: "distinct (tg_events t)" by (rule targets_distinct [OF assms(1)])
  have theirs: "\<not> is_ours (entry_for False t exe ev)" if "ev \<in> set (tg_events t)" for ev
    by (rule quoted_not_recognised [OF assms(2,3) tails_unmarked [OF assms(1) that]])
  have step: "\<exists>kvs hooks. u' = JObj kvs \<and> map_of kvs (hooks_key t) = Some (JObj hooks) \<and> keys_ok hooks \<and>
      (\<forall>ev. map_of hooks ev = entries_at t u' ev) \<and>
      (\<forall>ev. entries_at t u' ev = (if ev \<in> set (tg_events t)
         then Some (JArr (others_of (entries_at t u ev) @ [entry_for False t exe ev])) else kept (entries_at t u ev)))"
    if "json_ok u" "wire_json False t exe u = Inr (u', n, s)" for u u' n s
    using wire_json_spec [OF d that] entries_at_wired by fastforce
  obtain kvs2 hooks2 where two: "v2 = JObj kvs2" "map_of kvs2 (hooks_key t) = Some (JObj hooks2)" "keys_ok hooks2"
    and at2: "\<forall>ev. map_of hooks2 ev = entries_at t v2 ev"
    and e2: "\<forall>ev. entries_at t v2 ev = (if ev \<in> set (tg_events t)
         then Some (JArr (others_of (entries_at t v1 ev) @ [entry_for False t exe ev])) else kept (entries_at t v1 ev))"
    using step [OF wire_json_ok [OF d assms(4,6)] assms(7)] by blast
  have e1: "\<forall>ev. entries_at t v1 ev = (if ev \<in> set (tg_events t)
         then Some (JArr (others_of (entries_at t v ev) @ [entry_for False t exe ev])) else kept (entries_at t v ev))"
    using step [OF assms(4,6)] by blast
  have twice: "entries_at t v2 ev =
       Some (JArr (others_of (entries_at t v ev) @ [entry_for False t exe ev, entry_for False t exe ev]))"
    if "ev \<in> set (tg_events t)" for ev
    using e1 e2 that theirs [OF that] by simp
  have "ours_of (map_of hooks2 ev) = []" for ev
  proof (cases "ev \<in> set (tg_events t)")
    case True
    have "list_all (\<lambda>v. \<not> is_ours v) (others_of x)" for x
      by (auto simp: others_of_def list_all_iff split: option.split json.split)
    then show ?thesis using at2 twice [OF True] theirs [OF True]
      by (simp add: ours_of_def filter_empty_conv list_all_iff)
  qed (use at2 e2 in simp)
  then have "sum_list (map (\<lambda>(_, es). count_ours es) hooks2) = length ([] :: rstr list)"
    by (intro counted_entries [OF two(3)]) simp_all
  then show ?thesis using twice two(1,2) by (simp add: strip_json_def as_obj_def)
qed

section \<open>Healing\<close>

lemma plugin_is_current:
  "plugin_text_is_current (opencode_plugin exe)" "contains (opencode_plugin exe) (lit ''reads_answer: true'')"
proof -
  let ?id = "lit ''id: '' @ [34] @ lit ''rolepod-brain'' @ [34]"
  have id: "opencode_plugin exe = (PLUGIN_HEAD @ exe @ PLUGIN_PART1 @ lit ''reads_answer: true'' @ PLUGIN_PART2 @
      lit ''export default'' @ PLUGIN_PART3) @ ?id @ PLUGIN_PART4"
    and ex: "opencode_plugin exe = (PLUGIN_HEAD @ exe @ PLUGIN_PART1 @ lit ''reads_answer: true'' @ PLUGIN_PART2) @
      lit ''export default'' @ PLUGIN_PART3 @ ?id @ PLUGIN_PART4"
    and re: "opencode_plugin exe = (PLUGIN_HEAD @ exe @ PLUGIN_PART1) @
      lit ''reads_answer: true'' @ PLUGIN_PART2 @ lit ''export default'' @ PLUGIN_PART3 @ ?id @ PLUGIN_PART4"
    by (simp_all only: opencode_plugin_def append_assoc)
  have "contains (opencode_plugin exe) ?id" unfolding contains_iff using id by blast
  moreover have "contains (opencode_plugin exe) (lit ''export default'')" unfolding contains_iff using ex by blast
  ultimately show "plugin_text_is_current (opencode_plugin exe)"
    unfolding plugin_text_is_current_def PLUGIN_NAME_def by blast
  show "contains (opencode_plugin exe) (lit ''reads_answer: true'')" unfolding contains_iff using re by blast
qed

definition plugin_file :: "path \<Rightarrow> path" where
  "plugin_file home = home @ map lit [''.config'', ''opencode'', ''plugins'', ''rolepod-brain.js'']"

definition plugin_target :: "path \<Rightarrow> rstr \<Rightarrow> target" where
  "plugin_target home exe = targets_in home exe ! 4"

lemma heal_targets_one:
  "heal_targets m (targets_in home exe) d =
     (if \<not> is_file d (plugin_file home) \<or> plugin_source_is_current d (plugin_file home) \<and> plugin_source_delivers d (plugin_file home)
      then (0, d) else (1, snd (install_plugin m (plugin_target home exe) True d)))"
  by (simp add: targets_in_def plugin_target_def plugin_file_def Let_def split: prod.split)

lemma install_writes_plugin:
  "read_file (snd (install_plugin m (plugin_target home exe) True d)) (plugin_file home) = Some (opencode_plugin (su_debug m (su_exe m)))"
proof -
  have p: "tg_hooks_file (plugin_target home exe) = plugin_file home"
    by (simp add: plugin_target_def targets_in_def plugin_file_def)
  show ?thesis using read_write_text [of m "plugin_file home" "opencode_plugin (su_debug m (su_exe m))" d]
    by (cases "write_text m (plugin_file home) (opencode_plugin (su_debug m (su_exe m))) d")
      (simp add: install_plugin_def p split: written.split)
qed

text \<open>
  healing settles. Where the programs it calls leave the files alone, a repair leaves behind no
  file it would repair: the retired backstop is gone, a plugin file that existed names itself, is
  exported and hands memory back, and a second repair counts nothing and changes nothing.
\<close>
theorem heal_settles:
  assumes "\<And>args e q. read_file (fst (su_run m args e)) q = read_file e q"
    and "heal_owned_files m home unload d = (n, d1)"
  shows "heal_owned_files m home unload d1 = (0, d1) \<and> \<not> is_file d1 (legacy_plist home) \<and>
    (is_file d (plugin_file home) \<longrightarrow>
       plugin_source_is_current d1 (plugin_file home) \<and> plugin_source_delivers d1 (plugin_file home))"
proof -
  let ?p = "plugin_file home" and ?l = "legacy_plist home"
  let ?good = "\<lambda>e. \<not> is_file e ?p \<or> plugin_source_is_current e ?p \<and> plugin_source_delivers e ?p"
  have apart: "?p \<noteq> ?l" by (simp add: plugin_file_def legacy_plist_def)
  define e where "e = snd (heal_targets m (targets_in home (su_exe m)) d)"
  have e: "?good e" "is_file d ?p \<Longrightarrow> is_file e ?p"
    using plugin_is_current install_writes_plugin [of m home "su_exe m" d]
    by (auto simp: e_def heal_targets_one is_file_def plugin_source_is_current_def plugin_source_delivers_def)
  have run: "read_file e' q = read_file e q" if "su_run m args e = (e', r)" for args e e' r q
    using assms(1) [of args e q] that by simp
  have sweep: "read_file (snd (sweep_legacy_timer_in m home True unload e)) q = (if q = ?l then None else read_file e q)"
    if "is_file e ?l" for q
    using that by (auto simp: sweep_legacy_timer_in_def Let_def assms(1) split: prod.split dest: run)
  have d1: "d1 = (if is_file e ?l then snd (sweep_legacy_timer_in m home True unload e) else e)"
    using assms(2) by (auto simp: heal_owned_files_def e_def split: prod.splits if_splits)
  have kept: "read_file d1 ?p = read_file e ?p" using d1 sweep apart by simp
  have gone: "\<not> is_file d1 ?l" using d1 sweep by (auto simp: is_file_def)
  have good: "?good d1" "is_file d ?p \<Longrightarrow> is_file d1 ?p"
    using e kept by (simp_all add: is_file_def plugin_source_is_current_def plugin_source_delivers_def)
  then show ?thesis using gone by (auto simp: heal_owned_files_def heal_targets_one)
qed

section \<open>A concrete machine\<close>

definition sample_exe :: rstr where "sample_exe = lit ''/b/brain''"

definition sample_machine :: machine where
  "sample_machine = \<lparr>su_windows = False, su_home = [], su_exe = sample_exe, su_path = [], su_stamp = lit ''20260101-000000'',
     su_config = None, su_parse = tree_parse, su_print = print_tree, su_plugins = (\<lambda>_. None),
     su_debug = (\<lambda>s. [34] @ s @ [34]), su_lower = map ascii_lower, su_resolve = (\<lambda>_ _. None), su_run = (\<lambda>_ d. (d, Not_started))\<rparr>"

definition gemini :: "rstr \<Rightarrow> target" where "gemini exe = targets_in [] exe ! 2"

lemma sample_recognised: "recognised False t sample_exe"
  by (rule plain_path_recognised) (code_simp, code_simp)

lemma wire_json_runs:
  assumes "distinct (tg_events t)" "json_ok v" "get_key (hooks_key t) v = None \<or> (\<exists>hooks. get_key (hooks_key t) v = Some (JObj hooks))"
    and "\<forall>ev\<in>set (tg_events t). entries_at t v ev = None \<or> (\<exists>es. entries_at t v ev = Some (JArr es))"
  shows "\<exists>v' replaced swept. wire_json windows t exe v = Inr (v', replaced, swept)"
proof -
  have root: "map_of (or_put (hooks_key t) (JObj []) (fields_of v)) (hooks_key t) = Some (JObj (hooks_at t v))"
    using assms(3) by (auto simp: get_key_fields hooks_at_def)
  have "keys_ok (hooks_at t v)" using hooks_ok [OF assms(2)] by simp
  then have "\<forall>ev\<in>set (tg_events t). map_of (snd (sweep_events t (hooks_at t v))) ev = None \<or>
      (\<exists>es. map_of (snd (sweep_events t (hooks_at t v))) ev = Some (JArr es))"
    using assms(4) by (auto simp: sweep_map entries_at_def)
  from wire_events_ok [OF assms(1) this] obtain hooks2 r where
    "wire_events (entry_for windows t exe) (tg_hooks_file t) (tg_events t) (snd (sweep_events t (hooks_at t v))) 0 = Inr (hooks2, r)"
    by blast
  then show ?thesis using root by (simp add: wire_json_def fields_of_def [symmetric] Let_def split_def)
qed

lemma gemini_events: "distinct (tg_events (gemini exe))" "tg_layout (gemini exe) = Grouped"
  "agent_as_str (tg_kind (gemini exe)) = lit ''gemini-cli''" "hooks_key (gemini exe) = lit ''hooks''"
  by (simp_all add: gemini_def targets_in_def parse_agent_def lit_def hooks_key_def)

text \<open>A configuration with another tool's entry, and an old entry of ours at an event no longer wired.\<close>

definition their_entry :: json where
  "their_entry = JObj [(lit ''hooks'', JArr [JObj [(lit ''command'', JStr (lit ''notify''))]])]"

definition lived_in :: json where
  "lived_in = JObj [(lit ''hooks'', JObj [(lit ''AfterTool'', JArr [their_entry]),
     (lit ''Old'', JArr [entry_for False (gemini sample_exe) sample_exe (lit ''Old'')])]), (lit ''theme'', JStr (lit ''dark''))]"


lemma sample_first_run:
  obtains cs d1 where "wire_hooks sample_machine (gemini sample_exe) True \<lparr>d_files = [], d_dirs = []\<rparr> = Inr (cs, d1)"
proof -
  let ?d = "\<lparr>d_files = [], d_dirs = []\<rparr> :: disk" and ?t = "gemini sample_exe"
  have "entries_at ?t (JObj []) ev = None" for ev by (simp add: entries_at_def hooks_at_def fields_of_def as_obj_def)
  then obtain root n swept where w: "wire_json False ?t sample_exe (JObj []) = Inr (root, n, swept)"
    using wire_json_runs [OF gemini_events(1), where v = "JObj []" and windows = False and exe = sample_exe]
    by (simp add: get_key_def keys_ok_def) blast
  have "read_json sample_machine ?d (tg_hooks_file ?t) = Inr (JObj [])" by (simp add: read_json_def read_file_def)
  moreover have "\<not> plugin_installed_in sample_machine ?d (tg_kind ?t)"
    unfolding plugin_installed_in_def gemini_events(3) by (simp add: lit_def)
  moreover have "su_windows sample_machine = False" "su_exe sample_machine = sample_exe" by (simp_all add: sample_machine_def)
  ultimately have "\<exists>cs d1. wire_hooks sample_machine ?t True ?d = Inr (cs, d1)"
    using w by (auto simp: wire_hooks_def Let_def split: prod.split written.split option.split)
  then show thesis using that by blast
qed


definition fresh_config :: json where
  "fresh_config = JObj [(lit ''hooks'', JObj []), (lit ''theme'', JStr (lit ''dark''))]"

lemma fresh_entries: "entries_at (gemini exe) fresh_config ev = None"
  by (simp add: entries_at_def hooks_at_def gemini_events fresh_config_def as_obj_def fields_of_def)

lemma fresh_ok: "json_ok fresh_config" "get_key (hooks_key (gemini exe)) fresh_config = Some (JObj [])"
  by (simp_all add: fresh_config_def keys_ok_def lit_def gemini_events get_key_def)


definition spaced_exe :: rstr where "spaced_exe = lit ''/a b/brain''"

theorem quoted_path_piles_up_witness:
  "\<exists>v1 n1 s1 v2 n2 s2. wire_json False (gemini spaced_exe) spaced_exe fresh_config = Inr (v1, n1, s1) \<and>
     wire_json False (gemini spaced_exe) spaced_exe v1 = Inr (v2, n2, s2) \<and>
     fst (strip_json (gemini spaced_exe) v2) = 0"
proof -
  let ?t = "gemini spaced_exe"
  obtain v1 n1 s1 where w1: "wire_json False ?t spaced_exe fresh_config = Inr (v1, n1, s1)"
    using wire_json_runs [OF gemini_events(1) fresh_ok(1)] fresh_ok(2) fresh_entries by blast
  obtain kvs hooks where v1: "v1 = JObj kvs" "map_of kvs (hooks_key ?t) = Some (JObj hooks)"
    and hooks: "\<forall>ev. map_of hooks ev = (if ev \<in> set (tg_events ?t)
       then Some (JArr (others_of (entries_at ?t fresh_config ev) @ [entry_for False ?t spaced_exe ev])) else kept (entries_at ?t fresh_config ev))"
    using wire_json_spec [OF gemini_events(1) fresh_ok(1) w1] by blast
  have "\<forall>ev\<in>set (tg_events ?t). entries_at ?t v1 ev = None \<or> (\<exists>es. entries_at ?t v1 ev = Some (JArr es))"
    using entries_at_wired [OF v1(2)] v1(1) hooks by simp
  moreover have "get_key (hooks_key ?t) v1 = Some (JObj hooks)" using v1 by (simp add: get_key_def)
  ultimately obtain v2 n2 s2 where w: "wire_json False ?t spaced_exe v1 = Inr (v2, n2, s2)"
    using wire_json_runs [OF gemini_events(1) wire_json_ok [OF gemini_events(1) fresh_ok(1) w1]] by blast
  have "gemini spaced_exe \<in> set (targets_in [] spaced_exe)" by (simp add: gemini_def targets_in_def)
  moreover have "\<not> list_all plain_char spaced_exe" by code_simp
  moreover have "\<not> contains (escape_quotes spaced_exe) MARKER" by code_simp
  ultimately show ?thesis
    using quoted_path_piles_up [OF _ _ _ fresh_ok(1) _ w1 w] w1 w by (auto simp: fresh_entries ours_of_def)
qed

theorem heal_settles_witness:
  "\<exists>n d1. heal_owned_files sample_machine [] True \<lparr>d_files = [(plugin_file [], lit ''old''), (legacy_plist [], [])], d_dirs = []\<rparr> = (n, d1) \<and>
     heal_owned_files sample_machine [] True d1 = (0, d1)"
proof -
  obtain n d1 where h: "heal_owned_files sample_machine [] True
      \<lparr>d_files = [(plugin_file [], lit ''old''), (legacy_plist [], [])], d_dirs = []\<rparr> = (n, d1)" by fastforce
  have "read_file (fst (su_run sample_machine args e)) q = read_file e q" for args e q by (simp add: sample_machine_def)
  then show ?thesis using heal_settles [OF _ h] h by blast
qed

end
