(* ===== verification/Hook.thy ===== *)
theory Hook
  imports Sanitize Ids Numerals
begin

text \<open>
  What a lifecycle hook reads out of its payload, \<open>src/src/hook.rs\<close>: the name of the event, who fired
  it, its title, the body worth keeping, the files it touched, the transcript it names, and what it
  starts. A payload is \<open>serde_json\<close>'s value; \<open>canonicalize\<close>, \<open>to_lowercase\<close>, the JSON printer, the
  secret patterns and the base64 pattern are parameters. The clamps never fail (\<open>clamp_total\<close>).
\<close>

section \<open>Fields\<close>

definition get_str :: "string \<Rightarrow> json \<Rightarrow> rstr option" where
  "get_str key v = Option.bind (json_get (lit key) v) as_str"

definition text_field :: "string \<Rightarrow> json \<Rightarrow> rstr" where
  "text_field key v = (case get_str key v of Some t \<Rightarrow> t | None \<Rightarrow> [])"

text \<open>The first key that holds a string decides, and an empty string is then refused.\<close>

definition first_string :: "json \<Rightarrow> string list \<Rightarrow> rstr option" where
  "first_string v keys =
     (case List.map_filter (\<lambda>k. get_str k v) keys of [] \<Rightarrow> None | t # _ \<Rightarrow> if t = [] then None else Some t)"

definition tool_name :: "json \<Rightarrow> rstr" where
  "tool_name v =
     (case get_str ''tool_name'' v of Some t \<Rightarrow> t
      | None \<Rightarrow> (case Option.bind (json_get (lit ''toolCall'') v) (get_str ''name'') of Some t \<Rightarrow> t | None \<Rightarrow> []))"

definition tool_input :: "json \<Rightarrow> json option" where
  "tool_input v =
     (case json_get (lit ''tool_input'') v of Some i \<Rightarrow> Some i
      | None \<Rightarrow> Option.bind (json_get (lit ''toolCall'') v) (json_get (lit ''args'')))"

definition delegate_label :: "json \<Rightarrow> rstr option" where
  "delegate_label v =
     (case get_str ''agent_id'' v of None \<Rightarrow> None
      | Some i \<Rightarrow> if i = [] then None
          else Some (case first_string v [''agent_type''] of Some t \<Rightarrow> t | None \<Rightarrow> lit ''subagent''))"

section \<open>The event\<close>

fun normalize_go :: "rstr \<Rightarrow> rstr \<Rightarrow> rstr" where
  "normalize_go [] out = out"
| "normalize_go (c # cs) out =
     normalize_go cs
       (if c \<in> {45, 95, 32, 46} then out @ [95]
        else if is_ascii_upper c
        then (if out \<noteq> [] \<and> last out \<noteq> 95 then out @ [95] else out) @ [ascii_lower c]
        else out @ [c])"

definition normalize_hook :: "rstr \<Rightarrow> rstr" where
  "normalize_hook raw = normalize_go raw []"

definition captures :: "rstr \<Rightarrow> bool" where
  "captures hook = (hook \<noteq> lit ''pre_tool_use'')"

definition wipes_context :: "rstr \<Rightarrow> json \<Rightarrow> bool" where
  "wipes_context hook v =
     (hook = lit ''post_compact'' \<or>
      hook = lit ''session_start'' \<and>
      (case get_str ''source'' v of Some s \<Rightarrow> s = lit ''compact'' \<or> s = lit ''clear'' | None \<Rightarrow> False))"

definition HAVE_SESSION_END :: "rstr list" where
  "HAVE_SESSION_END = map lit [''claude-code'', ''codex'']"

definition is_session_boundary :: "rstr \<Rightarrow> rstr \<Rightarrow> bool" where
  "is_session_boundary cli hook =
     (if hook = lit ''session_end'' \<or> hook = lit ''pre_compact'' then True
      else if hook = lit ''stop'' then cli \<notin> set HAVE_SESSION_END else False)"

definition consolidation_triggers :: "rstr \<Rightarrow> rstr" where
  "consolidation_triggers cli =
     (if cli = lit ''claude-code'' \<or> cli = lit ''codex'' then lit ''session end, compaction''
      else if cli = lit ''opencode'' then lit ''end of turn, compaction''
      else if cli = lit ''antigravity'' \<or> cli = lit ''cursor'' then lit ''end of turn (no session-end event)''
      else if cli = lit ''gemini-cli'' then lit ''backstop only (no boundary event reaches us)''
      else lit ''backstop only'')"

definition is_cursor_echo :: "rstr \<Rightarrow> rstr \<Rightarrow> json \<Rightarrow> bool" where
  "is_cursor_echo cli hook v =
     (cli = lit ''claude-code'' \<and> hook \<in> set (map lit [''post_tool_use'', ''user_prompt_submit'', ''stop'']) \<and>
      (case get_str ''cursor_version'' v of Some t \<Rightarrow> trim t \<noteq> [] | None \<Rightarrow> False))"

text \<open>\<open>Value::as_i64\<close> of a number as it is written (\<open>-0\<close> is read as a float).\<close>

definition as_i64 :: "json \<Rightarrow> int option" where
  "as_i64 v = (case v of JNum t \<Rightarrow> (if t = lit ''-0'' then None else parse_i64 t) | _ \<Rightarrow> None)"

definition answer_is_read :: "rstr \<Rightarrow> json \<Rightarrow> int \<Rightarrow> bool" where
  "answer_is_read cli v now_ms =
     (if cli \<noteq> lit ''opencode'' then True
      else json_get (lit ''reads_answer'') v = Some (JBool True) \<and>
        (case Option.bind (json_get (lit ''answer_by'') v) as_i64 of None \<Rightarrow> True | Some by' \<Rightarrow> now_ms \<le> by'))"

datatype host_plan = Classify | Find_host | Reuse nat

definition plan_host :: "bool \<Rightarrow> nat option \<Rightarrow> host_plan" where
  "plan_host cached peeked =
     (if \<not> cached then Classify else case peeked of None \<Rightarrow> Find_host | Some pid \<Rightarrow> Reuse pid)"

definition NO_HOST :: nat where "NO_HOST = 0"

datatype started = Run_session | Run_all

text \<open>Both questions are asked only when the answer matters; the second one writes.\<close>

definition summons :: "rstr \<Rightarrow> rstr \<Rightarrow> bool \<Rightarrow> ('db \<Rightarrow> bool) \<Rightarrow> ('db \<Rightarrow> bool \<times> 'db) \<Rightarrow> 'db \<Rightarrow> (started option \<times> bool) \<times> 'db" where
  "summons cli hook headless stale idle_window db =
     (if headless then ((None, False), db)
      else let run' = (if is_session_boundary cli hook then Some Run_session
                       else if hook = lit ''session_start'' \<and> stale db then Some Run_all else None);
               (idle, db') = (if hook = lit ''stop'' then idle_window db else (False, db))
           in ((run', idle), db'))"

section \<open>A shell command in words\<close>

definition first_line :: "rstr \<Rightarrow> rstr" where
  "first_line s = (case filter (\<lambda>l. l \<noteq> []) (map trim (text_lines s)) of [] \<Rightarrow> [] | l # _ \<Rightarrow> l)"

definition base_name :: "rstr \<Rightarrow> rstr" where
  "base_name token = last (split_on (\<lambda>c. c = 47) (trim_end_by (\<lambda>c. c = 47) token))"

definition is_bare_word :: "rstr \<Rightarrow> bool" where
  "is_bare_word token =
     (token \<noteq> [] \<and> list_all (\<lambda>c. is_ascii_alnum c \<or> c = 45 \<or> c = 95) token \<and> \<not> starts_with token [45])"

definition looks_like_path :: "rstr \<Rightarrow> bool" where
  "looks_like_path token =
     (if starts_with token [45] \<or> 61 \<in> set token then False
      else if list_ex (\<lambda>c. c \<in> {42, 63, 123, 125, 91, 93, 40, 41, 36, 94}) token then False
      else (case rsplit_char 46 (base_name token) of None \<Rightarrow> False
            | Some (stem, ext) \<Rightarrow> stem \<noteq> [] \<and> 1 \<le> blen ext \<and> blen ext \<le> 5 \<and> list_all is_ascii_alnum ext) \<or>
           47 \<in> set token)"

fun shell_go :: "rstr \<Rightarrow> rstr \<Rightarrow> nat option \<Rightarrow> rstr list \<Rightarrow> rstr list" where
  "shell_go [] cur quote tokens = (if cur = [] then tokens else tokens @ [cur])"
| "shell_go (c # cs) cur quote tokens =
     (case quote of
        Some q \<Rightarrow> if c = q then shell_go cs cur None tokens else shell_go cs (cur @ [c]) quote tokens
      | None \<Rightarrow>
          if c = 39 \<or> c = 34 then shell_go cs cur (Some c) tokens
          else if is_ws c then (if cur = [] then shell_go cs [] None tokens else shell_go cs [] None (tokens @ [cur]))
          else if c \<in> {124, 62, 60, 59, 38} then (if cur = [] then tokens else tokens @ [cur])
          else shell_go cs (cur @ [c]) None tokens)"

definition shell_tokens :: "rstr \<Rightarrow> rstr list" where
  "shell_tokens line = shell_go line [] None []"

definition WRAPPERS :: "rstr list" where
  "WRAPPERS = map lit [''sudo'', ''env'', ''time'', ''rtk'', ''nohup'', ''command'', ''xargs'']"

fun past_wrappers :: "rstr list \<Rightarrow> rstr list" where
  "past_wrappers (t # u # ts) = (if base_name t \<in> set WRAPPERS then past_wrappers (u # ts) else t # u # ts)"
| "past_wrappers ts = ts"

definition verb_of :: "rstr \<Rightarrow> rstr option" where
  "verb_of program =
     (if program \<in> set (map lit [''sed'', ''head'', ''tail'', ''cat'', ''less'', ''awk'', ''jq'']) then Some (lit ''read'')
      else if program \<in> set (map lit [''grep'', ''rg'', ''ag'', ''ack'', ''find'', ''fd'']) then Some (lit ''search'')
      else if program \<in> set (map lit [''pytest'', ''jest'', ''vitest'', ''mocha'']) then Some (lit ''test'')
      else if program \<in> set (map lit [''curl'', ''wget'', ''http'']) then Some (lit ''fetch'') else None)"

definition DRIVERS :: "rstr list" where
  "DRIVERS = map lit [''cargo'', ''git'', ''npm'', ''pnpm'', ''yarn'', ''go'', ''docker'', ''brew'', ''gh'', ''uv'']"

definition describe_command :: "rstr \<Rightarrow> rstr" where
  "describe_command command =
     (let line = first_line command in
      if line = [] then lit ''Ran a command''
      else case past_wrappers (shell_tokens line) of [] \<Rightarrow> lit ''Ran a command''
      | t # rest \<Rightarrow>
          (let program = base_name t; verb = verb_of program;
               after = dropWhile (\<lambda>w. \<not> is_bare_word w) rest;
               sub = (if program \<in> set DRIVERS \<and> after \<noteq> [] then Some (hd after) else None);
               searchable = (if sub = None then rest else tl after);
               target = (case filter looks_like_path (rev searchable) of [] \<Rightarrow> None | p # _ \<Rightarrow> Some p)
           in case (verb, sub, target) of
                (Some w, _, Some p) \<Rightarrow> w @ lit '': '' @ base_name p
              | (Some w, _, None) \<Rightarrow> w @ lit '': '' @ program
              | (None, Some s, Some p) \<Rightarrow> program @ lit '' '' @ s @ lit '': '' @ base_name p
              | (None, Some s, None) \<Rightarrow> program @ lit '' '' @ s
              | (None, None, Some p) \<Rightarrow> program @ lit '': '' @ base_name p
              | (None, None, None) \<Rightarrow> lit ''Ran '' @ program))"

text \<open>The programs a lesson can be keyed by.\<close>

fun skip_words :: "bool \<Rightarrow> rstr list \<Rightarrow> rstr list" where
  "skip_words wrapped [] = []"
| "skip_words wrapped (w # ws) =
     (if w = lit ''sudo'' \<or> w = lit ''env'' then skip_words True ws
      else if 61 \<in> set w \<or> wrapped \<and> starts_with w [45] then skip_words wrapped ws
      else w # ws)"

definition plain_word :: "rstr \<Rightarrow> bool" where
  "plain_word s = (s \<noteq> [] \<and> list_all (\<lambda>c. is_ascii_alnum c \<or> c \<in> {46, 95, 43, 45}) s)"

definition part_candidates :: "(rstr \<Rightarrow> rstr) \<Rightarrow> rstr \<Rightarrow> rstr list" where
  "part_candidates lower part =
     (case skip_words False (split_whitespace part) of [] \<Rightarrow> []
      | first # rest \<Rightarrow>
          (let program = lower (last (split_on (\<lambda>c. c = 47) first)) in
           if program = lit ''cd'' \<or> \<not> plain_word program then []
           else (case rest of [] \<Rightarrow> []
                 | w # _ \<Rightarrow> (let sub = lower w in
                     if \<not> starts_with sub [45] \<and> plain_word sub then [program @ lit '' '' @ sub] else [])) @ [program]))"

fun ampersands :: "rstr \<Rightarrow> rstr" where
  "ampersands (a # b # s) = (if a = 38 \<and> b = 38 then 59 # ampersands s else a # ampersands (b # s))"
| "ampersands s = s"

text \<open>The first 4096 bytes, cut back to a character boundary.\<close>

fun take_bytes :: "nat \<Rightarrow> rstr \<Rightarrow> rstr" where
  "take_bytes n [] = []"
| "take_bytes n (c # s) = (if len_utf8 c \<le> n then c # take_bytes (n - len_utf8 c) s else [])"

definition command_candidates :: "(rstr \<Rightarrow> rstr) \<Rightarrow> rstr \<Rightarrow> rstr list" where
  "command_candidates lower command =
     (let cut = map (\<lambda>c. if c = 124 then 59 else c) (ampersands (take_bytes 4096 command)) in
      remdups_adj (sort (concat (map (part_candidates lower) (take 3 (split_on (\<lambda>c. c = 59) cut))))))"

section \<open>The title\<close>

definition tool_path :: "json \<Rightarrow> rstr option" where
  "tool_path input =
     (case filter (\<lambda>t. t \<noteq> []) (List.map_filter (\<lambda>k. get_str k input)
        [''file_path'', ''path'', ''notebook_path'', ''filePath'', ''AbsolutePath'']) of [] \<Rightarrow> None | p # _ \<Rightarrow> Some p)"

definition shown_with :: "string \<Rightarrow> rstr \<Rightarrow> rstr" where
  "shown_with words t = (if t = [] then lit words else lit words @ lit '' ('' @ t @ lit '')'')"

definition title_for :: "rstr \<Rightarrow> json \<Rightarrow> rstr" where
  "title_for hook v =
     (if hook = lit ''user_prompt_submit'' then
        (if text_field ''prompt'' v = [] then lit ''Prompt submitted'' else lit ''Asked: '' @ first_line (text_field ''prompt'' v))
      else if hook \<in> set (map lit [''pre_tool_use'', ''post_tool_use'', ''post_invocation'']) then
        (let tool = tool_name v; shell = eq_ignore_case tool (lit ''bash'') \<or> eq_ignore_case tool (lit ''shell'') in
         case tool_input v of
           Some input \<Rightarrow>
             if shell then describe_command (text_field ''command'' input)
             else if tool \<noteq> [] then
               (case tool_path input of Some p \<Rightarrow> tool @ lit '': '' @ p | None \<Rightarrow> lit ''Used '' @ tool)
             else lit ''Tool call''
         | None \<Rightarrow> if tool \<noteq> [] then lit ''Used '' @ tool else lit ''Tool call'')
      else if hook = lit ''session_start'' then shown_with ''Session started'' (text_field ''source'' v)
      else if hook = lit ''session_end'' then shown_with ''Session ended'' (text_field ''reason'' v)
      else if hook = lit ''stop'' then lit ''Turn finished''
      else if hook = lit ''subagent_stop'' then
        (case delegate_label v of Some who \<Rightarrow> who @ lit '' finished'' | None \<Rightarrow> lit ''Subagent finished'')
      else if hook = lit ''pre_compact'' then shown_with ''Context compacted'' (text_field ''trigger'' v)
      else if hook = lit ''notification'' then
        (if text_field ''message'' v = [] then lit ''Notification'' else lit ''Notice: '' @ first_line (text_field ''message'' v))
      else lit ''Event: '' @ hook)"

section \<open>The body\<close>

definition LEAF_MAX_BYTES :: nat where "LEAF_MAX_BYTES = 2 * 1024"
definition FOOTSTEP_LEAF_MAX_BYTES :: nat where "FOOTSTEP_LEAF_MAX_BYTES = 512"
definition FOOTSTEP_BODY_MAX_BYTES :: nat where "FOOTSTEP_BODY_MAX_BYTES = 1024"
definition BRAIN_RECALL_OMITTED :: rstr where "BRAIN_RECALL_OMITTED = lit ''[brain recall result omitted]''"

definition is_brain_recall :: "rstr \<Rightarrow> bool" where
  "is_brain_recall tool =
     (let lower = map ascii_lower tool; tail = last (split_on (\<lambda>c. c = 95 \<or> c = 58) lower);
          head = take (length lower - length tail) lower in
      tail \<in> set (map lit [''search'', ''get'', ''recent'', ''timeline'', ''related'', ''outline'']) \<and>
      suffix (lit ''brain_'') head \<and>
      (let before = take (length head - 6) head in before = [] \<or> last before = 95 \<or> last before = 58))"

definition is_footstep :: "rstr option \<Rightarrow> rstr \<Rightarrow> bool" where
  "is_footstep delegate hook = (delegate \<noteq> None \<and> hook = lit ''post_tool_use'')"

text \<open>What the capture path takes from the sanitizer and from other crates.\<close>

record shaper =
  sh_ref :: "rstr \<Rightarrow> bool"
  sh_self :: sanitizer
  sh_base64 :: pattern
  sh_print :: "json \<Rightarrow> rstr"

definition scrubbed :: "shaper \<Rightarrow> rstr \<Rightarrow> rstr" where
  "scrubbed w t = scrub (sh_ref w) (sh_self w) t"

definition leaf :: "shaper \<Rightarrow> nat \<Rightarrow> rstr \<Rightarrow> rstr" where
  "leaf w n t = (case clamp_leaf (sh_base64 w) (scrubbed w t) n of Some s \<Rightarrow> s | None \<Rightarrow> [])"

definition clamp_ends :: "rstr \<Rightarrow> nat \<Rightarrow> rstr" where
  "clamp_ends t n = (case truncate_head_tail t n of Some s \<Rightarrow> s | None \<Rightarrow> [])"

definition body_of :: "shaper \<Rightarrow> rstr \<Rightarrow> rstr" where
  "body_of w t = (case scrub_body (sh_ref w) (sh_self w) t of Some s \<Rightarrow> s | None \<Rightarrow> [])"

definition cut_title :: "rstr \<Rightarrow> nat \<Rightarrow> rstr" where
  "cut_title t n = (case truncate_text t n of Some s \<Rightarrow> s | None \<Rightarrow> [])"

lemma clamp_total:
  "clamp_leaf (sh_base64 w) (scrubbed w t) n = Some (leaf w n t)"
  "truncate_head_tail t n = Some (clamp_ends t n)"
  "scrub_body (sh_ref w) (sh_self w) t = Some (body_of w t)"
  "truncate_text t n = Some (cut_title t n)"
proof -
  show "clamp_leaf (sh_base64 w) (scrubbed w t) n = Some (leaf w n t)"
    unfolding leaf_def clamp_leaf_def using truncate_head_tail_total by (metis option.simps(5))
  show "truncate_head_tail t n = Some (clamp_ends t n)"
    unfolding clamp_ends_def using truncate_head_tail_total by (metis option.simps(5))
  show "scrub_body (sh_ref w) (sh_self w) t = Some (body_of w t)"
    unfolding body_of_def scrub_body_def using truncate_head_tail_total by (metis option.simps(5))
  show "truncate_text t n = Some (cut_title t n)"
    unfolding cut_title_def using truncate_bounded [of t n] by (metis option.simps(5))
qed

definition PRIVATE :: rstr where "PRIVATE = lit ''[PRIVATE]''"

text \<open>The flag is carried from leaf to leaf: it is set once a leaf ends inside an open region.\<close>

fun shape_leaves :: "(rstr \<Rightarrow> rstr) \<Rightarrow> json \<Rightarrow> bool \<Rightarrow> json \<times> bool"
  and shape_items :: "(rstr \<Rightarrow> rstr) \<Rightarrow> json list \<Rightarrow> bool \<Rightarrow> json list \<times> bool"
  and shape_values :: "(rstr \<Rightarrow> rstr) \<Rightarrow> (rstr \<times> json) list \<Rightarrow> bool \<Rightarrow> (rstr \<times> json) list \<times> bool"
where
  "shape_leaves f (JStr t) opened = (if opened then (JStr PRIVATE, True) else (JStr (f t), leaves_private_open t))"
| "shape_leaves f (JArr vs) opened = (let (vs', o') = shape_items f vs opened in (JArr vs', o'))"
| "shape_leaves f (JObj kvs) opened = (let (kvs', o') = shape_values f kvs opened in (JObj kvs', o'))"
| "shape_leaves f v opened = (v, opened)"
| "shape_items f [] opened = ([], opened)"
| "shape_items f (v # vs) opened =
     (let (v', o1) = shape_leaves f v opened; (vs', o2) = shape_items f vs o1 in (v' # vs', o2))"
| "shape_values f [] opened = ([], opened)"
| "shape_values f ((k, v) # kvs) opened =
     (let (v', o1) = shape_leaves f v opened; (kvs', o2) = shape_values f kvs o1 in ((k, v') # kvs', o2))"

definition without_keys :: "string list \<Rightarrow> json \<Rightarrow> json" where
  "without_keys ks v = (case v of JObj kvs \<Rightarrow> JObj (filter (\<lambda>(k, _). k \<notin> set (map lit ks)) kvs) | _ \<Rightarrow> v)"

text \<open>The \<open>content\<close> of a write, shaped in place.\<close>

fun shape_content :: "(rstr \<Rightarrow> rstr) \<Rightarrow> (rstr \<times> json) list \<Rightarrow> bool \<Rightarrow> (rstr \<times> json) list \<times> bool" where
  "shape_content f [] opened = ([], opened)"
| "shape_content f ((k, v) # kvs) opened =
     (if k = lit ''content'' then (let (v', o1) = shape_leaves f v opened in ((k, v') # kvs, o1))
      else (let (kvs', o1) = shape_content f kvs opened in ((k, v) # kvs', o1)))"

definition BODY_KEYS :: "string list" where
  "BODY_KEYS = [''prompt'', ''tool_name'', ''tool_input'', ''toolCall'', ''terminationReason'', ''tool_response'',
     ''tool_output'', ''error'', ''is_interrupt'', ''failed'', ''message'', ''reason'', ''source'', ''trigger'', ''custom_instructions'']"

definition FAILURE_KEYS :: "string list" where
  "FAILURE_KEYS = [''tool_output'', ''error'', ''is_interrupt'', ''failed'']"

definition shape_field :: "(rstr \<Rightarrow> rstr) \<Rightarrow> bool \<Rightarrow> bool \<Rightarrow> string \<Rightarrow> json \<Rightarrow> bool \<Rightarrow> json \<times> bool" where
  "shape_field f footstep recall key v opened =
     (if key = ''tool_response'' \<and> recall then (JStr BRAIN_RECALL_OMITTED, opened)
      else if key \<in> {''tool_response'', ''tool_output'', ''error''}
      then shape_leaves f (without_keys [''originalFile'', ''structuredPatch''] v) opened
      else if key = ''tool_input'' then
        (if footstep then shape_leaves f v opened
         else case v of JObj kvs \<Rightarrow> (let (kvs', o1) = shape_content f kvs opened in (JObj kvs', o1)) | _ \<Rightarrow> (v, opened))
      else (v, opened))"

fun keep_fields :: "(rstr \<Rightarrow> rstr) \<Rightarrow> bool \<Rightarrow> bool \<Rightarrow> bool \<Rightarrow> json \<Rightarrow> string list \<Rightarrow> bool \<Rightarrow> (rstr \<times> json) list" where
  "keep_fields f footstep failed recall v [] opened = []"
| "keep_fields f footstep failed recall v (key # keys) opened =
     (if \<not> failed \<and> key \<in> set FAILURE_KEYS then keep_fields f footstep failed recall v keys opened
      else case json_get (lit key) v of
        None \<Rightarrow> keep_fields f footstep failed recall v keys opened
      | Some x \<Rightarrow>
          if opened then (lit key, JStr PRIVATE) # keep_fields f footstep failed recall v keys opened
          else (let (x', o') = shape_field f footstep recall key x opened in
            (lit key, x') # keep_fields f footstep failed recall v keys o'))"

definition body_for :: "shaper \<Rightarrow> bool \<Rightarrow> json \<Rightarrow> rstr" where
  "body_for w footstep v =
     (let f = leaf w (if footstep then FOOTSTEP_LEAF_MAX_BYTES else LEAF_MAX_BYTES);
          failed = (json_get (lit ''failed'') v = Some (JBool True));
          kept = keep_fields f footstep failed (is_brain_recall (tool_name v)) v BODY_KEYS False
      in if kept = [] then [] else sh_print w (JObj (sort_key fst kept)))"

definition event_body :: "shaper \<Rightarrow> bool \<Rightarrow> json \<Rightarrow> rstr" where
  "event_body w footstep v =
     (let body = body_of w (body_for w footstep v) in
      if footstep then clamp_ends body FOOTSTEP_BODY_MAX_BYTES else body)"

section \<open>Paths\<close>

definition portable_separators :: "bool \<Rightarrow> rstr \<Rightarrow> rstr" where
  "portable_separators windows p = (if windows then map (\<lambda>c. if c = 92 then 47 else c) p else p)"

text \<open>The deepest ancestor that exists, with the rest put back.\<close>

function resolve_up :: "(path \<Rightarrow> path option) \<Rightarrow> path \<Rightarrow> path \<Rightarrow> path option" where
  "resolve_up canon p below =
     (case parent p of None \<Rightarrow> None
      | Some q \<Rightarrow>
          (let below' = (case file_name p of None \<Rightarrow> below | Some n \<Rightarrow> n # below) in
           case canon q of Some c \<Rightarrow> Some (c @ below') | None \<Rightarrow> resolve_up canon q below'))"
  by pat_completeness auto
termination
  by (relation "measure (\<lambda>(_, p, _). length p)") (auto simp: parent_def split: if_splits)

declare resolve_up.simps [simp del]

definition resolve_symlinks :: "(path \<Rightarrow> path option) \<Rightarrow> path \<Rightarrow> path" where
  "resolve_symlinks canon p =
     (case canon p of Some c \<Rightarrow> c
      | None \<Rightarrow> (case resolve_up canon p [] of Some c \<Rightarrow> c | None \<Rightarrow> p))"

text \<open>\<open>Path::strip_prefix\<close>.\<close>

definition strip_root :: "path \<Rightarrow> path \<Rightarrow> path option" where
  "strip_root root p = (if take (length root) p = root then Some (drop (length root) p) else None)"

definition relativize :: "bool \<Rightarrow> (path \<Rightarrow> path option) \<Rightarrow> path \<Rightarrow> rstr \<Rightarrow> rstr" where
  "relativize windows canon root p =
     (case strip_root root (resolve_symlinks canon (path_components p)) of
        Some r \<Rightarrow> portable_separators windows (path_text r)
      | None \<Rightarrow>
          (case strip_root root (path_components p) of
             Some r \<Rightarrow> portable_separators windows (path_text r)
           | None \<Rightarrow> portable_separators windows p))"

definition files_for :: "bool \<Rightarrow> (path \<Rightarrow> path option) \<Rightarrow> path \<Rightarrow> json \<Rightarrow> rstr list" where
  "files_for windows canon root v =
     (let found = (case tool_input v of None \<Rightarrow> []
                   | Some input \<Rightarrow>
                       (case tool_path input of None \<Rightarrow> [] | Some p \<Rightarrow> [p]) @
                       (case json_get (lit ''edits'') input of Some (JArr edits) \<Rightarrow> List.map_filter tool_path edits | _ \<Rightarrow> []))
      in filter (\<lambda>p. p \<noteq> []) (map (relativize windows canon root) found))"

definition cli_root :: "rstr \<Rightarrow> path option" where
  "cli_root cli =
     (if cli = lit ''claude-code'' then Some (map lit [''.claude'', ''projects''])
      else if cli = lit ''codex'' then Some (map lit [''.codex'', ''sessions''])
      else if cli = lit ''cursor'' then Some (map lit [''.cursor'', ''projects'']) else None)"

definition is_transcript_under :: "(path \<Rightarrow> path option) \<Rightarrow> path \<Rightarrow> rstr \<Rightarrow> rstr \<Rightarrow> bool" where
  "is_transcript_under canon home cli p =
     (case cli_root cli of None \<Rightarrow> False
      | Some below \<Rightarrow>
          (case (canon (path_components p), canon (home @ below)) of
             (Some resolved, Some root) \<Rightarrow>
               (case strip_root root resolved of None \<Rightarrow> False
                | Some rest \<Rightarrow>
                    if cli \<noteq> lit ''cursor'' then True
                    else (case rest of
                        [_, dir, i, name] \<Rightarrow>
                          dir = lit ''agent-transcripts'' \<and> is_jsonl name \<and>
                          (case rsplit_char 46 name of Some (stem, _) \<Rightarrow> stem = i | None \<Rightarrow> False)
                      | _ \<Rightarrow> False))
           | _ \<Rightarrow> False))"

definition CONFIG_DIRS :: "path list" where
  "CONFIG_DIRS = map (map lit) [[''.gemini''], [''.cursor''], [''.codex''], [''.claude''], [''.antigravity''], [''.config'', ''opencode'']]"

definition is_cli_config_dir :: "(path \<Rightarrow> path option) \<Rightarrow> path option \<Rightarrow> path \<Rightarrow> bool" where
  "is_cli_config_dir canon home p =
     (case home of None \<Rightarrow> False
      | Some h \<Rightarrow>
          (let resolve = (\<lambda>q. case canon q of Some c \<Rightarrow> c | None \<Rightarrow> q);
               pairs = [(resolve p, resolve h), (p, h)] in
           list_ex (\<lambda>dir. list_ex (\<lambda>(q, b). strip_root (b @ dir) q \<noteq> None) pairs) CONFIG_DIRS))"

definition working_directory :: "(path \<Rightarrow> path option) \<Rightarrow> path option \<Rightarrow> path option \<Rightarrow> json \<Rightarrow> path option" where
  "working_directory canon home current v =
     (case first_string v [''cwd'', ''workspace_root'', ''directory''] of
        Some p \<Rightarrow> Some (path_components p)
      | None \<Rightarrow>
          (case List.map_filter (\<lambda>key. case json_get (lit key) v of
                   Some (JArr (JStr p # _)) \<Rightarrow> if p = [] then None else Some p | _ \<Rightarrow> None)
                 [''workspacePaths'', ''workspace_roots''] of
             p # _ \<Rightarrow> Some (path_components p)
           | [] \<Rightarrow>
               (case current of None \<Rightarrow> None
                | Some c \<Rightarrow> if is_cli_config_dir canon home c then None else Some c)))"

definition session_uuid :: "host \<Rightarrow> rstr \<Rightarrow> rstr" where
  "session_uuid h raw = (case x_parse_uuid h raw of Some u \<Rightarrow> u | None \<Rightarrow> x_uuid5 h raw)"

definition payload_session :: "host \<Rightarrow> json \<Rightarrow> rstr" where
  "payload_session h v =
     session_uuid h (case first_string v [''session_id'', ''sessionId'', ''thread_id'', ''conversationId''] of
        Some s \<Rightarrow> s | None \<Rightarrow> lit ''unknown-session'')"

end
