(* ===== verification/Transcript.thy ===== *)
theory Transcript
  imports Sanitize Ids
begin

text \<open>
  Reading a host CLI's transcript, \<open>src/src/transcript.rs\<close>: the tail of the file, the prose in a line,
  the model's last answer, the span a consolidation reads, and where Cursor keeps its file. A JSON
  parser, the lossy UTF-8 decoder and \<open>canonicalize\<close> are parameters. The two truncations never fail
  (\<open>cut_text_total\<close>), so their result is taken as it is.
\<close>

definition cut_text :: "rstr \<Rightarrow> nat \<Rightarrow> rstr" where
  "cut_text s n = (case truncate_text s n of Some t \<Rightarrow> t | None \<Rightarrow> [])"

lemma cut_text_total: "truncate_text s n = Some (cut_text s n)"
  using truncate_bounded [of s n] by (auto simp: cut_text_def)

lemma cut_text_bounded: "blen (cut_text s n) \<le> n"
  using truncate_bounded [of s n] cut_text_total [of s n] by simp

section \<open>The tail of a file\<close>

definition SPAN_MAX_BYTES :: nat where "SPAN_MAX_BYTES = 12 * 1024"
definition TAIL_BYTES :: nat where "TAIL_BYTES = 256 * 1024"
definition ANSWER_MAX_BYTES :: nat where "ANSWER_MAX_BYTES = 600"

definition read_tail :: "(nat list \<Rightarrow> rstr) \<Rightarrow> nat list \<Rightarrow> nat \<Rightarrow> rstr option" where
  "read_tail lossy content bytes =
     (let start = length content - bytes; decoded = lossy (drop start content) in
      if start = 0 then Some decoded
      else case dropWhile (\<lambda>c. c \<noteq> 10) decoded of [] \<Rightarrow> None | _ # rest \<Rightarrow> Some rest)"

section \<open>The prose of a line\<close>

datatype speaker = Assistant | User | Reasoning

fun speaker_str :: "speaker \<Rightarrow> rstr" where
  "speaker_str Assistant = lit ''assistant''"
| "speaker_str User = lit ''user''"
| "speaker_str Reasoning = lit ''reasoning''"

record prose =
  ln_speaker :: speaker
  ln_text :: rstr

definition push_line :: "speaker \<Rightarrow> rstr \<Rightarrow> prose list \<Rightarrow> prose list" where
  "push_line who words out =
     (let t = trim words in
      if t = [] then out
      else if out \<noteq> [] \<and> ln_speaker (last out) = who \<and> ln_text (last out) = t then out
      else out @ [\<lparr>ln_speaker = who, ln_text = t\<rparr>])"

definition str_at :: "string \<Rightarrow> json \<Rightarrow> rstr option" where
  "str_at key v = Option.bind (json_get (lit key) v) as_str"

definition claude_speaker :: "json \<Rightarrow> speaker option" where
  "claude_speaker v =
     (case Option.bind (case json_get (lit ''type'') v of Some t \<Rightarrow> Some t | None \<Rightarrow> json_get (lit ''role'') v) as_str of
        None \<Rightarrow> None
      | Some t \<Rightarrow> if t = lit ''assistant'' then Some Assistant else if t = lit ''user'' then Some User else None)"

definition extract_claude :: "json \<Rightarrow> prose list \<Rightarrow> prose list" where
  "extract_claude v out =
     (case claude_speaker v of None \<Rightarrow> out
      | Some who \<Rightarrow>
          (case Option.bind (json_get (lit ''message'') v) (json_get (lit ''content'')) of
             Some (JStr t) \<Rightarrow> push_line who t out
           | Some (JArr blocks) \<Rightarrow>
               foldl (\<lambda>out block. if str_at ''type'' block = Some (lit ''text'')
                        then (case str_at ''text'' block of Some t \<Rightarrow> push_line who t out | None \<Rightarrow> out) else out) out blocks
           | _ \<Rightarrow> out))"

definition codex_speaker :: "json \<Rightarrow> speaker option" where
  "codex_speaker payload =
     (case str_at ''type'' payload of None \<Rightarrow> None
      | Some t \<Rightarrow>
          if t = lit ''message'' then
            (case str_at ''role'' payload of
               Some r \<Rightarrow> if r = lit ''assistant'' then Some Assistant
                        else if r = lit ''developer'' \<or> r = lit ''system'' then None else Some User
             | None \<Rightarrow> Some User)
          else if t = lit ''agent_message'' then Some Assistant
          else if t = lit ''reasoning'' then Some Reasoning else None)"

definition codex_block :: "speaker \<Rightarrow> prose list \<Rightarrow> json \<Rightarrow> prose list" where
  "codex_block who out block =
     (case as_str block of Some t \<Rightarrow> push_line who t out
      | None \<Rightarrow> (case str_at ''text'' block of Some t \<Rightarrow> push_line who t out | None \<Rightarrow> out))"

definition extract_codex :: "json \<Rightarrow> prose list \<Rightarrow> prose list" where
  "extract_codex v out =
     (let payload = (case json_get (lit ''payload'') v of Some p \<Rightarrow> p | None \<Rightarrow> JNull) in
      case codex_speaker payload of None \<Rightarrow> out
      | Some who \<Rightarrow>
          foldl (\<lambda>out key. case json_get (lit key) payload of
                     Some (JStr t) \<Rightarrow> push_line who t out
                   | Some (JArr blocks) \<Rightarrow> foldl (codex_block who) out blocks
                   | _ \<Rightarrow> out)
            out [''text'', ''message'', ''content'', ''summary''])"

definition extract_line :: "(rstr \<Rightarrow> json option) \<Rightarrow> rstr \<Rightarrow> prose list \<Rightarrow> rstr \<Rightarrow> prose list" where
  "extract_line json cli out line =
     (if trim line = [] then out
      else case json line of None \<Rightarrow> out
      | Some v \<Rightarrow> if cli = lit ''codex'' then extract_codex v out else extract_claude v out)"

definition prose_of :: "(rstr \<Rightarrow> json option) \<Rightarrow> rstr \<Rightarrow> rstr \<Rightarrow> prose list" where
  "prose_of json cli raw = foldl (extract_line json cli) [] (text_lines raw)"

section \<open>The last answer and the span\<close>

definition last_answer ::
    "(nat list \<Rightarrow> rstr) \<Rightarrow> (rstr \<Rightarrow> json option) \<Rightarrow> (rstr \<Rightarrow> bool) \<Rightarrow> sanitizer \<Rightarrow> rstr \<Rightarrow> nat list option \<Rightarrow> rstr option" where
  "last_answer lossy json is_reference self cli content =
     (case Option.bind content (\<lambda>c. read_tail lossy c TAIL_BYTES) of None \<Rightarrow> None
      | Some raw \<Rightarrow>
          (case filter (\<lambda>l. ln_speaker l = Assistant) (rev (prose_of json cli raw)) of [] \<Rightarrow> None
           | answer # _ \<Rightarrow>
               (let t = cut_text (trim (scrub is_reference self (trim (ln_text answer)))) ANSWER_MAX_BYTES
                in if t = [] then None else Some t)))"

definition render_prose :: "prose \<Rightarrow> rstr" where
  "render_prose l = speaker_str (ln_speaker l) @ lit '': '' @ trim (ln_text l) @ [10]"

text \<open>Backwards over the lines, newest first, until the budget is spent.\<close>

fun keep_newest :: "rstr list \<Rightarrow> nat \<Rightarrow> rstr list \<Rightarrow> rstr list" where
  "keep_newest [] spent kept = kept"
| "keep_newest (r # older) spent kept =
     (if spent + blen r > SPAN_MAX_BYTES
      then (if kept = [] then [cut_text r SPAN_MAX_BYTES] else kept)
      else keep_newest older (spent + blen r) (kept @ [r]))"

definition read_span :: "(rstr \<Rightarrow> json option) \<Rightarrow> (rstr \<Rightarrow> bool) \<Rightarrow> sanitizer \<Rightarrow> rstr \<Rightarrow> rstr option \<Rightarrow> rstr option" where
  "read_span json is_reference self cli content =
     (case content of None \<Rightarrow> None
      | Some raw \<Rightarrow>
          (let lines = prose_of json cli raw in
           if lines = [] then None
           else let kept = keep_newest (map render_prose (rev lines)) 0 [] in
             if kept = [] then None else Some (scrub is_reference self (concat (rev kept)))))"

text \<open>Cursor's transcript: the id goes through a UUID and the file must resolve inside the tree.\<close>

fun transcript_among :: "(path \<Rightarrow> path option) \<Rightarrow> disk \<Rightarrow> path \<Rightarrow> rstr \<Rightarrow> path list \<Rightarrow> path option" where
  "transcript_among canon d projects i [] = None"
| "transcript_among canon d projects i (project # others) =
     (case canon (project @ [lit ''agent-transcripts'', i, i @ lit ''.jsonl'']) of
        None \<Rightarrow> transcript_among canon d projects i others
      | Some resolved \<Rightarrow>
          if take (length projects) resolved = projects \<and> is_file d resolved then Some resolved
          else transcript_among canon d projects i others)"

definition cursor_transcript_in :: "host \<Rightarrow> (path \<Rightarrow> path option) \<Rightarrow> (path \<Rightarrow> path list) \<Rightarrow> disk \<Rightarrow> path \<Rightarrow> rstr \<Rightarrow> path option" where
  "cursor_transcript_in h canon entries d home session =
     (case x_parse_uuid h session of None \<Rightarrow> None
      | Some u \<Rightarrow>
          (case canon (home @ map lit [''.cursor'', ''projects'']) of None \<Rightarrow> None
           | Some projects \<Rightarrow> transcript_among canon d projects (x_show_uuid h u) (entries projects)))"

section \<open>What is read\<close>

text \<open>Every line extracted says something, and no line repeats the one before it.\<close>

fun no_repeat :: "prose list \<Rightarrow> bool" where
  "no_repeat (a # b # ls) = (a \<noteq> b \<and> no_repeat (b # ls))"
| "no_repeat _ = True"

definition prose_ok :: "prose list \<Rightarrow> bool" where
  "prose_ok ls = (list_all (\<lambda>l. ln_text l \<noteq> []) ls \<and> no_repeat ls)"

lemma no_repeat_snoc: "no_repeat (ls @ [l]) = (no_repeat ls \<and> (ls \<noteq> [] \<longrightarrow> last ls \<noteq> l))"
  by (induction ls rule: no_repeat.induct) auto

lemma push_line_ok: "prose_ok out \<Longrightarrow> prose_ok (push_line who words out)"
  by (auto simp: push_line_def prose_ok_def no_repeat_snoc Let_def)

lemma foldl_prose_ok: "(\<And>out x. prose_ok out \<Longrightarrow> prose_ok (f out x)) \<Longrightarrow> prose_ok out \<Longrightarrow> prose_ok (foldl f out xs)"
  by (induction xs arbitrary: out) simp_all

lemma extract_claude_ok: "prose_ok out \<Longrightarrow> prose_ok (extract_claude v out)"
  by (auto simp: extract_claude_def intro!: foldl_prose_ok push_line_ok split: option.split json.split)

lemma codex_block_ok: "prose_ok out \<Longrightarrow> prose_ok (codex_block who out b)"
  by (auto simp: codex_block_def intro: push_line_ok split: option.split)

lemma codex_blocks_ok: "prose_ok out \<Longrightarrow> prose_ok (foldl (codex_block who) out blocks)"
  by (rule foldl_prose_ok [OF codex_block_ok])

lemma extract_codex_ok: "prose_ok out \<Longrightarrow> prose_ok (extract_codex v out)"
proof -
  assume "prose_ok out"
  then have "prose_ok (foldl (\<lambda>out key. case json_get (lit key) payload of
      Some (JStr t) \<Rightarrow> push_line who t out | Some (JArr blocks) \<Rightarrow> foldl (codex_block who) out blocks | _ \<Rightarrow> out) out keys)"
    for payload who keys
    by (rule foldl_prose_ok [rotated]) (simp add: push_line_ok codex_blocks_ok split: option.split json.split)
  then show ?thesis using \<open>prose_ok out\<close> unfolding extract_codex_def Let_def by (simp only: split: option.split) simp
qed

lemma extract_line_ok: "prose_ok out \<Longrightarrow> prose_ok (extract_line json cli out l)"
  by (simp add: extract_line_def extract_claude_ok extract_codex_ok split: option.split)

lemma prose_of_ok: "prose_ok (prose_of json cli raw)"
  unfolding prose_of_def by (rule foldl_prose_ok [OF extract_line_ok]) (simp_all add: prose_ok_def)

lemma last_take_nth: "0 < m \<Longrightarrow> m \<le> length xs \<Longrightarrow> last (take m xs) = xs ! (m - 1)"
  by (subst last_conv_nth) auto

lemma blen_concat_rev: "blen (concat (rev ls)) = blen (concat ls)"
  by (induction ls) simp_all

lemma keep_newest_eq:
  assumes "spent = blen (concat kept)" "spent \<le> SPAN_MAX_BYTES"
  shows "(\<exists>n. keep_newest rs spent kept = kept @ take n rs \<and> blen (concat (kept @ take n rs)) \<le> SPAN_MAX_BYTES \<and>
            (n < length rs \<longrightarrow> SPAN_MAX_BYTES < blen (concat (kept @ take n rs)) + blen (rs ! n) \<and> kept @ take n rs \<noteq> [])) \<or>
         kept = [] \<and> rs \<noteq> [] \<and> SPAN_MAX_BYTES < blen (hd rs) \<and> keep_newest rs spent kept = [cut_text (hd rs) SPAN_MAX_BYTES]"
  using assms
proof (induction rs spent kept rule: keep_newest.induct)
  case (1 spent kept)
  then show ?case by simp
next
  case (2 r older spent kept)
  show ?case
  proof (cases "spent + blen r > SPAN_MAX_BYTES")
    case True
    show ?thesis
    proof (cases "kept = []")
      case True
      then show ?thesis using 2(2,3) \<open>spent + blen r > SPAN_MAX_BYTES\<close> by simp
    next
      case False
      then show ?thesis using 2(2,3) True by (intro disjI1 exI [of _ 0]) simp
    qed
  next
    case False
    have IH: "(\<exists>n. keep_newest older (spent + blen r) (kept @ [r]) = (kept @ [r]) @ take n older \<and>
        blen (concat ((kept @ [r]) @ take n older)) \<le> SPAN_MAX_BYTES \<and>
        (n < length older \<longrightarrow> SPAN_MAX_BYTES < blen (concat ((kept @ [r]) @ take n older)) + blen (older ! n) \<and> (kept @ [r]) @ take n older \<noteq> []))"
      using 2(1) [OF False] 2(2) False by simp
    then obtain n where "keep_newest older (spent + blen r) (kept @ [r]) = (kept @ [r]) @ take n older"
      "blen (concat ((kept @ [r]) @ take n older)) \<le> SPAN_MAX_BYTES"
      "n < length older \<longrightarrow> SPAN_MAX_BYTES < blen (concat ((kept @ [r]) @ take n older)) + blen (older ! n)" by blast
    then show ?thesis using False by (intro disjI1 exI [of _ "Suc n"]) simp
  qed
qed

text \<open>
  C37: a span keeps the newest prose. What consolidation reads of a transcript is the scrub of a text
  within the budget: the longest run of whole lines at the end of the file that fits, in their
  order - one more line would not have fitted - or, where the newest line alone is over the budget,
  that line cut to it. A transcript with any prose always gives a span.
\<close>
theorem span_keeps_the_newest:
  "case read_span json is_reference self cli (Some raw) of
     None \<Rightarrow> prose_of json cli raw = []
   | Some out \<Rightarrow>
       \<exists>span rendered. rendered = map render_prose (prose_of json cli raw) \<and> out = scrub is_reference self span \<and>
         blen span \<le> SPAN_MAX_BYTES \<and>
         ((\<exists>older kept. rendered = older @ kept \<and> span = concat kept \<and> kept \<noteq> [] \<and>
             (older = [] \<or> SPAN_MAX_BYTES < blen (last older) + blen span)) \<or>
          SPAN_MAX_BYTES < blen (last rendered) \<and> span = cut_text (last rendered) SPAN_MAX_BYTES)"
proof (cases "prose_of json cli raw = []")
  case True
  then show ?thesis by (simp add: read_span_def)
next
  case False
  let ?rendered = "map render_prose (prose_of json cli raw)"
  let ?kept = "keep_newest (rev ?rendered) 0 []"
  have kept: "map render_prose (rev (prose_of json cli raw)) = rev ?rendered" by (simp add: rev_map)
  have ne: "?rendered \<noteq> []" using False by simp
  consider n where "?kept = take n (rev ?rendered)" "blen (concat (take n (rev ?rendered))) \<le> SPAN_MAX_BYTES"
      "n < length ?rendered \<longrightarrow> SPAN_MAX_BYTES < blen (concat (take n (rev ?rendered))) + blen (rev ?rendered ! n) \<and> take n (rev ?rendered) \<noteq> []"
    | "SPAN_MAX_BYTES < blen (last ?rendered)" "?kept = [cut_text (last ?rendered) SPAN_MAX_BYTES]"
    using keep_newest_eq [of 0 "[]" "rev ?rendered"] ne by (auto simp: hd_rev)
  then show ?thesis
  proof cases
    case 1
    let ?m = "length ?rendered - n"
    have rev: "rev ?kept = drop ?m ?rendered" using 1(1) by (simp add: take_rev)
    have b: "blen (concat (rev ?kept)) = blen (concat (take n (rev ?rendered)))"
      using 1(1) by (simp add: blen_concat_rev)
    have k: "?kept \<noteq> []"
      using 1(1,3) ne by (cases "n < length ?rendered") auto
    have older: "take ?m ?rendered = [] \<or> SPAN_MAX_BYTES < blen (last (take ?m ?rendered)) + blen (concat (rev ?kept))"
    proof (cases "n < length ?rendered")
      case True
      then have "last (take ?m ?rendered) = rev ?rendered ! n"
        using last_take_nth [of ?m ?rendered] by (simp add: rev_nth del: length_map)
      then show ?thesis using 1(3) True b by simp
    qed simp
    have "read_span json is_reference self cli (Some raw) = Some (scrub is_reference self (concat (rev ?kept)))"
      using False k by (simp add: read_span_def kept)
    moreover have "?rendered = take ?m ?rendered @ rev ?kept" unfolding rev by (simp only: append_take_drop_id)
    moreover have "blen (concat (rev ?kept)) \<le> SPAN_MAX_BYTES" unfolding b by (rule 1(2))
    moreover have "rev ?kept \<noteq> []" using k by (simp only: rev_is_Nil_conv) simp
    ultimately show ?thesis using older by (simp only: option.case) blast
  next
    case 2
    then have "read_span json is_reference self cli (Some raw) = Some (scrub is_reference self (cut_text (last ?rendered) SPAN_MAX_BYTES))"
      using False by (simp add: read_span_def kept)
    then show ?thesis using 2(1) cut_text_bounded by simp blast
  qed
qed

lemma answer_is_bounded:
  "case last_answer lossy json is_reference self cli content of None \<Rightarrow> True
   | Some t \<Rightarrow> t \<noteq> [] \<and> blen t \<le> ANSWER_MAX_BYTES"
  by (simp add: last_answer_def Let_def cut_text_bounded split: option.split list.split)

end
