(* ===== verification/Spill.thy ===== *)
theory Spill
  imports Store_Ledger Ids Numerals Json_Text
begin

text \<open>
  What a session was shown while the database was out of reach, \<open>src/src/maint.rs\<close>: one JSON line per
  call appended to \<open>surfaced.jsonl\<close>, read back, folded into the ledgers and emptied; and the wipe that
  waits as a file. The JSON printer and parser are parameters. A fold meets the hooks that append
  while it runs as the text that arrives between its read and its look at the length.
\<close>

section \<open>The lines\<close>

definition kind_tag :: "ledger \<Rightarrow> rstr" where
  "kind_tag k = (case k of Recalled \<Rightarrow> lit ''recalled'' | OpenedIds \<Rightarrow> lit ''opened''
     | Injected \<Rightarrow> lit ''injected'' | File \<Rightarrow> lit ''file'')"

definition tag_kind :: "rstr \<Rightarrow> ledger option" where
  "tag_kind t = (if t = lit ''recalled'' then Some Recalled else if t = lit ''opened'' then Some OpenedIds
     else if t = lit ''injected'' then Some Injected else if t = lit ''file'' then Some File else None)"

definition spill_value :: "rstr \<Rightarrow> ledger \<Rightarrow> rstr list \<Rightarrow> nat \<Rightarrow> json" where
  "spill_value session kind ids bytes =
     JObj ((if bytes = 0 then [] else [(lit ''bytes'', JNum (dec bytes))]) @
       [(lit ''ids'', JArr (map JStr ids)), (lit ''kind'', JStr (kind_tag kind)), (lit ''session'', JStr session)])"

definition SURFACED :: "path \<Rightarrow> path" where "SURFACED data = data @ [lit ''surfaced.jsonl'']"
definition FOLDING :: "path \<Rightarrow> path" where "FOLDING data = data @ [lit ''surfaced.jsonl.folding'']"
definition WIPES :: "path \<Rightarrow> path" where "WIPES data = data @ [lit ''pending-wipe'']"

definition file_text :: "disk \<Rightarrow> path \<Rightarrow> rstr" where
  "file_text d p = (case read_file d p of None \<Rightarrow> [] | Some t \<Rightarrow> t)"

definition spill_line :: "(json \<Rightarrow> rstr) \<Rightarrow> path \<Rightarrow> rstr \<Rightarrow> ledger \<Rightarrow> rstr list \<Rightarrow> nat \<Rightarrow> disk \<Rightarrow> disk" where
  "spill_line show data session kind ids bytes d =
     (if ids = [] then d
      else write_file (SURFACED data) (file_text d (SURFACED data) @ show (spill_value session kind ids bytes) @ [10])
             (create_dir_all data d))"

definition spill_surfaced :: "(json \<Rightarrow> rstr) \<Rightarrow> path \<Rightarrow> rstr \<Rightarrow> ledger \<Rightarrow> rstr list \<Rightarrow> disk \<Rightarrow> disk" where
  "spill_surfaced show data session kind ids d = spill_line show data session kind ids 0 d"

definition spill_injected :: "(json \<Rightarrow> rstr) \<Rightarrow> path \<Rightarrow> rstr \<Rightarrow> rstr list \<Rightarrow> nat \<Rightarrow> disk \<Rightarrow> disk" where
  "spill_injected show data session ids bytes d = spill_line show data session Injected ids bytes d"

text \<open>\<open>Value::as_u64\<close> of a number as it is written.\<close>

definition as_u64 :: "json \<Rightarrow> nat option" where
  "as_u64 v = (case v of JNum t \<Rightarrow> (if t \<noteq> [] \<and> list_all is_ascii_digit t then parse_u64 t else None) | _ \<Rightarrow> None)"

definition parse_spilled :: "json \<Rightarrow> surfaced_line option" where
  "parse_spilled v =
     Option.bind (Option.bind (Option.bind (json_get (lit ''kind'') v) as_str) tag_kind) (\<lambda>kind.
     Option.bind (Option.bind (json_get (lit ''session'') v) as_str) (\<lambda>session.
     case json_get (lit ''ids'') v of
       Some (JArr ids) \<Rightarrow> Some \<lparr>l_session = session, l_kind = kind, l_ids = List.map_filter as_str ids,
          l_bytes = (case Option.bind (json_get (lit ''bytes'') v) as_u64 of None \<Rightarrow> 0 | Some n \<Rightarrow> n)\<rparr>
     | _ \<Rightarrow> None))"

definition parse_surfaced :: "(rstr \<Rightarrow> json option) \<Rightarrow> rstr \<Rightarrow> surfaced_line list" where
  "parse_surfaced json content = List.map_filter (\<lambda>l. Option.bind (json l) parse_spilled) (text_lines content)"

definition spilled :: "(rstr \<Rightarrow> json option) \<Rightarrow> path \<Rightarrow> rstr \<Rightarrow> rstr \<Rightarrow> disk \<Rightarrow> bool" where
  "spilled json data session eid d =
     list_ex (\<lambda>p. case read_file d p of None \<Rightarrow> False
        | Some t \<Rightarrow> list_ex (\<lambda>l. l_session l = session \<and> l_kind l \<noteq> File \<and> list_ex (\<lambda>i. i = eid) (l_ids l)) (parse_surfaced json t))
       [SURFACED data, FOLDING data]"

section \<open>The fold\<close>

text \<open>
  One entry per round of \<open>fold_and_empty\<close>: whether the store refuses the lines, and what a hook
  appended between the read and the look at the length.
\<close>

fun fold_rounds :: "(rstr \<Rightarrow> json option) \<Rightarrow> (bool \<times> rstr) list \<Rightarrow> nat \<Rightarrow> rstr \<Rightarrow> store \<Rightarrow> bool \<times> rstr \<times> store" where
  "fold_rounds json [] seen content db = (True, content, db)"
| "fold_rounds json ((refused, late) # rounds) seen content db =
     (if refused then (False, content, db)
      else let db' = fst (Store_Ledger.fold_surfaced (parse_surfaced json (drop seen content)) db); seen' = length content in
        if seen' = 0 then (True, content, db')
        else if length (content @ late) = seen' then (True, [], db')
        else fold_rounds json rounds seen' (content @ late) db')"

definition fold_and_empty :: "(rstr \<Rightarrow> json option) \<Rightarrow> (bool \<times> rstr) list \<Rightarrow> path \<Rightarrow> disk \<times> store \<Rightarrow> bool \<times> disk \<times> store" where
  "fold_and_empty json rounds p s =
     (case s of (d, db) \<Rightarrow>
        (case read_file d p of None \<Rightarrow> (True, d, db)
         | Some content \<Rightarrow>
             (case fold_rounds json (take 4 rounds) 0 content db of
                (ok, content', db') \<Rightarrow> (ok, (if content' = content then d else write_file p content' d), db'))))"

text \<open>\<open>fold_surfaced\<close> of \<open>maint.rs\<close>; \<open>renamed\<close> says whether the rename works.\<close>

definition rename_file :: "path \<Rightarrow> path \<Rightarrow> disk \<Rightarrow> disk" where
  "rename_file p q d =
     d\<lparr>d_files := (case read_file d p of None \<Rightarrow> d_files d
        | Some t \<Rightarrow> (q, t) # filter (\<lambda>(r, _). r \<noteq> p) (d_files d))\<rparr>"

definition fold_spill ::
    "(rstr \<Rightarrow> json option) \<Rightarrow> (bool \<times> rstr) list \<Rightarrow> bool \<Rightarrow> (bool \<times> rstr) list \<Rightarrow> path \<Rightarrow> disk \<times> store \<Rightarrow> bool \<times> disk \<times> store" where
  "fold_spill json before renamed rounds data s =
     (case fold_and_empty json before (FOLDING data) s of
        (False, d, db) \<Rightarrow> (False, d, db)
      | (True, d, db) \<Rightarrow>
          if path_exists d (SURFACED data) \<and> \<not> renamed then (False, d, db)
          else (let d1 = (if path_exists d (SURFACED data) then rename_file (SURFACED data) (FOLDING data) d else d) in
            case fold_and_empty json rounds (FOLDING data) (d1, db) of
              (False, d2, db2) \<Rightarrow> (False, d2, db2)
            | (True, d2, db2) \<Rightarrow> (\<not> path_exists d2 (SURFACED data), d2, db2)))"

section \<open>The wipe that waits\<close>

definition wipe_path :: "path \<Rightarrow> rstr \<Rightarrow> path" where
  "wipe_path data session = WIPES data @ [map (\<lambda>c. if is_ascii_alnum c \<or> c = 45 then c else 95) session]"

definition pending_wipe :: "path \<Rightarrow> rstr \<Rightarrow> disk \<Rightarrow> disk" where
  "pending_wipe data session d = write_file (wipe_path data session) [] (create_dir_all (WIPES data) d)"

definition wipe_pending :: "path \<Rightarrow> rstr \<Rightarrow> disk \<Rightarrow> bool" where
  "wipe_pending data session d = path_exists d (wipe_path data session)"

definition clear_pending_wipe :: "path \<Rightarrow> rstr \<Rightarrow> disk \<Rightarrow> disk" where
  "clear_pending_wipe data session d = d\<lparr>d_files := filter (\<lambda>(q, _). q \<noteq> wipe_path data session) (d_files d)\<rparr>"

section \<open>Lines come back\<close>

lemma tag_kind_tag [simp]: "tag_kind (kind_tag k) = Some k"
  by (cases k) (simp_all add: tag_kind_def kind_tag_def lit_def)

lemma map_filter_strs [simp]: "List.map_filter as_str (map JStr ids) = ids"
  by (induction ids) (simp_all add: map_filter_simps)

lemma as_u64_dec: "n \<le> U64_MAX \<Longrightarrow> as_u64 (JNum (dec n)) = Some n"
  by (simp add: as_u64_def parse_u64_dec list_all_iff dec_digits)

lemma parse_spill_value:
  "bytes \<le> U64_MAX \<Longrightarrow> parse_spilled (spill_value session kind ids bytes) =
     Some \<lparr>l_session = session, l_kind = kind, l_ids = ids, l_bytes = bytes\<rparr>"
  by (cases "bytes = 0") (simp_all add: parse_spilled_def spill_value_def as_u64_dec lit_def)

text \<open>A file of whole lines.\<close>

definition whole :: "rstr \<Rightarrow> bool" where
  "whole t = (t = [] \<or> last t = 10)"

type_synonym spill = "rstr \<times> ledger \<times> rstr list \<times> nat"

fun line_of :: "spill \<Rightarrow> surfaced_line" where
  "line_of (session, kind, ids, bytes) = \<lparr>l_session = session, l_kind = kind, l_ids = ids, l_bytes = bytes\<rparr>"

definition reads_back :: "(json \<Rightarrow> rstr) \<Rightarrow> (rstr \<Rightarrow> json option) \<Rightarrow> spill \<Rightarrow> bool" where
  "reads_back show json w = (case w of (session, kind, ids, bytes) \<Rightarrow>
     let v = spill_value session kind ids bytes in
     bytes \<le> U64_MAX \<and> json (show v) = Some v \<and> 10 \<notin> set (show v) \<and> strip_cr (show v) = show v)"

definition spill_all :: "(json \<Rightarrow> rstr) \<Rightarrow> path \<Rightarrow> spill list \<Rightarrow> disk \<Rightarrow> disk" where
  "spill_all show data ws d = foldl (\<lambda>d (session, kind, ids, bytes). spill_line show data session kind ids bytes d) d ws"

lemma file_text_spill:
  "ids \<noteq> [] \<Longrightarrow> file_text (spill_line show data session kind ids bytes d) (SURFACED data) =
     file_text d (SURFACED data) @ show (spill_value session kind ids bytes) @ [10]"
  by (simp add: spill_line_def file_text_def read_file_def write_file_def)

lemma spill_appends:
  assumes "reads_back show json (session, kind, ids, bytes)" "whole (file_text d (SURFACED data))" "ids \<noteq> []"
  shows "parse_surfaced json (file_text (spill_line show data session kind ids bytes d) (SURFACED data)) =
      parse_surfaced json (file_text d (SURFACED data)) @ [line_of (session, kind, ids, bytes)] \<and>
    whole (file_text (spill_line show data session kind ids bytes d) (SURFACED data))"
proof -
  let ?c = "file_text d (SURFACED data)" and ?l = "show (spill_value session kind ids bytes)"
  have ok: "bytes \<le> U64_MAX" "json ?l = Some (spill_value session kind ids bytes)" "10 \<notin> set ?l" "strip_cr ?l = ?l"
    using assms(1) by (simp_all add: reads_back_def Let_def)
  have "text_lines (?c @ ?l @ [10]) = text_lines ?c @ [?l]"
    using text_lines_append [of ?c ?l] assms(2) ok(3,4) by (simp add: whole_def)
  then show ?thesis unfolding file_text_spill [OF assms(3)]
    using ok(1,2) parse_spill_value by (simp add: parse_surfaced_def map_filter_app map_filter_simps whole_def)
qed

lemma spill_all_lines:
  assumes "list_all (reads_back show json) ws" "whole (file_text d (SURFACED data))"
  shows "parse_surfaced json (file_text (spill_all show data ws d) (SURFACED data)) =
      parse_surfaced json (file_text d (SURFACED data)) @ filter (\<lambda>l. l_ids l \<noteq> []) (map line_of ws) \<and>
    whole (file_text (spill_all show data ws d) (SURFACED data))"
  using assms
proof (induction ws arbitrary: d)
  case (Cons w ws)
  obtain session kind ids bytes where w: "w = (session, kind, ids, bytes)" by (cases w)
  show ?case
  proof (cases "ids = []")
    case True
    then show ?thesis using Cons by (simp add: w spill_all_def spill_line_def)
  next
    case False
    have "reads_back show json (session, kind, ids, bytes)" using Cons.prems(1) by (simp add: w)
    note one = spill_appends [OF this Cons.prems(2) False]
    then show ?thesis using Cons.IH [of "spill_line show data session kind ids bytes d"] Cons.prems(1) False
      by (simp add: w spill_all_def)
  qed
qed (simp add: spill_all_def)

section \<open>The fold takes them\<close>

lemma fold_rounds_keeps:
  "fold_rounds json rounds seen content db = (ok, content', db') \<Longrightarrow> covered k s i db \<Longrightarrow> covered k s i db'"
proof (induction json rounds seen content db rule: fold_rounds.induct)
  case (2 json refused late rounds seen content db)
  let ?db = "fst (Store_Ledger.fold_surfaced (parse_surfaced json (drop seen content)) db)"
  have "covered k s i ?db" using 2(3) by (simp add: Store_Ledger.fold_surfaced_def covered_lines)
  then show ?case using 2 by (cases refused) (auto simp: Let_def split: if_splits)
qed simp

lemma fold_rounds_ok: "list_all (\<lambda>r. \<not> fst r) rounds \<Longrightarrow> fst (fold_rounds json rounds seen content db)"
  by (induction json rounds seen content db rule: fold_rounds.induct) (simp_all add: Let_def)

lemma fold_rounds_covers:
  assumes "fold_rounds json rounds 0 content db = (ok, content', db')" "rounds \<noteq> []" "list_all (\<lambda>r. \<not> fst r) rounds"
    and "l \<in> set (parse_surfaced json content)" "i \<in> set (l_ids l)"
  shows "covered (l_kind l) (l_session l) i db'"
proof -
  obtain late later where r: "rounds = (False, late) # later" using assms(2,3) by (cases rounds) auto
  let ?db = "fst (Store_Ledger.fold_surfaced (parse_surfaced json content) db)"
  have "covered (l_kind l) (l_session l) i ?db"
    using fold_lines_cover [OF assms(4,5)] by (simp add: Store_Ledger.fold_surfaced_def)
  then show ?thesis using assms(1) fold_rounds_keeps by (auto simp: r Let_def split: if_splits)
qed

text \<open>The file is emptied only when every line that arrived was folded; otherwise it is kept whole.\<close>

lemma fold_rounds_loses_nothing:
  assumes "fold_rounds json rounds seen content db = (True, content', db')" "list_all (\<lambda>r. \<not> fst r) rounds"
    and "seen \<le> length content"
  shows "\<exists>k \<le> length rounds. (let arrived = content @ concat (map snd (take k rounds)) in
      content' = arrived \<or> content' = [] \<and> (\<exists>pieces. drop seen arrived = concat pieces \<and>
        db' = foldl fold_line db (concat (map (parse_surfaced json) pieces))))"
  using assms
proof (induction json rounds seen content db rule: fold_rounds.induct)
  case (1 json seen content db)
  then show ?case by simp
next
  case (2 json refused late rounds seen content db)
  let ?db = "fst (Store_Ledger.fold_surfaced (parse_surfaced json (drop seen content)) db)"
  have r: "\<not> refused" "list_all (\<lambda>r. \<not> fst r) rounds" using 2(3) by simp_all
  consider "length content = 0" | "length content \<noteq> 0" "late = []" | "length content \<noteq> 0" "late \<noteq> []" by blast
  then show ?case
  proof cases
    case 1
    then have "content' = content" using 2(2) r(1) by (simp add: Let_def)
    then show ?thesis by (intro exI [of _ 0]) simp
  next
    case 2
    then have "content' = []" "db' = foldl fold_line db (parse_surfaced json (drop seen content))"
      using "2.prems"(1) r(1) by (simp_all add: Let_def Store_Ledger.fold_surfaced_def)
    then have "content' = [] \<and> (\<exists>pieces. drop seen content = concat pieces \<and>
        db' = foldl fold_line db (concat (map (parse_surfaced json) pieces)))"
      by (intro conjI exI [of _ "[drop seen content]"]) simp_all
    then show ?thesis by (intro exI [of _ 0]) (simp add: Let_def)
  next
    case 3
    then have run: "fold_rounds json rounds (length content) (content @ late) ?db = (True, content', db')"
      using "2.prems"(1) r(1) by (simp add: Let_def)
    have "\<exists>k\<le>length rounds. let arrived = (content @ late) @ concat (map snd (take k rounds)) in
        content' = arrived \<or> content' = [] \<and> (\<exists>pieces. drop (length content) arrived = concat pieces \<and>
          db' = foldl fold_line ?db (concat (map (parse_surfaced json) pieces)))"
      using "2.IH" [OF r(1) refl refl _ _ run r(2)] 3 by simp
    then obtain k where k: "k \<le> length rounds" "let arrived = (content @ late) @ concat (map snd (take k rounds)) in
        content' = arrived \<or> content' = [] \<and> (\<exists>pieces. drop (length content) arrived = concat pieces \<and>
          db' = foldl fold_line ?db (concat (map (parse_surfaced json) pieces)))" by blast
    let ?arrived = "(content @ late) @ concat (map snd (take k rounds))"
    have "content' = ?arrived \<or> content' = [] \<and> (\<exists>pieces. drop seen ?arrived = concat pieces \<and>
        db' = foldl fold_line db (concat (map (parse_surfaced json) pieces)))"
      using k(2)
    proof (unfold Let_def, elim disjE conjE exE)
      fix pieces
      assume p: "content' = []" "drop (length content) ?arrived = concat pieces"
        "db' = foldl fold_line ?db (concat (map (parse_surfaced json) pieces))"
      have "drop seen ?arrived = concat (drop seen content # pieces)" using p(2) "2.prems"(3) by simp
      moreover have "db' = foldl fold_line db (concat (map (parse_surfaced json) (drop seen content # pieces)))"
        using p(3) by (simp add: Store_Ledger.fold_surfaced_def)
      ultimately show ?thesis using p(1) by blast
    qed simp
    then show ?thesis using k(1) by (intro exI [of _ "Suc k"]) (simp add: Let_def)
  qed
qed

lemma read_rename: "read_file (rename_file p q d) r = (if read_file d p = None then read_file d r
    else if r = q then read_file d p else if r = p then None else read_file d r)"
proof -
  have "map_of (filter (\<lambda>(r, _). r \<noteq> p) fs) r = (if r = p then None else map_of fs r)" for fs :: "(path \<times> rstr) list"
    by (induction fs) auto
  then show ?thesis by (auto simp: read_file_def rename_file_def split: option.split)
qed

lemma fold_and_empty_read:
  "fold_and_empty json rounds p (d, db) = (ok, d', db') \<Longrightarrow> q \<noteq> p \<Longrightarrow> read_file d' q = read_file d q \<and> d_dirs d' = d_dirs d"
  by (auto simp: fold_and_empty_def read_file_def write_file_def split: option.splits prod.splits if_splits)

lemma fold_and_empty_ok: "list_all (\<lambda>r. \<not> fst r) rounds \<Longrightarrow> fst (fold_and_empty json rounds p s)"
proof -
  assume "list_all (\<lambda>r. \<not> fst r) rounds"
  then have "list_all (\<lambda>r. \<not> fst r) (take 4 rounds)" by (auto simp: list_all_iff dest: in_set_takeD)
  from fold_rounds_ok [OF this] have "ok" if "fold_rounds json (take 4 rounds) 0 content db = (ok, content', db')" for ok content content' db db'
    using that by (metis fst_conv)
  then show ?thesis by (auto simp: fold_and_empty_def split: option.split prod.split)
qed


lemma fold_and_empty_covers:
  assumes "fold_and_empty json rounds p (d, db) = (ok, d', db')" "rounds \<noteq> []" "list_all (\<lambda>r. \<not> fst r) rounds"
    and "l \<in> set (parse_surfaced json (file_text d p))" "i \<in> set (l_ids l)"
  shows "covered (l_kind l) (l_session l) i db'"
proof (cases "read_file d p")
  case None
  then show ?thesis using assms(4) by (simp add: file_text_def parse_surfaced_def text_lines_def split_on_def map_filter_simps)
next
  case (Some content)
  obtain ok2 content' db2 where r: "fold_rounds json (take 4 rounds) 0 content db = (ok2, content', db2)"
    by (cases "fold_rounds json (take 4 rounds) 0 content db")
  then have "db' = db2" using assms(1) Some by (simp add: fold_and_empty_def)
  moreover have "take 4 rounds \<noteq> []" "list_all (\<lambda>r. \<not> fst r) (take 4 rounds)"
    using assms(2,3) by (auto simp: list_all_iff dest: in_set_takeD)
  ultimately show ?thesis using fold_rounds_covers [OF r] assms(4,5) Some by (simp add: file_text_def)
qed

lemma surfaced_not_folding: "SURFACED data \<noteq> FOLDING data"
  by (simp add: SURFACED_def FOLDING_def lit_def)

lemma spill_all_dirs:
  "is_dir (spill_all show data ws d) (SURFACED data) = is_dir d (SURFACED data)"
proof (induction ws arbitrary: d)
  case (Cons w ws)
  have anc: "SURFACED data \<notin> set (ancestors data)"
  proof
    assume "SURFACED data \<in> set (ancestors data)"
    then obtain n where "SURFACED data = take n data" by (auto simp: ancestors_def)
    then have "length (SURFACED data) \<le> length data" by simp
    then show False by (simp add: SURFACED_def)
  qed
  obtain session kind ids bytes where "w = (session, kind, ids, bytes)" by (cases w)
  then show ?case using Cons anc by (simp add: spill_all_def spill_line_def write_file_def create_dir_all_def is_dir_def)
qed (simp add: spill_all_def)

text \<open>
  C38: what could not be recorded is not forgotten. Ids a session was shown while the database was
  out of reach are found in the spill from then on, by the guard that asks whether they were shown;
  and a fold that the store accepts and whose rename works - whatever other hooks append while it
  runs - puts every one of them
  into its ledger, whatever the ledgers held before.
\<close>
theorem spill_reaches_the_ledger:
  assumes "list_all (reads_back show json) ws" "whole (file_text d (SURFACED data))" "\<not> is_dir d (SURFACED data)"
    and "list_all (\<lambda>r. \<not> fst r) before" "list_all (\<lambda>r. \<not> fst r) rounds" "rounds \<noteq> []"
    and "(session, kind, ids, bytes) \<in> set ws" "i \<in> set ids"
  shows "(kind \<noteq> File \<longrightarrow> spilled json data session i (spill_all show data ws d)) \<and>
    (case fold_spill json before True rounds data (spill_all show data ws d, db) of
       (ok, d', db') \<Rightarrow> ok \<and> covered kind session i db')"
proof -
  let ?d = "spill_all show data ws d" and ?l = "line_of (session, kind, ids, bytes)"
  have ids: "ids \<noteq> []" using assms(8) by auto
  have lines: "?l \<in> set (parse_surfaced json (file_text ?d (SURFACED data)))"
    using spill_all_lines [OF assms(1,2)] assms(7) ids by force
  then obtain content where content: "read_file ?d (SURFACED data) = Some content"
    by (cases "read_file ?d (SURFACED data)") (simp_all add: file_text_def parse_surfaced_def text_lines_def split_on_def map_filter_simps)
  then have "?l \<in> set (parse_surfaced json content)" using lines by (simp add: file_text_def)
  then have "spilled json data session i ?d" if "kind \<noteq> File"
    using content assms(8) that by (force simp: spilled_def list_ex_iff)
  moreover obtain ok1 d1 db1 where one: "fold_and_empty json before (FOLDING data) (?d, db) = (ok1, d1, db1)"
    by (cases "fold_and_empty json before (FOLDING data) (?d, db)")
  have ok1: "ok1" using fold_and_empty_ok [OF assms(4), of json "FOLDING data" "(?d, db)"] one by simp
  have s1: "read_file d1 (SURFACED data) = Some content" "\<not> is_dir d1 (SURFACED data)"
    using fold_and_empty_read [OF one surfaced_not_folding] content spill_all_dirs [of "show" data ws d] assms(3)
    by (simp_all add: is_dir_def)
  define d2 where "d2 = rename_file (SURFACED data) (FOLDING data) d1"
  have d2: "read_file d2 (FOLDING data) = Some content" "read_file d2 (SURFACED data) = None" "d_dirs d2 = d_dirs d1"
    using s1 surfaced_not_folding [of data] by (simp_all add: d2_def read_rename) (simp add: rename_file_def)
  obtain ok3 d3 db3 where two: "fold_and_empty json rounds (FOLDING data) (d2, db1) = (ok3, d3, db3)"
    by (cases "fold_and_empty json rounds (FOLDING data) (d2, db1)")
  have ok3: "ok3" using fold_and_empty_ok [OF assms(5), of json "FOLDING data" "(d2, db1)"] two by simp
  have "covered kind session i db3"
    using fold_and_empty_covers [OF two assms(6,5), of ?l i] lines content d2(1) assms(8) by (simp add: file_text_def)
  moreover have "\<not> path_exists d3 (SURFACED data)"
    using fold_and_empty_read [OF two surfaced_not_folding] d2 s1(2) by (simp add: path_exists_def is_file_def is_dir_def)
  moreover have "path_exists d1 (SURFACED data)" using s1(1) by (simp add: path_exists_def is_file_def)
  ultimately show ?thesis using one two ok1 ok3 by (simp add: fold_spill_def d2_def)
qed

definition sample_spills :: "spill list" where
  "sample_spills = [(lit ''s'', Injected, [lit ''0a''], 40), (lit ''s'', OpenedIds, [lit ''0b'', lit ''0c''], 0)]"

lemma sample_reads_back: "list_all (reads_back print_tree tree_parse) sample_spills"
proof -
  have again: "tree_parse (print_tree v) = Some v" if "json_ok v" for v
    using parse_print_tree [of v "length (print_tree v)" "[]"] that by (simp add: tree_parse_def del: parse_tree.simps)
  have "json_ok (spill_value s k ids n)" for s k ids n
    by (simp add: spill_value_def keys_ok_def list_all_iff lit_def)
  then show ?thesis
    by (simp add: sample_spills_def reads_back_def Let_def again U64_MAX_def)
      (simp add: spill_value_def print_text_def lit_def dec.simps kind_tag_def strip_cr_def)
qed

theorem spill_reaches_the_ledger_witness:
  "spilled tree_parse [] (lit ''s'') (lit ''0c'') (spill_all print_tree [] sample_spills \<lparr>d_files = [], d_dirs = []\<rparr>) \<and>
   (case fold_spill tree_parse [(False, [])] True [(False, [1, 10]), (False, [])] []
       (spill_all print_tree [] sample_spills \<lparr>d_files = [], d_dirs = []\<rparr>, empty_store) of
     (ok, d', db') \<Rightarrow> ok \<and> covered OpenedIds (lit ''s'') (lit ''0c'') db')"
  using spill_reaches_the_ledger [OF sample_reads_back, of "\<lparr>d_files = [], d_dirs = []\<rparr>" "[]" "[(False, [])]"
      "[(False, [1, 10]), (False, [])]" "lit ''s''" OpenedIds "[lit ''0b'', lit ''0c'']" 0 "lit ''0c''" empty_store]
  by (simp add: sample_spills_def file_text_def read_file_def whole_def is_dir_def)

section \<open>A waiting wipe\<close>

lemma wipe_waits: "wipe_pending data session (pending_wipe data session d)"
  by (simp add: wipe_pending_def pending_wipe_def path_exists_def is_file_def read_file_def write_file_def)

text \<open>
  Four busy rounds at the start of a fold leave the last late line in \<open>.folding\<close>, and the rename that
  follows replaces that file.
\<close>

lemma a_late_line_can_be_lost:
  "case fold_spill tree_parse [(False, [1, 10]), (False, [1, 10]), (False, [1, 10]), (False, print_tree (spill_value (lit ''s'') Injected [lit ''0a''] 9) @ [10])]
      True [(False, [])] [] (\<lparr>d_files = [(FOLDING [], [1, 10]), (SURFACED [], [1, 10])], d_dirs = []\<rparr>, empty_store) of
     (ok, d', db') \<Rightarrow> ok \<and> \<not> spilled tree_parse [] (lit ''s'') (lit ''0a'') d' \<and> db' = empty_store"
  by code_simp

end
