(* ===== verification/Capture.thy ===== *)
theory Capture
  imports Hook Transcript Spill Inject Invocation
begin

text \<open>
  The capture path, \<open>capture_answering\<close> and \<open>shell_lesson\<close> of \<open>src/src/hook.rs\<close>: one hook from its
  payload to its answer. The world is the disk, the index, the two small tables that tie a session to
  its host process and its transcript, and the runs started. What surrounds a hook is the record
  \<open>hook_env\<close>: the environment, other crates, the clock, which store operations fail, and whether the
  index opens.
\<close>

datatype hook_write = W_invocation | W_host | W_transcript | W_index | W_reset | W_idle | W_ledger

record hook_env =
  he_worker :: "rstr option"
  he_silence :: "rstr option"
  he_host :: host
  he_shape :: "disk \<Rightarrow> (shaper \<times> injection_config) option"
  he_ser :: "event \<Rightarrow> rstr"
  he_origin :: "rstr option"
  he_print :: "json \<Rightarrow> rstr"
  he_lossy :: "nat list \<Rightarrow> rstr"
  he_content :: "path \<Rightarrow> nat list option"
  he_canon :: "path \<Rightarrow> path option"
  he_home :: "path option"
  he_current :: "path option"
  he_windows :: bool
  he_lower :: "rstr \<Rightarrow> rstr"
  he_ulid :: rstr
  he_clock :: clock
  he_now :: int
  he_now_ms :: int
  he_cutoff :: rstr
  he_ps :: "rstr option"
  he_pid :: nat
  he_peeks :: bool
  he_opens :: bool
  he_refuses :: "hook_write \<Rightarrow> bool"
  he_searcher :: searcher
  he_interrupted :: bool
  he_extern :: extern

record hook_world =
  hw_disk :: disk
  hw_db :: store
  hw_hosts :: "(nat \<times> rstr \<times> rstr) list"
  hw_paths :: "(rstr \<times> rstr) list"
  hw_started :: "rstr list list"

text \<open>\<open>Answered a f\<close>: the answer, and whether a store failure was set aside for the log.\<close>

datatype hook_error = Bad_payload | No_data_dir | Bad_config | Store_shut
datatype hook_result = Answered rstr bool | Errored hook_error | Panicked

definition QUIET :: rstr where "QUIET = lit ''{}''"

definition TITLE_MAX_BYTES :: nat where "TITLE_MAX_BYTES = 120"
definition IDLE_SWEEP_DEBOUNCE_SECS :: int where "IDLE_SWEEP_DEBOUNCE_SECS = 15 * 60"

definition is_worker_child :: "hook_env \<Rightarrow> bool" where
  "is_worker_child E = (case he_worker E of None \<Rightarrow> False | Some v \<Rightarrow> v \<noteq> [])"

definition now_text :: "hook_env \<Rightarrow> rstr" where
  "now_text E = show_ts (he_clock E) (he_now E)"

text \<open>Is a compactor holding the window open: the second word of the marker, in milliseconds.\<close>

definition maint_active :: "path \<Rightarrow> int \<Rightarrow> disk \<Rightarrow> bool" where
  "maint_active data now_ms d =
     (case read_file d (data @ [lit ''.brain-maintenance'']) of None \<Rightarrow> False
      | Some t \<Rightarrow>
          (case split_whitespace (take 64 t) of _ # until # _ \<Rightarrow>
             (case parse_u64 until of Some u \<Rightarrow> now_ms < int u | None \<Rightarrow> False)
           | _ \<Rightarrow> False))"

section \<open>The small tables\<close>

definition peek_invocation :: "hook_env \<Rightarrow> rstr \<Rightarrow> hook_world \<Rightarrow> rstr option" where
  "peek_invocation E session W = (if he_peeks E then map_of (session_invocation (hw_db W)) session else None)"

definition peek_host :: "hook_env \<Rightarrow> rstr \<Rightarrow> hook_world \<Rightarrow> nat option" where
  "peek_host E session W =
     (if he_peeks E
      then (case rev (sort_key (\<lambda>(_, _, ts). ts) (filter (\<lambda>(_, s, _). s = session) (hw_hosts W))) of
              [] \<Rightarrow> None | (pid, _, _) # _ \<Rightarrow> Some pid)
      else None)"

definition note_invocation :: "rstr \<Rightarrow> invocation \<Rightarrow> store \<Rightarrow> store" where
  "note_invocation session how db =
     (if session \<in> fst ` set (session_invocation db) then db
      else db\<lparr>session_invocation := session_invocation db @ [(session, invocation_str how)]\<rparr>)"

definition put_host :: "nat \<Rightarrow> rstr \<Rightarrow> rstr \<Rightarrow> (nat \<times> rstr \<times> rstr) list \<Rightarrow> (nat \<times> rstr \<times> rstr) list" where
  "put_host pid session ts t =
     (if \<exists>r\<in>set t. fst r = pid \<and> fst (snd r) = session
      then map (\<lambda>r. if fst r = pid \<and> fst (snd r) = session then (pid, session, ts) else r) t
      else t @ [(pid, session, ts)])"

definition put_path :: "rstr \<Rightarrow> rstr \<Rightarrow> (rstr \<times> rstr) list \<Rightarrow> (rstr \<times> rstr) list" where
  "put_path session p t =
     (if session \<in> fst ` set t then map (\<lambda>r. if fst r = session then (session, p) else r) t else t @ [(session, p)])"

text \<open>How this session was invoked and by which process; a process is looked at only where needed.\<close>

definition known_host :: "hook_env \<Rightarrow> rstr \<Rightarrow> hook_world \<Rightarrow> invocation \<times> nat" where
  "known_host E session W =
     (let remembered = peek_invocation E session W; known = (remembered \<noteq> None);
          earlier = parse_invocation (case remembered of Some r \<Rightarrow> r | None \<Rightarrow> []);
          found = classify_with_host (he_ps E) (he_pid E);
          pid = (case snd found of Some p \<Rightarrow> p | None \<Rightarrow> NO_HOST) in
      case plan_host known (if known then peek_host E session W else None) of
        Classify \<Rightarrow> (fst found, pid) | Find_host \<Rightarrow> (earlier, pid) | Reuse p \<Rightarrow> (earlier, p))"

section \<open>The event\<close>

definition transcript_named :: "hook_env \<Rightarrow> rstr \<Rightarrow> json \<Rightarrow> rstr option" where
  "transcript_named E cli v =
     (case (first_string v [''transcript_path'', ''transcriptPath''], he_home E) of
        (Some p, Some home) \<Rightarrow> if is_transcript_under (he_canon E) home cli p then Some p else None
      | _ \<Rightarrow> None)"

definition words_for :: "hook_env \<Rightarrow> shaper \<Rightarrow> rstr \<Rightarrow> rstr \<Rightarrow> bool \<Rightarrow> json \<Rightarrow> rstr \<times> rstr" where
  "words_for E w cli hook failed v =
     (let delegate = delegate_label v;
          title = cut_title (scrubbed w ((if failed then lit ''Failed: '' else []) @ title_for hook v)) TITLE_MAX_BYTES;
          body = event_body w (is_footstep delegate hook) v;
          answer = (if hook = lit ''stop''
                    then Option.bind (transcript_named E cli v) (\<lambda>p.
                      last_answer (he_lossy E) (x_parse_json (he_host E)) (sh_ref w) (sh_self w) cli (he_content E (path_components p)))
                    else None);
          (title1, body1) = (case answer of Some a \<Rightarrow> (cut_title (first_line a) TITLE_MAX_BYTES, a) | None \<Rightarrow> (title, body));
          report = (if hook = lit ''subagent_stop'' then first_string v [''last_assistant_message''] else None)
      in case report of None \<Rightarrow> (title1, body1)
         | Some r \<Rightarrow>
             if trim r = [] then (title1, body1)
             else (cut_title (scrubbed w ((case delegate of Some who \<Rightarrow> who | None \<Rightarrow> lit ''A subagent'') @ lit '' reported: '' @ first_line r)) TITLE_MAX_BYTES,
                   body_of w r))"

definition event_for :: "hook_env \<Rightarrow> shaper \<Rightarrow> scope \<Rightarrow> rstr \<Rightarrow> rstr \<Rightarrow> bool \<Rightarrow> invocation \<Rightarrow> json \<Rightarrow> event" where
  "event_for E w sc cli hook failed how v =
     (let (title, body) = words_for E w cli hook failed v;
          e = new_event (he_ulid E) (now_text E) (x_show_uuid (he_host E) (sc_workspace_id sc)) (x_show_uuid (he_host E) (sc_project_id sc))
                (x_show_uuid (he_host E) (payload_session (he_host E) v)) \<lparr>src_cli = cli, src_hook = hook\<rparr> Observation title body
      in e\<lparr>ev_files := filter (\<lambda>p. p \<noteq> []) (map (scrubbed w)
              (if failed then [] else files_for (he_windows E) (he_canon E) (sc_root sc) v)),
           ev_extra := (if is_headless how then [(lit ''invocation'', JStr (invocation_str how))] else []),
           ev_agent := delegate_label v\<rparr>)"

text \<open>\<open>EventLog::open\<close> and \<open>append\<close>, on the disk.\<close>

definition log_append :: "hook_env \<Rightarrow> path \<Rightarrow> event \<Rightarrow> disk \<Rightarrow> disk" where
  "log_append E dir e d =
     (let p = dir @ [lit ''events'', file_for (month e)] in
      write_file p (file_text d p @ he_ser E (stamp (he_origin E) e) @ [10]) (create_dir_all (dir @ [lit ''events'']) d))"

section \<open>The store\<close>

text \<open>The writes of one hook: \<open>(skip, failed)\<close> and the world after them. \<open>None\<close> is a panic.\<close>

definition record_all ::
    "hook_env \<Rightarrow> bool \<Rightarrow> bool \<Rightarrow> rstr \<Rightarrow> invocation \<Rightarrow> nat \<Rightarrow> rstr option \<Rightarrow> bool \<Rightarrow> event \<Rightarrow> hook_world \<Rightarrow> (bool \<times> bool \<times> hook_world) option" where
  "record_all E fast known session how pid tpath captured e W =
     (let bad1 = (\<not> known \<and> he_refuses E W_invocation);
          W1 = (if known \<or> bad1 then W else W\<lparr>hw_db := note_invocation session how (hw_db W)\<rparr>);
          skip1 = (fast \<and> bad1);
          bad2 = (\<not> skip1 \<and> he_refuses E W_host);
          W2 = (if skip1 \<or> bad2 then W1 else W1\<lparr>hw_hosts := put_host pid session (now_text E) (hw_hosts W1)\<rparr>);
          skip2 = (skip1 \<or> fast \<and> bad2);
          bad3 = (tpath \<noteq> None \<and> \<not> skip2 \<and> he_refuses E W_transcript);
          W3 = (case tpath of None \<Rightarrow> W2 | Some p \<Rightarrow> if skip2 \<or> bad3 then W2 else W2\<lparr>hw_paths := put_path session p (hw_paths W2)\<rparr>);
          skip3 = (skip2 \<or> fast \<and> bad3)
      in if \<not> captured \<or> skip3 then Some (skip3, bad1 \<or> bad2, W3)
         else if he_refuses E W_index then Some (fast, True, W3)
         else map_option (\<lambda>db. (False, bad1 \<or> bad2, W3\<lparr>hw_db := db\<rparr>)) (index_captured (he_extern E) e (hw_db W3)))"

definition wipe_state :: "hook_env \<Rightarrow> path \<Rightarrow> rstr \<Rightarrow> rstr \<Rightarrow> json \<Rightarrow> bool \<Rightarrow> hook_world \<Rightarrow> bool \<times> bool \<times> hook_world" where
  "wipe_state E data session hook v skip W =
     (let waiting = wipe_pending data session (hw_disk W) in
      if \<not> wipes_context hook v \<and> \<not> waiting then (skip, False, W)
      else if \<not> skip \<and> \<not> he_refuses E W_reset
      then (skip, False, W\<lparr>hw_db := reset_injection_state session (hw_db W),
              hw_disk := (if waiting then clear_pending_wipe data session (hw_disk W) else hw_disk W)\<rparr>)
      else (True, True, W\<lparr>hw_disk := pending_wipe data session (hw_disk W)\<rparr>))"

definition start_runs :: "hook_env \<Rightarrow> rstr \<Rightarrow> rstr \<Rightarrow> rstr \<Rightarrow> bool \<Rightarrow> bool \<Rightarrow> hook_world \<Rightarrow> hook_world" where
  "start_runs E cli hook session headless skip W =
     (let (s, db) = summons cli hook headless (has_stale_backlog (he_clock E) STALE_BACKLOG_SECS (he_now E))
             (\<lambda>db. if skip \<or> he_refuses E W_idle then (False, db)
                   else claim_idle_sweep (he_clock E) (he_now E) IDLE_SWEEP_DEBOUNCE_SECS db) (hw_db W)
      in W\<lparr>hw_db := db, hw_started := hw_started W @
            (case fst s of None \<Rightarrow> [] | Some Run_session \<Rightarrow> [[lit ''consolidate'', lit ''--session'', session]]
             | Some Run_all \<Rightarrow> [[lit ''consolidate'', lit ''--all'']]) @
            (if snd s then [[lit ''consolidate'', lit ''--idle'']] else [])\<rparr>)"

text \<open>What a delivery could not record goes to the spill.\<close>

definition spill_delivery :: "hook_env \<Rightarrow> path \<Rightarrow> rstr \<Rightarrow> (rstr list \<times> nat) option \<Rightarrow> disk \<Rightarrow> disk" where
  "spill_delivery E data session lost d =
     (case lost of None \<Rightarrow> d | Some (ids, bytes) \<Rightarrow> spill_injected (he_print E) data session ids bytes d)"

definition answer_for ::
    "hook_env \<Rightarrow> path \<Rightarrow> injection_config \<Rightarrow> scope \<Rightarrow> rstr \<Rightarrow> rstr \<Rightarrow> rstr \<Rightarrow> event \<Rightarrow> json \<Rightarrow> bool \<Rightarrow> bool \<Rightarrow> hook_world \<Rightarrow> (rstr \<times> hook_world) option" where
  "answer_for E data config sc session hook event_name e v skip fresh W =
     (let held = (skip \<or> he_refuses E W_ledger); project = x_show_uuid (he_host E) (sc_project_id sc) in
      if hook = lit ''user_prompt_submit'' then
        map_option (\<lambda>(a, db, lost). (a, W\<lparr>hw_db := db, hw_disk := spill_delivery E data session lost (hw_disk W)\<rparr>))
          (inject_for_prompt (he_print E) held (he_interrupted E) (he_searcher E) config project session event_name
             (case first_string v [''prompt''] of Some p \<Rightarrow> p | None \<Rightarrow> []) (now_text E) (hw_db W))
      else
        map_option (\<lambda>((a, db, lost), file).
            (a, W\<lparr>hw_db := db, hw_disk := spill_delivery E data session lost
                (case file of None \<Rightarrow> hw_disk W | Some p \<Rightarrow> spill_surfaced (he_print E) data session File [p] (hw_disk W))\<rparr>))
          (inject_for (he_print E) held (he_searcher E) config project session fresh hook event_name e (now_text E) (he_cutoff E) (hw_db W)))"

text \<open>Everything after the append, once the index is open.\<close>

definition after_log ::
    "hook_env \<Rightarrow> path \<Rightarrow> bool \<Rightarrow> injection_config \<Rightarrow> scope \<Rightarrow> rstr \<Rightarrow> rstr \<Rightarrow> rstr \<Rightarrow> bool \<Rightarrow> bool \<Rightarrow> invocation \<Rightarrow> nat \<Rightarrow> event \<Rightarrow> json \<Rightarrow> hook_world
     \<Rightarrow> hook_result \<times> hook_world" where
  "after_log E data fast config sc cli hook event_name failed known how pid e v W =
     (let session = ev_session e; delegate = delegate_label v;
          tpath = (if delegate = None then transcript_named E cli v else None) in
      case record_all E fast known session how pid tpath (captures hook) e W of
        None \<Rightarrow> (Panicked, W)
      | Some (skip, bad, W1) \<Rightarrow>
          (let deferred = (\<not> fast \<and> bad) in
           if delegate \<noteq> None then (Answered QUIET deferred, W1)
           else let (skip2, fresh, W2) = wipe_state E data session hook v skip W1;
                    W3 = start_runs E cli hook session (is_headless how) skip2 W2 in
             if is_headless how \<or> failed \<or> \<not> answer_is_read cli v (he_now_ms E) then (Answered QUIET deferred, W3)
             else case answer_for E data config sc session hook event_name e v skip2 fresh W3 of
               None \<Rightarrow> (Panicked, W3)
             | Some (a, W4) \<Rightarrow> (Answered a deferred, W4)))"

section \<open>A shell command\<close>

definition shell_lesson :: "hook_env \<Rightarrow> rstr \<Rightarrow> rstr \<Rightarrow> json \<Rightarrow> hook_world \<Rightarrow> hook_result \<times> hook_world" where
  "shell_lesson E cli event_name v W =
     (let command = (case Option.bind (json_get (lit ''tool_input'') v) (get_str ''command'') of Some t \<Rightarrow> t | None \<Rightarrow> []);
          candidates = command_candidates (he_lower E) command; quiet = (Answered QUIET False, W) in
      if cli \<noteq> lit ''claude-code'' \<or> json_get (lit ''cursor_version'') v \<noteq> None \<or> delegate_label v \<noteq> None then quiet
      else if candidates = [] then quiet
      else case x_data_dir (he_host E) of None \<Rightarrow> quiet
      | Some data \<Rightarrow>
          if (case read_file (hw_disk W) (data @ [lit ''lesson-programs'']) of None \<Rightarrow> False
              | Some listed \<Rightarrow> \<not> list_ex (\<lambda>c. hd (split_on (\<lambda>x. x = 32) c) \<in> set (text_lines listed)) candidates) then quiet
          else case working_directory (he_canon E) (he_home E) (he_current E) v of None \<Rightarrow> quiet
          | Some cwd \<Rightarrow>
              (let show_id = x_show_uuid (he_host E);
                   projects = (case known_project_id (he_host E) cwd (hw_disk W) of None \<Rightarrow> [] | Some p \<Rightarrow> [show_id p]) @
                     [show_id (machine_id (he_host E))];
                   session = show_id (payload_session (he_host E) v) in
               if \<not> he_opens E then quiet
               else case he_shape E (hw_disk W) of None \<Rightarrow> quiet
               | Some (_, config) \<Rightarrow>
                   (case for_command projects session candidates config (now_text E) (hw_db W) of
                      None \<Rightarrow> (Panicked, W)
                    | Some acc \<Rightarrow>
                        (case deliver (he_print E) (he_refuses E W_ledger) config session event_name (Some acc) (hw_db W) of
                           (a, db, lost) \<Rightarrow>
                             (Answered a False, W\<lparr>hw_db := db, hw_disk := spill_delivery E data session lost (hw_disk W)\<rparr>)))))"

section \<open>One hook\<close>

text \<open>The failure marker is ours alone.\<close>

definition mark_failed :: "bool \<Rightarrow> json \<Rightarrow> json" where
  "mark_failed failed v =
     (case v of
        JObj kvs \<Rightarrow>
          (let rest = filter (\<lambda>(k, _). k \<noteq> lit ''failed'') kvs in
           JObj (if failed then insort_key fst (lit ''failed'', JBool True) rest else rest))
      | _ \<Rightarrow> v)"

text \<open>
  The hook a payload is treated as. On a payload that is no object a failed call keeps its own name
  (nothing could be marked).
\<close>

definition hook_of :: "rstr \<Rightarrow> json \<Rightarrow> rstr" where
  "hook_of event_name v =
     (if normalize_hook event_name = lit ''post_tool_use_failure'' \<and> (case v of JObj _ \<Rightarrow> True | _ \<Rightarrow> False)
      then lit ''post_tool_use'' else normalize_hook event_name)"

definition capture_payload :: "hook_env \<Rightarrow> rstr \<Rightarrow> rstr \<Rightarrow> json \<Rightarrow> hook_world \<Rightarrow> hook_result \<times> hook_world" where
  "capture_payload E cli0 event_name payload W =
     (let failed = (normalize_hook event_name = lit ''post_tool_use_failure'');
          hook = hook_of event_name payload; v = mark_failed failed payload in
      if is_cursor_echo cli0 hook v then (Answered QUIET False, W)
      else case x_data_dir (he_host E) of None \<Rightarrow> (Errored No_data_dir, W)
      | Some data \<Rightarrow>
          (let d0 = create_dir_all data (hw_disk W) in
           case he_shape E d0 of None \<Rightarrow> (Errored Bad_config, W\<lparr>hw_disk := d0\<rparr>)
           | Some (w, config) \<Rightarrow>
               (case working_directory (he_canon E) (he_home E) (he_current E) v of
                  None \<Rightarrow> (Answered QUIET False, W\<lparr>hw_disk := d0\<rparr>)
                | Some cwd \<Rightarrow>
                    (let (sc, d1) = resolve_scope (he_host E) cwd d0; cli = agent_as_str (parse_agent cli0);
                         session = x_show_uuid (he_host E) (payload_session (he_host E) v);
                         known = (peek_invocation E session W \<noteq> None); (how, pid) = known_host E session W;
                         e = event_for E w sc cli hook failed how v;
                         d2 = (if captures hook then log_append E (project_dir (he_host E) d1 data sc) e d1 else d1);
                         W2 = W\<lparr>hw_disk := d2\<rparr>; fast = maint_active data (he_now_ms E) d2 in
                     if he_opens E then after_log E data fast config sc cli hook event_name failed known how pid e v W2
                     else if fast then
                       (Answered QUIET False,
                        W2\<lparr>hw_disk := (if wipes_context hook v then pending_wipe data session d2 else d2)\<rparr>)
                     else (Errored Store_shut, W2)))))"

definition capture_answering :: "hook_env \<Rightarrow> rstr \<Rightarrow> rstr \<Rightarrow> rstr \<Rightarrow> hook_world \<Rightarrow> hook_result \<times> hook_world" where
  "capture_answering E cli event_name raw W =
     (if is_worker_child E \<or> silenced (he_silence E) \<or> trim raw = [] then (Answered QUIET False, W)
      else case x_parse_json (he_host E) raw of None \<Rightarrow> (Errored Bad_payload, W)
      | Some payload \<Rightarrow>
          if normalize_hook event_name = lit ''pre_tool_use'' \<and> get_str ''tool_name'' payload = Some (lit ''Bash'')
          then shell_lesson E cli event_name payload W
          else capture_payload E cli event_name payload W)"

end
