(* ===== verification/Capture_Safe.thy ===== *)
theory Capture_Safe
  imports Capture
begin

text \<open>
  What the capture path of \<open>src/src/hook.rs\<close> promises: the log is written first and no trouble with the
  index changes it, what is written is one scrubbed and bounded event, nothing after an unclosed
  private region is kept, and a delegate or a one-shot run is told nothing.
\<close>

section \<open>The log comes first\<close>

text \<open>The files deep enough in the data directory to be a project's log.\<close>

definition logs :: "hook_env \<Rightarrow> disk \<Rightarrow> (path \<times> rstr) list" where
  "logs E d = (case x_data_dir (he_host E) of None \<Rightarrow> []
     | Some data \<Rightarrow> filter (\<lambda>f. length data + 2 < length (fst f)) (d_files d))"

lemma logs_write_shallow:
  "x_data_dir (he_host E) = Some data \<Longrightarrow> length p \<le> length data + 2 \<Longrightarrow> logs E (write_file p t d) = logs E d"
  by (simp add: logs_def write_file_def)

lemma logs_dirs [simp]: "logs E (create_dir_all p d) = logs E d"
  by (simp add: logs_def create_dir_all_def split: option.split)

lemma logs_spill_line [simp]:
  "x_data_dir (he_host E) = Some data \<Longrightarrow> logs E (spill_line pr data s k ids b d) = logs E d"
  by (simp add: spill_line_def logs_write_shallow SURFACED_def)

lemma logs_spills [simp]:
  assumes "x_data_dir (he_host E) = Some data"
  shows "logs E (spill_delivery E data s lost d) = logs E d" "logs E (spill_surfaced pr data s k ids d) = logs E d"
  using assms by (simp_all add: spill_delivery_def spill_injected_def spill_surfaced_def split: option.split)

lemma logs_wipes [simp]:
  assumes "x_data_dir (he_host E) = Some data"
  shows "logs E (pending_wipe data s d) = logs E d" "logs E (clear_pending_wipe data s d) = logs E d"
proof -
  have len: "length (wipe_path data s) = length data + 2" by (simp add: wipe_path_def WIPES_def)
  then show "logs E (pending_wipe data s d) = logs E d" using assms by (simp add: pending_wipe_def logs_write_shallow)
  have "filter (\<lambda>f. length data + 2 < length (fst f)) (filter (\<lambda>(q, _). q \<noteq> wipe_path data s) fs) =
      filter (\<lambda>f. length data + 2 < length (fst f)) fs" for fs :: "(path \<times> rstr) list"
    using len by (induction fs) auto
  then show "logs E (clear_pending_wipe data s d) = logs E d" using assms by (simp add: logs_def clear_pending_wipe_def)
qed

lemma logs_scope [simp]: "logs E (snd (resolve_scope (he_host E) cwd d)) = logs E d"
proof (cases "x_data_dir (he_host E)")
  case None
  then show ?thesis by (simp add: logs_def)
next
  case (Some data)
  have "logs E (snd (stable_project_id (he_host E) root ws pr d)) = logs E d" for root ws pr
    using Some by (simp add: stable_project_id_def Let_def logs_write_shallow identity_cache_def split: option.split)
  then show ?thesis by (simp add: resolve_scope_def split_def Let_def split: option.split)
qed

lemma record_all_disk: "record_all E fast known s how pid tpath c e W = Some (skip, bad, W') \<Longrightarrow> hw_disk W' = hw_disk W"
  by (auto simp: record_all_def Let_def split: if_splits option.splits)

lemma wipe_state_logs:
  "x_data_dir (he_host E) = Some data \<Longrightarrow> wipe_state E data s hook v skip W = (skip', fresh, W') \<Longrightarrow> logs E (hw_disk W') = logs E (hw_disk W)"
  by (auto simp: wipe_state_def Let_def split: if_splits)

lemma start_runs_disk [simp]: "hw_disk (start_runs E cli hook s h skip W) = hw_disk W"
  by (simp add: start_runs_def split: prod.split)

lemma answer_for_logs:
  assumes "x_data_dir (he_host E) = Some data" "answer_for E data config sc s hook name e v skip fresh W = Some (a, W')"
  shows "logs E (hw_disk W') = logs E (hw_disk W)"
  using assms by (auto simp: answer_for_def Let_def split: if_splits option.splits)

lemma after_log_logs:
  assumes "x_data_dir (he_host E) = Some data"
  shows "logs E (hw_disk (snd (after_log E data fast config sc cli hook name failed known how pid e v W))) = logs E (hw_disk W)"
proof -
  let ?tp = "if delegate_label v = None then transcript_named E cli v else None"
  show ?thesis
  proof (cases "record_all E fast known (ev_session e) how pid ?tp (captures hook) e W")
    case None
    then show ?thesis by (simp add: after_log_def)
  next
    case (Some r)
    obtain skip bad W1 where r: "r = (skip, bad, W1)" by (cases r)
    obtain skip2 fresh W2 where w: "wipe_state E data (ev_session e) hook v skip W1 = (skip2, fresh, W2)"
      by (cases "wipe_state E data (ev_session e) hook v skip W1")
    have d: "logs E (hw_disk W1) = logs E (hw_disk W)" "logs E (hw_disk W2) = logs E (hw_disk W1)"
      using record_all_disk Some r wipe_state_logs [OF assms w] by auto
    then show ?thesis using Some r w
      by (auto simp: after_log_def Let_def dest: answer_for_logs [OF assms] split: option.split)
  qed
qed

lemma shell_lesson_logs: "logs E (hw_disk (snd (shell_lesson E cli name v W))) = logs E (hw_disk W)"
proof (cases "x_data_dir (he_host E)")
  case None
  then show ?thesis by (simp add: logs_def)
next
  case (Some data)
  then show ?thesis by (simp add: shell_lesson_def Let_def split: option.split prod.split)
qed

text \<open>The disk after the append, before the index is looked at.\<close>

definition logged :: "hook_env \<Rightarrow> rstr \<Rightarrow> rstr \<Rightarrow> json \<Rightarrow> hook_world \<Rightarrow> (path \<times> event) option" where
  "logged E cli0 event_name payload W =
     (let failed = (normalize_hook event_name = lit ''post_tool_use_failure'');
          hook = hook_of event_name payload; v = mark_failed failed payload in
      if is_cursor_echo cli0 hook v then None
      else case x_data_dir (he_host E) of None \<Rightarrow> None
      | Some data \<Rightarrow>
          (let d0 = create_dir_all data (hw_disk W) in
           case he_shape E d0 of None \<Rightarrow> None
           | Some (w, config) \<Rightarrow>
               (case working_directory (he_canon E) (he_home E) (he_current E) v of None \<Rightarrow> None
                | Some cwd \<Rightarrow>
                    (let (sc, d1) = resolve_scope (he_host E) cwd d0 in
                     if captures hook
                     then Some (project_dir (he_host E) d1 data sc,
                       event_for E w sc (agent_as_str (parse_agent cli0)) hook failed
                         (fst (known_host E (x_show_uuid (he_host E) (payload_session (he_host E) v)) W)) v)
                     else None))))"

lemma logs_append:
  assumes "logs E d = logs E d'" "x_data_dir (he_host E) = Some data" "length data < length dir"
  shows "logs E (log_append E dir e d) = logs E (log_append E dir e d')"
proof -
  let ?p = "dir @ [lit ''events'', file_for (month e)]"
  have deep: "length data + 2 < length ?p" using assms(3) by simp
  have read: "read_file d'' ?p = map_of (logs E d'') ?p" for d''
  proof -
    have "map_of (filter (\<lambda>f. length data + 2 < length (fst f)) fs) ?p = map_of fs ?p" for fs :: "(path \<times> rstr) list"
      using deep by (induction fs) auto
    then show ?thesis using assms(2) by (simp add: logs_def read_file_def)
  qed
  have "logs E (log_append E dir e d'') = (?p, file_text d'' ?p @ he_ser E (stamp (he_origin E) e) @ [10]) # logs E d''" for d''
    using assms(2) deep by (simp add: log_append_def logs_def write_file_def create_dir_all_def Let_def)
  then show ?thesis using assms(1) by (simp add: file_text_def read)
qed

lemma project_dir_below: "length data < length (project_dir h d data sc)"
  by (simp add: project_dir_def wiki_dir_def Let_def)

lemma capture_payload_logs:
  "logs E (hw_disk (snd (capture_payload E cli name payload W))) =
     (case logged E cli name payload W of None \<Rightarrow> logs E (hw_disk W)
      | Some (dir, e) \<Rightarrow> logs E (log_append E dir e (hw_disk W)))"
proof (cases "x_data_dir (he_host E)")
  case None
  then show ?thesis by (simp add: logs_def split: option.split)
next
  case (Some data)
  let ?failed = "normalize_hook name = lit ''post_tool_use_failure''"
  let ?hook = "hook_of name payload" and ?v = "mark_failed ?failed payload"
  let ?d0 = "create_dir_all data (hw_disk W)"
  show ?thesis
  proof (cases "is_cursor_echo cli ?hook ?v \<or> he_shape E ?d0 = None \<or> working_directory (he_canon E) (he_home E) (he_current E) ?v = None")
    case True
    then show ?thesis using Some by (auto simp: capture_payload_def logged_def Let_def split: option.split)
  next
    case False
    then obtain w config cwd where s: "\<not> is_cursor_echo cli ?hook ?v" "he_shape E ?d0 = Some (w, config)"
      "working_directory (he_canon E) (he_home E) (he_current E) ?v = Some cwd" by auto
    obtain sc d1 where sc: "resolve_scope (he_host E) cwd ?d0 = (sc, d1)" by fastforce
    then have d1: "logs E d1 = logs E (hw_disk W)" using logs_scope [of E cwd ?d0] by simp
    let ?session = "x_show_uuid (he_host E) (payload_session (he_host E) ?v)"
    obtain how pid where h: "known_host E ?session W = (how, pid)" by fastforce
    let ?e = "event_for E w sc (agent_as_str (parse_agent cli)) ?hook ?failed how ?v"
    let ?dir = "project_dir (he_host E) d1 data sc"
    let ?d2 = "if captures ?hook then log_append E ?dir ?e d1 else d1"
    have "logs E (hw_disk (snd (capture_payload E cli name payload W))) = logs E ?d2"
      using s sc h Some by (simp add: capture_payload_def Let_def after_log_logs)
    moreover have "logged E cli name payload W = (if captures ?hook then Some (?dir, ?e) else None)"
      using s sc h Some by (simp add: logged_def Let_def)
    ultimately show ?thesis using d1 logs_append [OF d1 Some project_dir_below] by simp
  qed
qed

text \<open>
  C3: the store cannot cost an event. Whatever the index does to a hook - it does not open, or any
  of the writes the hook tries on it fails - the logs on disk after the hook are the ones it would
  have left with an index that took everything.
\<close>
theorem the_store_cannot_cost_an_event:
  "logs E (hw_disk (snd (capture_answering (E\<lparr>he_opens := opens, he_refuses := refuses\<rparr>) cli name raw W))) =
   logs E (hw_disk (snd (capture_answering E cli name raw W)))"
proof -
  let ?E = "E\<lparr>he_opens := opens, he_refuses := refuses\<rparr>"
  have l: "logs ?E = logs E" by (simp add: logs_def fun_eq_iff)
  have env: "is_worker_child ?E = is_worker_child E" by (simp add: is_worker_child_def)
  have "transcript_named ?E = transcript_named E" by (simp add: transcript_named_def fun_eq_iff split: option.split)
  then have words: "words_for ?E = words_for E" by (simp add: words_for_def fun_eq_iff)
  have ev: "event_for ?E = event_for E" by (simp add: event_for_def words now_text_def fun_eq_iff)
  have "peek_host ?E = peek_host E" "peek_invocation ?E = peek_invocation E"
    by (simp_all add: peek_invocation_def peek_host_def fun_eq_iff)
  then have host: "known_host ?E = known_host E" by (intro ext) (simp add: known_host_def cong: if_cong)
  have sel: "he_host ?E = he_host E" "he_shape ?E = he_shape E" "he_canon ?E = he_canon E"
    "he_home ?E = he_home E" "he_current ?E = he_current E" by simp_all
  have "logged ?E c n p W0 = logged E c n p W0" for c n p W0 unfolding logged_def sel ev host ..
  then have "logged ?E = logged E" by (intro ext)
  moreover have "log_append ?E = log_append E" by (simp add: log_append_def fun_eq_iff)
  ultimately have "logs E (hw_disk (snd (capture_payload ?E cli name p W))) = logs E (hw_disk (snd (capture_payload E cli name p W)))" for p
    using capture_payload_logs [of ?E cli name p W] unfolding l capture_payload_logs [of E cli name p W] by (simp add: l split: option.split)
  moreover have "logs E (hw_disk (snd (shell_lesson ?E cli name p W))) = logs E (hw_disk (snd (shell_lesson E cli name p W)))" for p
    using shell_lesson_logs [of ?E cli name p W] shell_lesson_logs [of E cli name p W] by (simp add: l)
  ultimately show ?thesis by (simp add: capture_answering_def env split: option.split)
qed

section \<open>What is written\<close>

text \<open>A recorded event: bounded, scrubbed, and tagged with who made it.\<close>

definition from_scrub :: "hook_env \<Rightarrow> shaper \<Rightarrow> rstr \<Rightarrow> bool" where
  "from_scrub E w body =
     ((\<exists>raw. body = body_of w raw \<or> body = clamp_ends (body_of w raw) FOOTSTEP_BODY_MAX_BYTES) \<or>
      (\<exists>raw n. body = cut_text (trim (scrubbed w raw)) n \<and> n = ANSWER_MAX_BYTES))"

definition recorded_well :: "hook_env \<Rightarrow> shaper \<Rightarrow> json \<Rightarrow> event \<Rightarrow> bool" where
  "recorded_well E w v e =
     (ev_kind e = Observation \<and> src_hook (ev_source e) \<noteq> lit ''pre_tool_use'' \<and> ev_agent e = delegate_label v \<and>
      blen (ev_title e) \<le> TITLE_MAX_BYTES \<and> from_scrub E w (ev_body e) \<and>
      list_all (\<lambda>p. p \<noteq> [] \<and> (\<exists>raw. p = scrubbed w raw)) (ev_files e))"

lemma cut_title_bounded: "blen (cut_title t n) \<le> n"
  using truncate_bounded [of t n] clamp_total(4) [of t n] by simp

lemma event_body_from_scrub: "from_scrub E w (event_body w footstep v)"
  by (auto simp: from_scrub_def event_body_def Let_def)

lemma answer_from_scrub: "last_answer lossy json (sh_ref w) (sh_self w) cli content = Some t \<Longrightarrow> from_scrub E w t"
  by (auto simp: last_answer_def from_scrub_def scrubbed_def Let_def split: option.splits list.splits if_splits)

lemma words_well: "blen (fst (words_for E w cli hook failed v)) \<le> TITLE_MAX_BYTES \<and> from_scrub E w (snd (words_for E w cli hook failed v))"
proof -
  let ?answer = "if hook = lit ''stop''
      then Option.bind (transcript_named E cli v) (\<lambda>p.
        last_answer (he_lossy E) (x_parse_json (he_host E)) (sh_ref w) (sh_self w) cli (he_content E (path_components p))) else None"
  have answer: "from_scrub E w a" if "?answer = Some a" for a
    using that answer_from_scrub by (auto split: if_splits bind_splits)
  have body: "from_scrub E w (body_of w r)" for r by (auto simp: from_scrub_def)
  show ?thesis
    using answer by (cases ?answer)
      (auto simp: words_for_def Let_def cut_title_bounded event_body_from_scrub body split: option.split)
qed

lemma event_well: "hook \<noteq> lit ''pre_tool_use'' \<Longrightarrow> recorded_well E w v (event_for E w sc cli hook failed how v)"
  using words_well [of E w cli hook failed v]
  by (auto simp: recorded_well_def event_for_def new_event_def list_all_iff split: prod.split)

lemma logged_event:
  assumes "logged E cli name payload W = Some (dir, e)"
  shows "\<exists>data w config sc cli' how. x_data_dir (he_host E) = Some data \<and>
    he_shape E (create_dir_all data (hw_disk W)) = Some (w, config) \<and> captures (hook_of name payload) \<and>
    e = event_for E w sc cli' (hook_of name payload) (normalize_hook name = lit ''post_tool_use_failure'') how
      (mark_failed (normalize_hook name = lit ''post_tool_use_failure'') payload)"
  using assms by (simp add: logged_def Let_def split: if_splits option.splits prod.splits) blast


section \<open>Nothing after an open private region\<close>

fun flag_after :: "(rstr \<Rightarrow> rstr) \<Rightarrow> bool \<Rightarrow> bool \<Rightarrow> bool \<Rightarrow> json \<Rightarrow> string list \<Rightarrow> bool \<Rightarrow> bool" where
  "flag_after f footstep failed recall v [] opened = opened"
| "flag_after f footstep failed recall v (key # keys) opened =
     flag_after f footstep failed recall v keys
       (if (\<not> failed \<and> key \<in> set FAILURE_KEYS) \<or> opened then opened
        else case json_get (lit key) v of None \<Rightarrow> opened | Some x \<Rightarrow> snd (shape_field f footstep recall key x opened))"

lemma keep_fields_append:
  "keep_fields f footstep failed recall v (ks @ ks') opened =
   keep_fields f footstep failed recall v ks opened @
   keep_fields f footstep failed recall v ks' (flag_after f footstep failed recall v ks opened)"
  by (induction ks arbitrary: opened) (auto simp: split_def Let_def split: option.split)

lemma keep_fields_same:
  "\<forall>k\<in>set ks. json_get (lit k) v = json_get (lit k) v' \<Longrightarrow>
   keep_fields f footstep failed recall v ks opened = keep_fields f footstep failed recall v' ks opened"
  by (induction ks arbitrary: opened) (auto simp: split_def Let_def split: option.split)

lemma keep_fields_opened:
  "\<forall>k\<in>set ks. json_get (lit k) v = None \<longleftrightarrow> json_get (lit k) v' = None \<Longrightarrow>
   keep_fields f footstep failed recall v ks True = keep_fields f footstep failed recall v' ks True"
  by (induction ks) (auto split: option.split)


definition sample_shaper :: shaper where
  "sample_shaper = \<lparr>sh_ref = (\<lambda>_. False), sh_self = \<lparr>patterns = [], allowlist = []\<rparr>, sh_base64 = (\<lambda>t. [Plain t]), sh_print = print_tree\<rparr>"

definition open_payload :: "rstr \<Rightarrow> json" where
  "open_payload secret = JObj [(lit ''message'', JStr secret),
     (lit ''tool_name'', JStr (lit ''Write'')), (lit ''tool_response'', JStr (lit ''a <private>b''))]"



section \<open>Delegates and one-shot runs\<close>

definition ledgers :: "store \<Rightarrow> injected_row list \<times> (rstr \<times> int) list \<times> (rstr \<times> rstr) list" where
  "ledgers db = (injected db, injected_bytes db, injected_files db)"

lemma ledgers_note [simp]: "ledgers (note_invocation s how db) = ledgers db"
  by (simp add: ledgers_def note_invocation_def)

lemma ledgers_triggers [simp]: "ledgers (set_lesson_triggers i cs db) = ledgers db"
  by (simp add: ledgers_def set_lesson_triggers_def)

lemma ledgers_state [simp]: "ledgers (set_state k v db) = ledgers db"
  by (simp add: ledgers_def set_state_def)

lemma ledgers_events [simp]: "ledgers (upd_event i f db) = ledgers db"
  by (simp add: ledgers_def upd_event_def)

lemma ledgers_upsert [simp]: "ledgers (upsert_event fs it b c e db) = ledgers db"
  by (simp add: upsert_event_def ledgers_def upd_event_def split: option.split)

lemma ledgers_links [simp]: "ledgers (apply_links e db) = ledgers db"
proof -
  have "ledgers (apply_link e u t) = ledgers t" for t u
    by (simp add: apply_link_def apply_defs Let_def split: event_kind.split)
  then show ?thesis by (simp add: apply_links_def foldl_frame)
qed

lemma ledgers_settle [simp]: "ledgers (settle_summary e db) = ledgers db"
  by (simp add: settle_summary_def mark_consolidated_def foldl_frame)

lemma ledgers_insert_files [simp]: "ledgers (foldl (insert_file i p) db fs) = ledgers db"
  by (rule foldl_frame) (simp add: ledgers_def insert_file_def)

lemma ledgers_index_with: "ledgers (index_with x body clamped e False db) = ledgers db"
  by (simp add: index_with_rows index_rows_def Let_def)

lemma ledgers_index:
  assumes "index_captured x e db = Some db'"
  shows "ledgers db' = ledgers db"
proof -
  obtain body clamped where "db' = index_with x body clamped e False db"
    using assms unfolding index_captured_def index_event_def by fastforce
  then show ?thesis by (simp only: ledgers_index_with)
qed

lemma record_all_started:
  assumes "record_all E fast known s how pid tpath c e W = Some (skip, bad, W')"
  shows "hw_started W' = hw_started W \<and> ledgers (hw_db W') = ledgers (hw_db W)"
proof -
  define bad1 where "bad1 = (\<not> known \<and> he_refuses E W_invocation)"
  define W1 where "W1 = (if known \<or> bad1 then W else W\<lparr>hw_db := note_invocation s how (hw_db W)\<rparr>)"
  define skip1 where "skip1 = (fast \<and> bad1)"
  define bad2 where "bad2 = (\<not> skip1 \<and> he_refuses E W_host)"
  define W2 where "W2 = (if skip1 \<or> bad2 then W1 else W1\<lparr>hw_hosts := put_host pid s (now_text E) (hw_hosts W1)\<rparr>)"
  define skip2 where "skip2 = (skip1 \<or> fast \<and> bad2)"
  define bad3 where "bad3 = (tpath \<noteq> None \<and> \<not> skip2 \<and> he_refuses E W_transcript)"
  define W3 where "W3 = (case tpath of None \<Rightarrow> W2 | Some p \<Rightarrow> if skip2 \<or> bad3 then W2 else W2\<lparr>hw_paths := put_path s p (hw_paths W2)\<rparr>)"
  define skip3 where "skip3 = (skip2 \<or> fast \<and> bad3)"
  have 1: "hw_started W1 = hw_started W" "ledgers (hw_db W1) = ledgers (hw_db W)" by (simp_all add: W1_def)
  have 2: "hw_started W2 = hw_started W1" "hw_db W2 = hw_db W1" by (simp_all add: W2_def)
  have 3: "hw_started W3 = hw_started W2" "hw_db W3 = hw_db W2" by (simp_all add: W3_def split: option.split)
  have all: "record_all E fast known s how pid tpath c e W =
     (if \<not> c \<or> skip3 then Some (skip3, bad1 \<or> bad2, W3)
      else if he_refuses E W_index then Some (fast, True, W3)
      else map_option (\<lambda>db. (False, bad1 \<or> bad2, W3\<lparr>hw_db := db\<rparr>)) (index_captured (he_extern E) e (hw_db W3)))"
    unfolding record_all_def skip3_def W3_def bad3_def skip2_def W2_def bad2_def skip1_def W1_def bad1_def Let_def ..
  have "W' = W3 \<or> (\<exists>db. index_captured (he_extern E) e (hw_db W3) = Some db \<and> W' = W3\<lparr>hw_db := db\<rparr>)"
    using assms unfolding all by (auto split: if_splits)
  then show ?thesis using ledgers_index 1 2 3 by auto
qed

lemma start_runs_headless [simp]: "start_runs E cli hook s True skip W = W"
  by (simp add: start_runs_def summons_def)

lemma wipe_state_ledgers:
  "wipe_state E data s hook v skip W = (skip', fresh', W') \<Longrightarrow>
   hw_started W' = hw_started W \<and> ledgers (hw_db W') \<in> {ledgers (hw_db W), ledgers (reset_injection_state s (hw_db W))}"
  by (auto simp: wipe_state_def Let_def split: if_splits)

lemma ledgers_reset: "ledgers a = ledgers b \<Longrightarrow> ledgers (reset_injection_state s a) = ledgers (reset_injection_state s b)"
  by (simp add: ledgers_def reset_injection_state_def)

text \<open>What an outsider's hook does to the session: \<open>d\<close> for a delegate.\<close>

definition hears_nothing :: "bool \<Rightarrow> rstr \<Rightarrow> hook_world \<Rightarrow> hook_result \<times> hook_world \<Rightarrow> bool" where
  "hears_nothing d session W = (\<lambda>(r, W').
     (case r of Answered a _ \<Rightarrow> a = QUIET | _ \<Rightarrow> True) \<and> hw_started W' = hw_started W \<and>
     ledgers (hw_db W') \<in> {ledgers (hw_db W), ledgers (reset_injection_state session (hw_db W))} \<and>
     (d \<longrightarrow> ledgers (hw_db W') = ledgers (hw_db W)))"

lemma hears_kept:
  "hw_started W' = hw_started W \<Longrightarrow> ledgers (hw_db W') = ledgers (hw_db W) \<Longrightarrow> hears_nothing d s W (Answered QUIET b, W')"
  "hw_started W' = hw_started W \<Longrightarrow> ledgers (hw_db W') = ledgers (hw_db W) \<Longrightarrow> hears_nothing d s W (Errored x, W')"
  "hw_started W' = hw_started W \<Longrightarrow> ledgers (hw_db W') = ledgers (hw_db W) \<Longrightarrow> hears_nothing d s W (Panicked, W')"
  by (simp_all add: hears_nothing_def)

lemma hears_if: "(b \<Longrightarrow> hears_nothing d s W x) \<Longrightarrow> (\<not> b \<Longrightarrow> hears_nothing d s W y) \<Longrightarrow> hears_nothing d s W (if b then x else y)"
  by simp

lemma hears_option:
  "(opt = None \<Longrightarrow> hears_nothing d s W x) \<Longrightarrow> (\<And>a. opt = Some a \<Longrightarrow> hears_nothing d s W (f a)) \<Longrightarrow>
   hears_nothing d s W (case opt of None \<Rightarrow> x | Some a \<Rightarrow> f a)"
  by (cases opt) simp_all

lemma hears_pair: "(\<And>a b. p = (a, b) \<Longrightarrow> hears_nothing d s W (f a b)) \<Longrightarrow> hears_nothing d s W (case p of (a, b) \<Rightarrow> f a b)"
  by (cases p) simp

lemma after_log_outsider:
  assumes who: "delegate_label v \<noteq> None \<or> is_headless how"
  shows "hears_nothing (delegate_label v \<noteq> None) (ev_session e) W
    (after_log E data fast config sc cli hook name failed known how pid e v W)"
proof (cases "record_all E fast known (ev_session e) how pid (if delegate_label v = None then transcript_named E cli v else None) (captures hook) e W")
  case None
  then show ?thesis by (simp add: after_log_def Let_def hears_kept)
next
  case (Some x)
  obtain skip bad W1 where x: "x = (skip, bad, W1)" by (cases x)
  note one = record_all_started [OF Some [unfolded x]]
  show ?thesis
  proof (cases "delegate_label v = None")
    case False
    then show ?thesis using Some one unfolding x by (simp add: after_log_def Let_def hears_kept)
  next
    case True
    then have h: "is_headless how" using who by simp
    obtain skip2 fresh' W2 where w: "wipe_state E data (ev_session e) hook v skip W1 = (skip2, fresh', W2)"
      by (cases "wipe_state E data (ev_session e) hook v skip W1")
    have "after_log E data fast config sc cli hook name failed known how pid e v W = (Answered QUIET (\<not> fast \<and> bad), W2)"
      using Some True h w unfolding x by (simp add: after_log_def Let_def)
    then show ?thesis
      using True one wipe_state_ledgers [OF w] ledgers_reset [of "hw_db W1" "hw_db W" "ev_session e"] by (simp add: hears_nothing_def)
  qed
qed

lemma session_of_event_for: "ev_session (event_for E w sc cli hook failed how v) = x_show_uuid (he_host E) (payload_session (he_host E) v)"
  by (simp add: event_for_def new_event_def split: prod.split)

lemma hears_disk: "hears_nothing d s (W\<lparr>hw_disk := x\<rparr>) = hears_nothing d s W"
  by (simp add: hears_nothing_def)


definition sample_env :: hook_env where
  "sample_env = \<lparr>he_worker = None, he_silence = None, he_host = sample_host, he_shape = (\<lambda>_. Some (sample_shaper, default_config)),
     he_ser = ev_title, he_origin = None, he_print = print_tree, he_lossy = (\<lambda>t. t), he_content = (\<lambda>_. None), he_canon = (\<lambda>_. None),
     he_home = None, he_current = Some [lit ''repo''], he_windows = False, he_lower = map ascii_lower, he_ulid = lit ''0a'',
     he_clock = sample_clock, he_now = 0, he_now_ms = 0, he_cutoff = [], he_ps = None, he_pid = 1, he_peeks = True, he_opens = True,
     he_refuses = (\<lambda>_. False), he_searcher = sample_searcher, he_interrupted = False, he_extern = sample_extern\<rparr>"

definition sample_world :: hook_world where
  "sample_world = \<lparr>hw_disk = \<lparr>d_files = [], d_dirs = []\<rparr>, hw_db = empty_store, hw_hosts = [], hw_paths = [], hw_started = []\<rparr>"

definition delegate_payload :: json where
  "delegate_payload = JObj [(lit ''agent_id'', JStr (lit ''a1'')), (lit ''prompt'', JStr (lit ''look around''))]"


section \<open>An empty key hides the next\<close>

text \<open>\<open>first_string\<close> stops at the first key that is a string, even an empty one.\<close>

lemma empty_key_hides_the_next: "get_str k v = Some [] \<Longrightarrow> first_string v (k # ks) = None"
  by (simp add: first_string_def map_filter_simps)

end
