(* ===== verification/Ladder.thy ===== *)
theory Ladder
  imports Drain Transcript
begin

text \<open>
  The summarizer ladder, \<open>src/src/summarizer.rs\<close>: the table of CLIs, the order of the rungs, one call
  and what it is taken for, the breaker and the ledger behind it, the newer models found by listing,
  and where a program is looked for. The child process, the regex engine, the JSON parser and the
  clock are parameters. Reads of the state table succeed; the health table may refuse a read or a
  write, and a run ends with \<open>None\<close> there. Program names carry no extension (not Windows).
\<close>

section \<open>The table\<close>

datatype output_mode = Stdout | Out_file

datatype listing = Codex_cache | List_command "rstr list"

record family =
  fa_pattern :: rstr
  fa_listing :: listing

record cli_spec =
  sp_cli :: rstr
  sp_program :: rstr
  sp_model :: rstr
  sp_output :: output_mode
  sp_args :: "rstr list"
  sp_family :: "family option"

definition passes_a_model :: "cli_spec \<Rightarrow> bool" where
  "passes_a_model s = (lit ''{model}'' \<in> set (sp_args s))"

definition SPECS :: "cli_spec list" where
  "SPECS =
    [\<lparr>sp_cli = lit ''claude-code'', sp_program = lit ''claude'', sp_model = lit ''haiku'', sp_output = Stdout,
      sp_args = map lit [''-p'', ''--model'', ''{model}'', ''--strict-mcp-config'', ''--tools='', ''--no-session-persistence''],
      sp_family = None\<rparr>,
     \<lparr>sp_cli = lit ''codex'', sp_program = lit ''codex'', sp_model = lit ''gpt-5.6-luna'', sp_output = Out_file,
      sp_args = map lit [''exec'', ''--ephemeral'', ''-m'', ''{model}'', ''-c'', ''model_reasoning_effort='' @ [CHR 0x22] @ ''low'' @ [CHR 0x22],
        ''-s'', ''read-only'', ''--skip-git-repo-check'', ''-o'', ''{out}''],
      sp_family = Some \<lparr>fa_pattern = lit (''^gpt-('' @ [CHR 0x5C] @ ''d+(?:'' @ [CHR 0x5C] @ ''.'' @ [CHR 0x5C] @ ''d+)*)-luna$''),
        fa_listing = Codex_cache\<rparr>\<rparr>,
     \<lparr>sp_cli = lit ''antigravity'', sp_program = lit ''agy'', sp_model = lit ''gemini-3.7-flash-low'', sp_output = Stdout,
      sp_args = map lit [''--model'', ''{model}'', ''-p''],
      sp_family = Some \<lparr>fa_pattern = lit (''^gemini-('' @ [CHR 0x5C] @ ''d+(?:'' @ [CHR 0x5C] @ ''.'' @ [CHR 0x5C] @ ''d+)*)-flash-low$''),
        fa_listing = List_command [lit ''models'']\<rparr>\<rparr>,
     \<lparr>sp_cli = lit ''cursor'', sp_program = lit ''cursor-agent'', sp_model = [], sp_output = Stdout,
      sp_args = map lit [''-p'', ''--output-format'', ''text'', ''--mode'', ''ask'', ''--trust''], sp_family = None\<rparr>,
     \<lparr>sp_cli = lit ''opencode'', sp_program = lit ''opencode'', sp_model = [], sp_output = Stdout,
      sp_args = [lit ''run''], sp_family = None\<rparr>,
     \<lparr>sp_cli = lit ''gemini-cli'', sp_program = lit ''gemini'', sp_model = lit ''flash'', sp_output = Stdout,
      sp_args = map lit [''-m'', ''{model}'', ''--skip-trust'', ''-p''], sp_family = None\<rparr>]"

definition PROMPT_MAX_BYTES :: nat where "PROMPT_MAX_BYTES = 24 * 1024"
definition CALL_TIMEOUT :: nat where "CALL_TIMEOUT = 180"
definition MAX_RUNGS_PER_CALL :: nat where "MAX_RUNGS_PER_CALL = 2"
definition LOOKUP_EVERY_SECS :: int where "LOOKUP_EVERY_SECS = 24 * 3600"
definition FAILED_FOR_SECS :: int where "FAILED_FOR_SECS = 7 * (24 * 3600)"
definition TIMED_OUT :: rstr where "TIMED_OUT = lit ''timed out after''"

section \<open>Where a program is\<close>

definition fallback_dirs :: "(path \<Rightarrow> path list option) \<Rightarrow> path option \<Rightarrow> path list" where
  "fallback_dirs entries home =
     (case home of None \<Rightarrow> []
      | Some h \<Rightarrow> (h @ map lit [''.local'', ''bin'']) #
          (case entries (h @ map lit [''.nvm'', ''versions'', ''node'']) of None \<Rightarrow> []
           | Some es \<Rightarrow> rev (sort (map (\<lambda>e. e @ [lit ''bin'']) es))))"

definition resolve_program :: "(path \<Rightarrow> path list option) \<Rightarrow> disk \<Rightarrow> path list \<Rightarrow> path option \<Rightarrow> rstr \<Rightarrow> path option" where
  "resolve_program entries d path_dirs home program =
     find (is_file d) (map (\<lambda>dir. dir @ [program]) (path_dirs @ fallback_dirs entries home))"

definition is_host_session_var :: "rstr \<Rightarrow> bool" where
  "is_host_session_var name =
     (list_ex (\<lambda>p. starts_with name (lit p)) [''CLAUDE_CODE_'', ''CODEX_COMPANION_'', ''CURSOR_SESSION_'', ''ORCA_'', ''DEVIN_''] \<or>
      name \<in> set (map lit [''CLAUDECODE'', ''CLAUDE_PID'', ''CLAUDE_EFFORT'', ''CLAUDE_PLUGIN_DATA'', ''CLAUDE_PROJECT_DIR'']))"

section \<open>One call to one CLI\<close>

text \<open>An error is its outermost message and the whole chain as \<open>{:#}\<close> prints it.\<close>

datatype answer_said = Said rstr | Broke rstr rstr

text \<open>What the child did: how it was started or waited for can fail; otherwise it ended, with a code.\<close>

datatype child = Not_run rstr rstr | Ran bool rstr rstr rstr rstr

definition cli_args :: "cli_spec \<Rightarrow> rstr \<Rightarrow> rstr \<Rightarrow> rstr list" where
  "cli_args spec model out_path =
     map (\<lambda>a. if a = lit ''{model}'' then model
              else if a = lit ''{out}'' then (if sp_output spec = Out_file then out_path else []) else a) (sp_args spec)"

text \<open>\<open>run_child program args prompt\<close>: \<open>Ran success code stdout stderr file\<close>.\<close>

definition invoke :: "(rstr \<Rightarrow> rstr list \<Rightarrow> rstr \<Rightarrow> child) \<Rightarrow> rstr \<Rightarrow> cli_spec \<Rightarrow> rstr \<Rightarrow> rstr \<Rightarrow> answer_said" where
  "invoke run_child out_path spec model prompt =
     (if starts_with (trim_start_by is_ws prompt) [45]
      then (let m = lit ''a prompt may not begin with a dash; it would be parsed as a flag'' in Broke m m)
      else if PROMPT_MAX_BYTES < blen prompt
      then (let m = lit ''prompt is '' @ dec (blen prompt) @ lit '' bytes, over the '' @ dec PROMPT_MAX_BYTES @ lit ''-byte call ceiling''
            in Broke m m)
      else case run_child (sp_program spec) (cli_args spec model out_path) prompt of
        Not_run outer full \<Rightarrow> Broke outer full
      | Ran success code out err written \<Rightarrow>
          if success then Said (if sp_output spec = Out_file then written else out)
          else (let m = sp_program spec @ lit '' exited with '' @ code @ lit '': '' @ take 200 (trim err) in Broke m m))"

definition is_wrong_shape_json :: "(rstr \<Rightarrow> json option) \<Rightarrow> rstr \<Rightarrow> bool" where
  "is_wrong_shape_json parse t =
     (let body = (case strip_pre (trim t) [96, 96, 96] of None \<Rightarrow> trim t
            | Some rest \<Rightarrow> (let inner = trim (trim_start_by is_ascii_alnum rest) in
                trim (case strip_pre (rev inner) [96, 96, 96] of None \<Rightarrow> inner | Some r \<Rightarrow> rev r)))
      in starts_with body [123] \<and>
         (case parse body of Some (JObj kvs) \<Rightarrow> lit ''error'' \<notin> fst ` set kvs | _ \<Rightarrow> False))"

definition unusable_reason :: "rstr \<Rightarrow> rstr" where
  "unusable_reason t =
     (if trim t = [] then lit ''empty response''
      else lit ''unusable answer: '' @
        cut_text (case find (\<lambda>l. trim l \<noteq> []) (text_lines (trim t)) of None \<Rightarrow> [] | Some l \<Rightarrow> trim l) 160)"

section \<open>Newer models\<close>

datatype origin = From_config | Newest | Built_in

record discovered =
  di_newest :: "(rstr \<times> rstr) list"
  di_failed :: "(rstr \<times> rstr) list"

definition model_key :: "rstr \<Rightarrow> rstr" where "model_key cli = lit ''summarizer_model:'' @ cli"
definition bad_key :: "rstr \<Rightarrow> rstr" where "bad_key cli = lit ''summarizer_model_bad:'' @ cli"
definition checked_key :: "rstr \<Rightarrow> rstr" where "checked_key cli = lit ''summarizer_model_checked:'' @ cli"

text \<open>\<open>capture pattern id\<close> is group 1 of the match, if there is one.\<close>

definition version_of :: "(rstr \<Rightarrow> rstr \<Rightarrow> rstr option) \<Rightarrow> rstr \<Rightarrow> rstr \<Rightarrow> nat list option" where
  "version_of capture pattern i =
     Option.bind (capture pattern i) (\<lambda>t. those (map parse_u64 (split_on (\<lambda>c. c = 46) t)))"

text \<open>\<open>Iterator::max_by\<close>: the last of the largest.\<close>

fun last_largest :: "(nat list \<times> rstr) option \<Rightarrow> (nat list \<times> rstr) list \<Rightarrow> (nat list \<times> rstr) option" where
  "last_largest best [] = best"
| "last_largest best (x # xs) =
     last_largest (case best of None \<Rightarrow> Some x | Some b \<Rightarrow> if fst x < fst b then best else Some x) xs"

definition pick_newest :: "(rstr \<Rightarrow> rstr \<Rightarrow> rstr option) \<Rightarrow> family \<Rightarrow> rstr \<Rightarrow> rstr list \<Rightarrow> rstr option" where
  "pick_newest capture f pin ids =
     (case version_of capture (fa_pattern f) pin of None \<Rightarrow> None
      | Some least \<Rightarrow>
          map_option snd (last_largest None
            (filter (\<lambda>x. least < fst x)
              (List.map_filter (\<lambda>i. map_option (\<lambda>v. (v, i)) (version_of capture (fa_pattern f) i)) ids))))"

definition is_newer_than_pin :: "(rstr \<Rightarrow> rstr \<Rightarrow> rstr option) \<Rightarrow> cli_spec \<Rightarrow> rstr \<Rightarrow> bool" where
  "is_newer_than_pin capture spec i =
     (case sp_family spec of None \<Rightarrow> False | Some f \<Rightarrow> pick_newest capture f (sp_model spec) [i] \<noteq> None)"

definition mark_holds :: "clock \<Rightarrow> rstr \<Rightarrow> rstr \<Rightarrow> int \<Rightarrow> bool" where
  "mark_holds c mark i now =
     (case split_once [32] mark of None \<Rightarrow> False
      | Some (marked, at') \<Rightarrow> marked = i \<and>
          (case parse_ts c at' of None \<Rightarrow> False | Some t \<Rightarrow> as_second now - as_second t < FAILED_FOR_SECS))"

definition read_one :: "clock \<Rightarrow> (rstr \<Rightarrow> rstr \<Rightarrow> rstr option) \<Rightarrow> store \<Rightarrow> int \<Rightarrow> discovered \<Rightarrow> cli_spec \<Rightarrow> discovered" where
  "read_one c capture db now found spec =
     (case state_get (model_key (sp_cli spec)) db of None \<Rightarrow> found
      | Some i \<Rightarrow>
          if \<not> is_newer_than_pin capture spec i then found
          else if (case state_get (bad_key (sp_cli spec)) db of None \<Rightarrow> False | Some mark \<Rightarrow> mark_holds c mark i now)
          then found\<lparr>di_failed := di_failed found @ [(sp_cli spec, i)]\<rparr>
          else found\<lparr>di_newest := di_newest found @ [(sp_cli spec, i)]\<rparr>)"

definition read_discovered :: "clock \<Rightarrow> (rstr \<Rightarrow> rstr \<Rightarrow> rstr option) \<Rightarrow> store \<Rightarrow> int \<Rightarrow> discovered" where
  "read_discovered c capture db now =
     foldl (read_one c capture db now) \<lparr>di_newest = [], di_failed = []\<rparr> (filter (\<lambda>s. sp_family s \<noteq> None) SPECS)"

definition failed_model :: "discovered \<Rightarrow> rstr \<Rightarrow> rstr option" where
  "failed_model found cli = map_of (di_failed found) cli"

definition choose_model :: "cli_spec \<Rightarrow> (rstr \<times> rstr) list \<Rightarrow> discovered \<Rightarrow> rstr \<times> origin" where
  "choose_model spec overrides found =
     (case map_of overrides (sp_cli spec) of Some m \<Rightarrow> (m, From_config)
      | None \<Rightarrow> (case map_of (di_newest found) (sp_cli spec) of Some m \<Rightarrow> (m, Newest) | None \<Rightarrow> (sp_model spec, Built_in)))"

definition json_or_null :: "string \<Rightarrow> json \<Rightarrow> json" where
  "json_or_null key v = (case json_get (lit key) v of None \<Rightarrow> JNull | Some x \<Rightarrow> x)"

definition parse_codex_cache :: "(rstr \<Rightarrow> json option) \<Rightarrow> rstr \<Rightarrow> rstr list option" where
  "parse_codex_cache parse t =
     Option.bind (parse t) (\<lambda>root.
     case json_get (lit ''models'') root of
       Some (JArr models) \<Rightarrow>
         Some (List.map_filter (\<lambda>m. as_str (json_or_null ''slug'' m))
           (filter (\<lambda>m. json_or_null ''visibility'' m = JStr (lit ''list'') \<and> json_or_null ''upgrade'' m = JNull) models))
     | _ \<Rightarrow> None)"

definition parse_listing :: "rstr \<Rightarrow> rstr list" where
  "parse_listing t =
     filter (\<lambda>i. i \<noteq> []) (map (\<lambda>(i, _). trim i) (List.map_filter (split_once [9]) (text_lines t)))"

text \<open>\<open>cache\<close> is the text of Codex's list, \<open>list\<close> the output of a listing command that succeeded.\<close>

definition discover :: "(rstr \<Rightarrow> json option) \<Rightarrow> rstr option \<Rightarrow> (rstr \<Rightarrow> rstr list \<Rightarrow> rstr option) \<Rightarrow> cli_spec \<Rightarrow> rstr list option" where
  "discover parse cache ls spec =
     Option.bind (sp_family spec) (\<lambda>f.
     Option.bind (case fa_listing f of Codex_cache \<Rightarrow> Option.bind cache (parse_codex_cache parse)
        | List_command args \<Rightarrow> map_option parse_listing (ls (sp_program spec) args)) (\<lambda>ids.
     if ids = [] then None else Some ids))"

definition refresh_one ::
    "clock \<Rightarrow> (rstr \<Rightarrow> rstr \<Rightarrow> rstr option) \<Rightarrow> int \<Rightarrow> (rstr \<Rightarrow> bool) \<Rightarrow> (cli_spec \<Rightarrow> rstr list option) \<Rightarrow> store \<Rightarrow> cli_spec \<Rightarrow> store" where
  "refresh_one c capture now installed ls db spec =
     (case sp_family spec of None \<Rightarrow> db
      | Some f \<Rightarrow>
          if \<not> installed (sp_program spec) then db
          else if (case Option.bind (state_get (checked_key (sp_cli spec)) db) (parse_ts c) of None \<Rightarrow> False
                   | Some t \<Rightarrow> as_second now - as_second t < LOOKUP_EVERY_SECS) then db
          else case ls spec of None \<Rightarrow> db
          | Some ids \<Rightarrow>
              set_state (checked_key (sp_cli spec)) (show_ts c now)
                (case pick_newest capture f (sp_model spec) ids of
                   Some i \<Rightarrow> set_state (model_key (sp_cli spec)) i db
                 | None \<Rightarrow> clear_state (model_key (sp_cli spec)) db))"

definition refresh_models_with ::
    "clock \<Rightarrow> (rstr \<Rightarrow> rstr \<Rightarrow> rstr option) \<Rightarrow> int \<Rightarrow> (rstr \<Rightarrow> bool) \<Rightarrow> (cli_spec \<Rightarrow> rstr list option) \<Rightarrow> store \<Rightarrow> store" where
  "refresh_models_with c capture now installed ls db = foldl (refresh_one c capture now installed ls) db SPECS"

section \<open>The ladder\<close>

text \<open>
  What a run of the ladder meets: the clock and its readings, the programs installed, the answer of
  a CLI on a model, and which writes are refused.
\<close>

record ladder_env =
  le_clock :: clock
  le_capture :: "rstr \<Rightarrow> rstr \<Rightarrow> rstr option"
  le_json :: "rstr \<Rightarrow> json option"
  le_installed :: "rstr \<Rightarrow> bool"
  le_answer :: "cli_spec \<Rightarrow> rstr \<Rightarrow> rstr \<Rightarrow> answer_said"
  le_ms :: "rstr \<Rightarrow> rstr \<Rightarrow> nat"
  le_asked :: "rstr \<Rightarrow> int"
  le_logged :: "rstr \<Rightarrow> rstr \<Rightarrow> int"
  le_marked :: "rstr \<Rightarrow> int"
  le_failed :: "rstr \<Rightarrow> int"
  le_later :: "rstr \<Rightarrow> int"
  le_reads :: "rstr \<Rightarrow> bool"
  le_writes :: "rstr \<Rightarrow> bool"
  le_marks :: "rstr \<Rightarrow> bool"
  le_ledger :: "rstr \<Rightarrow> rstr \<Rightarrow> bool"

record ladder =
  ld_mode :: rstr
  ld_models :: "(rstr \<times> rstr) list"
  ld_discovered :: discovered
  ld_timeout :: nat
  ld_advisory :: bool

record call_row =
  cl_ts :: rstr
  cl_session :: rstr
  cl_purpose :: rstr
  cl_cli :: rstr
  cl_model :: rstr
  cl_prompt_bytes :: int
  cl_answer_bytes :: int
  cl_ms :: int
  cl_outcome :: rstr

record ladder_state =
  la_db :: store
  la_fell_back :: "rstr list"
  la_calls :: "call_row list"

definition new_ladder :: "ladder_env \<Rightarrow> rstr \<Rightarrow> (rstr \<times> rstr) list \<Rightarrow> int \<Rightarrow> store \<Rightarrow> ladder" where
  "new_ladder E mode models now db =
     \<lparr>ld_mode = mode, ld_models = models, ld_discovered = read_discovered (le_clock E) (le_capture E) db now,
      ld_timeout = CALL_TIMEOUT, ld_advisory = False\<rparr>"

definition while_waiting :: "nat \<Rightarrow> ladder \<Rightarrow> ladder" where
  "while_waiting limit L = L\<lparr>ld_timeout := limit, ld_advisory := True\<rparr>"

definition rungs :: "ladder \<Rightarrow> nat" where
  "rungs L = (if ld_advisory L then 1 else MAX_RUNGS_PER_CALL)"

definition enabled :: "ladder \<Rightarrow> bool" where
  "enabled L = (ld_mode L \<noteq> lit ''off'')"

definition normalize_cli :: "rstr \<Rightarrow> rstr" where
  "normalize_cli raw =
     (if raw = lit ''gemini'' then lit ''gemini-cli'' else if raw = lit ''agy'' then lit ''antigravity''
      else if raw = lit ''cursor-agent'' then lit ''cursor'' else raw)"

definition order :: "ladder \<Rightarrow> rstr \<Rightarrow> cli_spec list" where
  "order L preferred =
     (if ld_advisory L then filter (\<lambda>s. sp_cli s = normalize_cli preferred) SPECS
      else if ld_mode L \<noteq> lit ''auto'' then filter (\<lambda>s. sp_cli s = normalize_cli (ld_mode L)) SPECS
      else filter (\<lambda>s. sp_cli s = normalize_cli preferred) SPECS @ filter (\<lambda>s. sp_cli s \<noteq> normalize_cli preferred) SPECS)"

definition available :: "ladder_env \<Rightarrow> cli_spec \<Rightarrow> store \<Rightarrow> bool option" where
  "available E spec db =
     (if \<not> le_installed E (sp_program spec) then Some False
      else if \<not> le_reads E (sp_cli spec) then None
      else Some (\<not> summarizer_in_cooldown (le_clock E) (sp_cli spec) (le_asked E (sp_cli spec)) db))"

fun any_available :: "ladder_env \<Rightarrow> store \<Rightarrow> cli_spec list \<Rightarrow> bool option" where
  "any_available E db [] = Some False"
| "any_available E db (spec # specs) =
     Option.bind (available E spec db) (\<lambda>b. if b then Some True else any_available E db specs)"

definition could_answer :: "ladder_env \<Rightarrow> ladder \<Rightarrow> rstr \<Rightarrow> store \<Rightarrow> bool option" where
  "could_answer E L preferred db = (if enabled L then any_available E db (order L preferred) else Some False)"

definition model_choice :: "ladder \<Rightarrow> cli_spec \<Rightarrow> ladder_state \<Rightarrow> rstr \<times> origin" where
  "model_choice L spec S =
     (let (model, from) = choose_model spec (ld_models L) (ld_discovered L) in
      if from = Newest \<and> sp_cli spec \<in> set (la_fell_back S) then (sp_model spec, Built_in) else (model, from))"

definition record_outcome :: "ladder_env \<Rightarrow> ladder \<Rightarrow> rstr \<Rightarrow> rstr option \<Rightarrow> ladder_state \<Rightarrow> ladder_state option" where
  "record_outcome E L cli err S =
     (if ld_advisory L then Some S
      else if \<not> le_writes E cli then None
      else map_option (\<lambda>db. S\<lparr>la_db := db\<rparr>)
        (case err of None \<Rightarrow> Some (record_summarizer_success cli (la_db S))
         | Some detail \<Rightarrow> record_summarizer_failure (le_clock E) cli detail (le_failed E cli) (le_later E cli) (la_db S)))"

definition ledger_row :: "ladder_env \<Rightarrow> ladder \<Rightarrow> call_row \<Rightarrow> ladder_state \<Rightarrow> ladder_state" where
  "ledger_row E L row S =
     (if ld_advisory L \<or> \<not> le_ledger E (cl_cli row) (cl_model row) then S else S\<lparr>la_calls := la_calls S @ [row]\<rparr>)"

record call_try =
  at_result :: answer_said
  at_good :: bool
  at_content :: bool

definition attempt_of :: "ladder_env \<Rightarrow> (rstr \<Rightarrow> bool) \<Rightarrow> answer_said \<Rightarrow> call_try" where
  "attempt_of E usable r =
     (let good = (case r of Said t \<Rightarrow> usable t | Broke _ _ \<Rightarrow> False) in
      \<lparr>at_result = r, at_good = good,
       at_content = (case r of Said t \<Rightarrow> \<not> good \<and> is_wrong_shape_json (le_json E) t | Broke _ _ \<Rightarrow> False)\<rparr>)"

definition outcome_of :: "call_try \<Rightarrow> rstr \<times> nat" where
  "outcome_of a =
     (case at_result a of
        Said t \<Rightarrow> (if at_good a then lit ''ok'' else if at_content a then lit ''unparseable'' else lit ''unusable'', blen t)
      | Broke outer _ \<Rightarrow> (if starts_with outer TIMED_OUT then lit ''timeout'' else lit ''spawn_error'', 0))"

definition attempt_call ::
    "ladder_env \<Rightarrow> ladder \<Rightarrow> rstr \<Rightarrow> rstr \<Rightarrow> cli_spec \<Rightarrow> rstr \<Rightarrow> rstr \<Rightarrow> (rstr \<Rightarrow> bool) \<Rightarrow> ladder_state \<Rightarrow> call_try \<times> ladder_state" where
  "attempt_call E L purpose session spec model prompt usable S =
     (let a = attempt_of E usable (le_answer E spec model prompt); (how, bytes) = outcome_of a in
      (a, ledger_row E L \<lparr>cl_ts = show_ts (le_clock E) (le_logged E (sp_cli spec) model), cl_session = session, cl_purpose = purpose,
            cl_cli = sp_cli spec, cl_model = model, cl_prompt_bytes = to_i64 (blen prompt), cl_answer_bytes = to_i64 bytes,
            cl_ms = to_i64 (le_ms E (sp_cli spec) model), cl_outcome = how\<rparr> S))"

text \<open>One rung: the call, and the same call on the pin when a model found by listing failed it.\<close>

definition rung ::
    "ladder_env \<Rightarrow> ladder \<Rightarrow> rstr \<Rightarrow> rstr \<Rightarrow> rstr \<Rightarrow> (rstr \<Rightarrow> bool) \<Rightarrow> cli_spec \<Rightarrow> ladder_state \<Rightarrow> call_try \<times> ladder_state" where
  "rung E L purpose session prompt usable spec S =
     (let (model, from) = model_choice L spec S;
          (a, S1) = attempt_call E L purpose session spec model prompt usable S in
      if from = Newest \<and> \<not> ld_advisory L \<and> \<not> at_good a \<and> \<not> at_content a
      then (let (again, S2) = attempt_call E L purpose session spec (sp_model spec) prompt usable S1 in
            (again, if at_good again
                    then S2\<lparr>la_fell_back := List.insert (sp_cli spec) (la_fell_back S2),
                      la_db := (if le_marks E (sp_cli spec)
                                then set_state (bad_key (sp_cli spec)) (model @ [32] @ show_ts (le_clock E) (le_marked E (sp_cli spec))) (la_db S2)
                                else la_db S2)\<rparr>
                    else S2))
      else (a, S1))"

fun climb ::
    "ladder_env \<Rightarrow> ladder \<Rightarrow> rstr \<Rightarrow> rstr \<Rightarrow> rstr \<Rightarrow> (rstr \<Rightarrow> bool) \<Rightarrow> nat \<Rightarrow> cli_spec list \<Rightarrow> ladder_state \<Rightarrow> (tier \<times> rstr \<times> ladder_state) option" where
  "climb E L purpose session prompt usable tried [] S = Some (Rule_based, [], S)"
| "climb E L purpose session prompt usable tried (spec # specs) S =
     (if rungs L \<le> tried then Some (Rule_based, [], S)
      else Option.bind (available E spec (la_db S)) (\<lambda>there.
        if \<not> there then climb E L purpose session prompt usable tried specs S
        else (let (a, S1) = rung E L purpose session prompt usable spec S in
          case at_result a of
            Said t \<Rightarrow>
              if at_good a then map_option (\<lambda>S2. (By_cli (sp_cli spec), t, S2)) (record_outcome E L (sp_cli spec) None S1)
              else if at_content a then Some (Rule_based, [], S1)
              else Option.bind (record_outcome E L (sp_cli spec) (Some (unusable_reason t)) S1)
                (climb E L purpose session prompt usable (Suc tried) specs)
          | Broke _ full \<Rightarrow>
              Option.bind (record_outcome E L (sp_cli spec) (Some full) S1)
                (climb E L purpose session prompt usable (Suc tried) specs))))"

definition run_ladder ::
    "ladder_env \<Rightarrow> ladder \<Rightarrow> rstr \<Rightarrow> rstr \<Rightarrow> rstr \<Rightarrow> rstr \<Rightarrow> (rstr \<Rightarrow> bool) \<Rightarrow> ladder_state \<Rightarrow> (tier \<times> rstr \<times> ladder_state) option" where
  "run_ladder E L purpose session prompt preferred usable S =
     (if \<not> enabled L then Some (Rule_based, [], S)
      else if PROMPT_MAX_BYTES < blen prompt
      then (let first = (case order L preferred of [] \<Rightarrow> [] | s # _ \<Rightarrow> sp_cli s) in
        Some (Rule_based, [], ledger_row E L
          \<lparr>cl_ts = show_ts (le_clock E) (le_logged E first []), cl_session = session, cl_purpose = purpose, cl_cli = first, cl_model = [],
           cl_prompt_bytes = to_i64 (blen prompt), cl_answer_bytes = 0, cl_ms = 0, cl_outcome = lit ''oversize''\<rparr> S))
      else climb E L purpose session prompt usable 0 (order L preferred) S)"

section \<open>What a run does to the breaker\<close>

definition breaker_agrees :: "clock \<Rightarrow> (rstr \<times> call) list \<Rightarrow> store \<Rightarrow> store \<Rightarrow> bool" where
  "breaker_agrees c calls db db' =
     (\<exists>d. breaker_run c calls db = Some d \<and> summarizer_health d = summarizer_health db')"

lemma bind_foldl_None: "foldl (\<lambda>s x. Option.bind s (f x)) None xs = None"
  by (induction xs) auto

lemma breaker_run_Nil [simp]: "breaker_run c [] db = Some db"
  by (simp add: breaker_run_def)

lemma breaker_run_Cons: "breaker_run c (x # calls) db = Option.bind (breaker_step c x db) (breaker_run c calls)"
  by (cases "breaker_step c x db") (simp_all add: breaker_run_def bind_foldl_None)

lemma breaker_step_cong:
  assumes "summarizer_health a = summarizer_health b" "breaker_step c x a = Some a'"
  shows "\<exists>b'. breaker_step c x b = Some b' \<and> summarizer_health b' = summarizer_health a'"
proof -
  obtain k what where x: "x = (k, what)" by fastforce
  show ?thesis using assms
    by (cases what) (auto simp: x record_summarizer_failure_def record_summarizer_success_def Let_def split: option.splits if_splits)
qed

lemma breaker_run_cong:
  "summarizer_health a = summarizer_health b \<Longrightarrow> breaker_run c calls a = Some a' \<Longrightarrow>
   \<exists>b'. breaker_run c calls b = Some b' \<and> summarizer_health b' = summarizer_health a'"
proof (induction calls arbitrary: a b)
  case (Cons x calls)
  then obtain a1 where a1: "breaker_step c x a = Some a1" "breaker_run c calls a1 = Some a'"
    by (auto simp: breaker_run_Cons bind_eq_Some_conv)
  obtain b1 where b1: "breaker_step c x b = Some b1" "summarizer_health b1 = summarizer_health a1"
    using breaker_step_cong [OF Cons.prems(1) a1(1)] by blast
  show ?case using Cons.IH [OF b1(2) [symmetric] a1(2)] b1(1) by (simp add: breaker_run_Cons)
qed simp

lemma breaker_step_other:
  assumes "breaker_step c (k, what) db = Some db'" "cli \<noteq> k"
  shows "health_of cli db' = health_of cli db"
  using assms by (cases what)
    (auto simp: record_summarizer_failure_def record_summarizer_success_def Let_def health_of_put health_of_upd split: option.splits if_splits)

lemma cooldown_other:
  "health_of cli db' = health_of cli db \<Longrightarrow> summarizer_in_cooldown c cli now db' = summarizer_in_cooldown c cli now db"
  by (simp add: summarizer_in_cooldown_def)

lemma agrees_step:
  assumes "summarizer_health db1 = summarizer_health db" "breaker_step c x db1 = Some db2" "breaker_agrees c calls db2 db'"
  shows "breaker_agrees c (x # calls) db db'"
proof -
  obtain d where d: "breaker_run c calls db2 = Some d" "summarizer_health d = summarizer_health db'"
    using assms(3) by (auto simp: breaker_agrees_def)
  obtain e where e: "breaker_step c x db = Some e" "summarizer_health e = summarizer_health db2"
    using breaker_step_cong [OF assms(1,2)] by blast
  obtain d' where "breaker_run c calls e = Some d'" "summarizer_health d' = summarizer_health d"
    using breaker_run_cong [OF e(2) [symmetric] d(1)] by blast
  then show ?thesis using d(2) e(1) by (auto simp: breaker_agrees_def breaker_run_Cons)
qed

lemma health_set_state [simp]: "summarizer_health (set_state k v db) = summarizer_health db"
  by (simp add: set_state_def)

lemma ledger_row_db [simp]: "la_db (ledger_row E L row S) = la_db S"
  by (simp add: ledger_row_def)

lemma ledger_row_advisory [simp]: "ld_advisory L \<Longrightarrow> ledger_row E L row S = S"
  by (simp add: ledger_row_def)

lemma attempt_call_state:
  "attempt_call E L purpose session spec model prompt usable S = (a, S') \<Longrightarrow>
   a = attempt_of E usable (le_answer E spec model prompt) \<and> la_db S' = la_db S \<and> la_fell_back S' = la_fell_back S \<and> (ld_advisory L \<longrightarrow> S' = S)"
  by (auto simp: attempt_call_def Let_def ledger_row_def split: prod.splits if_splits)

lemma rung_state:
  assumes "rung E L purpose session prompt usable spec S = (a, S')"
  shows "(\<exists>model. a = attempt_of E usable (le_answer E spec model prompt)) \<and>
    summarizer_health (la_db S') = summarizer_health (la_db S) \<and> (ld_advisory L \<longrightarrow> S' = S)"
proof -
  obtain model src where m: "model_choice L spec S = (model, src)" by fastforce
  obtain a1 S1 where 1: "attempt_call E L purpose session spec model prompt usable S = (a1, S1)" by fastforce
  obtain a2 S2 where 2: "attempt_call E L purpose session spec (sp_model spec) prompt usable S1 = (a2, S2)" by fastforce
  note 11 = attempt_call_state [OF 1] and 22 = attempt_call_state [OF 2]
  show ?thesis
    using assms 11 22 unfolding rung_def m prod.case 1 2 Let_def by (auto split: if_splits)
qed

lemma attempt_good: "at_good (attempt_of E usable r) \<Longrightarrow> \<exists>t. r = Said t \<and> usable t"
  by (auto simp: attempt_of_def Let_def split: answer_said.splits)

lemma attempt_result [simp]: "at_result (attempt_of E usable r) = r"
  by (simp add: attempt_of_def Let_def)

lemma outcome_step:
  assumes "record_outcome E L cli err S = Some S'" "\<not> ld_advisory L"
  shows "breaker_step (le_clock E) (cli, case err of None \<Rightarrow> Answered | Some d \<Rightarrow> Failed d (le_failed E cli) (le_later E cli)) (la_db S) = Some (la_db S')"
  using assms by (auto simp: record_outcome_def split: if_splits option.splits)

lemma outcome_advisory: "ld_advisory L \<Longrightarrow> record_outcome E L cli err S = Some S' \<Longrightarrow> S' = S"
  by (simp add: record_outcome_def)

lemma outcome_total: "le_writes E cli \<Longrightarrow> \<exists>S'. record_outcome E L cli err S = Some S'"
proof -
  have "\<exists>db. record_summarizer_failure c cli d n l (la_db S) = Some db" for c d n l
    using truncate_error_total [of d]
    by (auto simp: record_summarizer_failure_def Let_def health_of_put split: option.split)
  then show "le_writes E cli \<Longrightarrow> ?thesis" by (auto simp: record_outcome_def split: option.split)
qed

text \<open>What a run ended as: the CLIs that failed it, in order, and who answered.\<close>

definition calls_of :: "(rstr \<times> call) list \<Rightarrow> tier \<Rightarrow> (rstr \<times> call) list" where
  "calls_of failed t = failed @ (case t of By_cli cli \<Rightarrow> [(cli, Answered)] | _ \<Rightarrow> [])"

definition run_ok :: "ladder_env \<Rightarrow> ladder \<Rightarrow> nat \<Rightarrow> cli_spec list \<Rightarrow> (rstr \<Rightarrow> bool) \<Rightarrow> ladder_state \<Rightarrow> (rstr \<times> call) list \<Rightarrow> tier \<times> rstr \<times> ladder_state \<Rightarrow> bool" where
  "run_ok E L budget specs usable S failed = (\<lambda>(t, text, S').
     list_all (\<lambda>x. snd x \<noteq> Answered) failed \<and> length (calls_of failed t) \<le> budget \<and>
     subseq (map fst (calls_of failed t)) (map sp_cli specs) \<and>
     list_all (\<lambda>x. \<not> summarizer_in_cooldown (le_clock E) (fst x) (le_asked E (fst x)) (la_db S)) (calls_of failed t) \<and>
     (if ld_advisory L then S' = S else breaker_agrees (le_clock E) (calls_of failed t) (la_db S) (la_db S')) \<and>
     (case t of By_cli _ \<Rightarrow> usable text | Rule_based \<Rightarrow> text = [] | _ \<Rightarrow> False))"

lemma run_ok_skip: "run_ok E L budget specs usable S failed r \<Longrightarrow> run_ok E L budget (spec # specs) usable S failed r"
  by (auto simp: run_ok_def split: prod.splits)

lemma subseq_subset: "subseq xs ys \<Longrightarrow> set xs \<subseteq> set ys"
  by (induction rule: list_emb.induct) auto

lemma run_ok_fail:
  assumes rest: "run_ok E L budget specs usable S2 failed r" "sp_cli spec \<notin> sp_cli ` set specs"
    and there: "\<not> summarizer_in_cooldown (le_clock E) (sp_cli spec) (le_asked E (sp_cli spec)) (la_db S)"
    and one: "summarizer_health (la_db S1) = summarizer_health (la_db S)" "ld_advisory L \<longrightarrow> S1 = S"
    and two: "record_outcome E L (sp_cli spec) (Some d) S1 = Some S2"
  shows "run_ok E L (Suc budget) (spec # specs) usable S ((sp_cli spec, Failed d (le_failed E (sp_cli spec)) (le_later E (sp_cli spec))) # failed) r"
proof -
  let ?x = "(sp_cli spec, Failed d (le_failed E (sp_cli spec)) (le_later E (sp_cli spec)))"
  obtain t words S' where r: "r = (t, words, S')" by (cases r)
  have sub: "set (map fst (calls_of failed t)) \<subseteq> sp_cli ` set specs"
    using rest(1) subseq_subset [of "map fst (calls_of failed t)" "map sp_cli specs"] unfolding run_ok_def r by simp
  have cold: "summarizer_in_cooldown (le_clock E) k (le_asked E k) (la_db S2) = summarizer_in_cooldown (le_clock E) k (le_asked E k) (la_db S)"
    if "k \<noteq> sp_cli spec" for k
  proof (cases "ld_advisory L")
    case True
    then show ?thesis using one(2) outcome_advisory [OF True two] by simp
  next
    case False
    have "health_of k (la_db S2) = health_of k (la_db S1)"
      using breaker_step_other [OF outcome_step [OF two False]] that by simp
    then show ?thesis using one(1) by (simp add: summarizer_in_cooldown_def)
  qed
  have calm: "list_all (\<lambda>x. \<not> summarizer_in_cooldown (le_clock E) (fst x) (le_asked E (fst x)) (la_db S)) (calls_of failed t)"
    unfolding list_all_iff
  proof
    fix x assume x: "x \<in> set (calls_of failed t)"
    then have "fst x \<in> sp_cli ` set specs" using sub by auto
    then have "fst x \<noteq> sp_cli spec" using assms(2) by metis
    moreover have "\<not> summarizer_in_cooldown (le_clock E) (fst x) (le_asked E (fst x)) (la_db S2)"
      using rest(1) x unfolding run_ok_def r list_all_iff by simp
    ultimately show "\<not> summarizer_in_cooldown (le_clock E) (fst x) (le_asked E (fst x)) (la_db S)" using cold by simp
  qed
  have ends: "if ld_advisory L then S' = S else breaker_agrees (le_clock E) (?x # calls_of failed t) (la_db S) (la_db S')"
  proof (cases "ld_advisory L")
    case True
    then show ?thesis using rest(1) one(2) outcome_advisory [OF True two] unfolding run_ok_def r by simp
  next
    case False
    then show ?thesis
      using rest(1) agrees_step [OF one(1) outcome_step [OF two False]] unfolding run_ok_def r by simp
  qed
  have "calls_of (?x # failed) t = ?x # calls_of failed t" by (simp add: calls_of_def)
  then show ?thesis using rest(1) calm ends there unfolding run_ok_def r by (cases "ld_advisory L") simp_all
qed

lemma climb_ok:
  assumes "distinct (map sp_cli specs)" "climb E L purpose session prompt usable tried specs S = Some r"
  shows "\<exists>failed. run_ok E L (rungs L - tried) specs usable S failed r"
  using assms
proof (induction E L purpose session prompt usable tried specs S arbitrary: r rule: climb.induct)
  case (1 E L purpose session prompt usable tried S)
  then show ?case by (intro exI [of _ "[]"]) (auto simp: run_ok_def calls_of_def breaker_agrees_def)
next
  case (2 E L purpose session prompt usable tried spec specs S)
  have stop: "run_ok E L n (spec # specs) usable S [] (Rule_based, [], S)" for n
    by (simp add: run_ok_def calls_of_def breaker_agrees_def)
  show ?case
  proof (cases "rungs L \<le> tried")
    case True
    then show ?thesis using 2(5) stop by auto
  next
    case False
    obtain there where th: "available E spec (la_db S) = Some there" using 2(5) False by (auto simp: bind_eq_Some_conv)
    obtain a S1 where r1: "rung E L purpose session prompt usable spec S = (a, S1)" by fastforce
    from rung_state [OF r1] obtain model where a: "a = attempt_of E usable (le_answer E spec model prompt)"
      and one: "summarizer_health (la_db S1) = summarizer_health (la_db S)" "ld_advisory L \<longrightarrow> S1 = S" by blast
    show ?thesis
    proof (cases there)
      case False
      then have "\<exists>failed. run_ok E L (rungs L - tried) specs usable S failed r"
        using 2(1) [OF \<open>\<not> rungs L \<le> tried\<close> th] 2(4,5) th \<open>\<not> rungs L \<le> tried\<close> by simp
      then show ?thesis using run_ok_skip by blast
    next
      case True
      then have cold: "\<not> summarizer_in_cooldown (le_clock E) (sp_cli spec) (le_asked E (sp_cli spec)) (la_db S)"
        using th by (auto simp: available_def split: if_splits)
      have budget: "rungs L - tried = Suc (rungs L - Suc tried)" using False by simp
      have failing: ?thesis if "record_outcome E L (sp_cli spec) (Some d) S1 = Some S2" "climb E L purpose session prompt usable (Suc tried) specs S2 = Some r"
        "\<exists>failed. run_ok E L (rungs L - Suc tried) specs usable S2 failed r" for d S2
        proof -
        note step = run_ok_fail [OF _ _ cold one that(1)]
        from that(3) obtain failed where "run_ok E L (rungs L - Suc tried) specs usable S2 failed r" by blast
        then show ?thesis using step 2(4) unfolding budget by (metis distinct.simps(2) list.simps(9) list.set_map)
      qed
      show ?thesis
      proof (cases "at_result a")
        case (Broke outer full)
        then obtain S2 where s2: "record_outcome E L (sp_cli spec) (Some full) S1 = Some S2" "climb E L purpose session prompt usable (Suc tried) specs S2 = Some r"
          using 2(5) False th True r1 by (auto simp: bind_eq_Some_conv)
        show ?thesis by (rule failing [OF s2 2(3) [OF False th _ r1 [symmetric] refl Broke s2(1) _ s2(2)]]) (use True 2(4) in simp_all)
      next
        case (Said t)
        show ?thesis
        proof (cases "at_good a")
          case True
          then obtain S2 where s2: "record_outcome E L (sp_cli spec) None S1 = Some S2" "r = (By_cli (sp_cli spec), t, S2)"
            using 2(5) False th \<open>there\<close> r1 Said by auto
          have "usable t" using attempt_good [of E usable] True Said unfolding a by auto
          moreover have "if ld_advisory L then S2 = S else breaker_agrees (le_clock E) [(sp_cli spec, Answered)] (la_db S) (la_db S2)"
          proof (cases "ld_advisory L")
            case True
            then show ?thesis using one(2) outcome_advisory [OF True s2(1)] by simp
          next
            case False
            show ?thesis
              using False agrees_step [OF one(1) outcome_step [OF s2(1) False], of "[]" "la_db S2"] by (simp add: breaker_agrees_def)
          qed
          ultimately have "run_ok E L (rungs L - tried) (spec # specs) usable S [] r"
            using cold False by (simp add: run_ok_def calls_of_def s2(2))
          then show ?thesis by blast
        next
          case bad: False
          show ?thesis
          proof (cases "at_content a")
            case True
            then have "r = (Rule_based, [], S1)" using 2(5) False th \<open>there\<close> r1 Said bad by auto
            then have "run_ok E L (rungs L - tried) (spec # specs) usable S [] r"
              using one by (auto simp: run_ok_def calls_of_def breaker_agrees_def)
            then show ?thesis by blast
          next
            case other: False
            then obtain S2 where s2: "record_outcome E L (sp_cli spec) (Some (unusable_reason t)) S1 = Some S2"
              "climb E L purpose session prompt usable (Suc tried) specs S2 = Some r"
              using 2(5) False th \<open>there\<close> r1 Said bad by (auto simp: bind_eq_Some_conv)
            show ?thesis by (rule failing [OF s2 2(2) [OF False th _ r1 [symmetric] refl Said bad other s2(1) _ s2(2)]]) (use True 2(4) in simp_all)
          qed
        qed
      qed
    qed
  qed
qed

lemma climb_total:
  "list_all (\<lambda>s. le_reads E (sp_cli s) \<and> le_writes E (sp_cli s)) specs \<Longrightarrow> \<exists>r. climb E L purpose session prompt usable tried specs S = Some r"
proof (induction specs arbitrary: tried S)
  case (Cons spec specs)
  have "\<exists>b. available E spec (la_db S) = Some b" using Cons.prems by (cases "le_installed E (sp_program spec)") (auto simp: available_def)
  then obtain b where b: "available E spec (la_db S) = Some b" by blast
  obtain a S1 where r: "rung E L purpose session prompt usable spec S = (a, S1)" by fastforce
  have rest: "\<exists>r. Option.bind (record_outcome E L (sp_cli spec) d S1) (climb E L purpose session prompt usable (Suc tried) specs) = Some r" for d
    using outcome_total [of E "sp_cli spec" L d S1] Cons by auto
  show ?case
    using Cons b r rest outcome_total [of E "sp_cli spec" L None S1] by (auto split: answer_said.split)
qed simp

lemma specs_distinct: "distinct (map sp_cli SPECS)"
  by (simp add: SPECS_def lit_def)

lemma order_distinct: "distinct (map sp_cli (order L preferred))"
  using specs_distinct by (auto simp: order_def distinct_map_filter)


section \<open>The model a rung runs\<close>

lemma last_largest_None: "last_largest best xs = None \<longleftrightarrow> best = None \<and> xs = []"
  by (induction xs arbitrary: best) (auto split: option.split)

lemma last_largest_spec:
  "last_largest best xs = Some x \<Longrightarrow>
   (x \<in> set xs \<or> best = Some x) \<and> (\<forall>y\<in>set xs. fst y \<le> fst x) \<and> (case best of None \<Rightarrow> True | Some b \<Rightarrow> fst b \<le> fst x)"
proof (induction xs arbitrary: best)
  case (Cons y ys)
  show ?case
  proof (cases best)
    case None
    then show ?thesis using Cons.IH [of "Some y"] Cons.prems by auto
  next
    case (Some b)
    then show ?thesis using Cons.IH [of "if fst y < fst b then Some b else Some y"] Cons.prems by (auto split: if_splits)
  qed
qed (auto split: option.split)

lemma pick_newest_spec:
  assumes "pick_newest capture f pin ids = Some i"
  shows "\<exists>v w. version_of capture (fa_pattern f) pin = Some v \<and> version_of capture (fa_pattern f) i = Some w \<and> v < w \<and> i \<in> set ids \<and>
    (\<forall>j\<in>set ids. \<forall>u. version_of capture (fa_pattern f) j = Some u \<longrightarrow> u \<le> w)"
proof -
  obtain v where v: "version_of capture (fa_pattern f) pin = Some v"
    using assms by (auto simp: pick_newest_def split: option.splits)
  let ?xs = "List.map_filter (\<lambda>i. map_option (\<lambda>v. (v, i)) (version_of capture (fa_pattern f) i)) ids"
  obtain w where w: "last_largest None (filter (\<lambda>x. v < fst x) ?xs) = Some (w, i)"
    using assms v by (auto simp: pick_newest_def)
  have mem: "(u, j) \<in> set ?xs \<longleftrightarrow> j \<in> set ids \<and> version_of capture (fa_pattern f) j = Some u" for u j
    by (auto simp: map_filter_def image_iff)
  note largest = last_largest_spec [OF w]
  then have i: "v < w" "(w, i) \<in> set ?xs" by auto
  have "u \<le> w" if "j \<in> set ids" "version_of capture (fa_pattern f) j = Some u" for j u
  proof (cases "v < u")
    case True
    then have "(u, j) \<in> set (filter (\<lambda>x. v < fst x) ?xs)" using that mem by simp
    then show ?thesis using largest by fastforce
  next
    case False
    then show ?thesis using i(1) by simp
  qed
  then show ?thesis using v i mem by blast
qed

definition newest_of :: "clock \<Rightarrow> (rstr \<Rightarrow> rstr \<Rightarrow> rstr option) \<Rightarrow> store \<Rightarrow> int \<Rightarrow> cli_spec \<Rightarrow> rstr option" where
  "newest_of c capture db now spec =
     (case state_get (model_key (sp_cli spec)) db of None \<Rightarrow> None
      | Some i \<Rightarrow>
          if is_newer_than_pin capture spec i \<and>
             \<not> (case state_get (bad_key (sp_cli spec)) db of None \<Rightarrow> False | Some mark \<Rightarrow> mark_holds c mark i now)
          then Some i else None)"

lemma read_one_newest:
  "map_of (di_newest (read_one c capture db now F spec)) k =
   (case map_of (di_newest F) k of Some m \<Rightarrow> Some m | None \<Rightarrow> if k = sp_cli spec then newest_of c capture db now spec else None)"
  by (auto simp: read_one_def newest_of_def map_add_def split: option.split)

lemma read_newest:
  "distinct (map sp_cli specs) \<Longrightarrow>
   map_of (di_newest (foldl (read_one c capture db now) F specs)) k =
   (case map_of (di_newest F) k of Some m \<Rightarrow> Some m
    | None \<Rightarrow> Option.bind (find (\<lambda>s. sp_cli s = k) specs) (newest_of c capture db now))"
proof (induction specs arbitrary: F)
  case (Cons s specs)
  have "find (\<lambda>t. sp_cli t = sp_cli s) specs = None"
    unfolding find_None_iff using Cons.prems by (metis distinct.simps(2) imageI list.set_map list.simps(9))
  then show ?case using Cons by (auto simp: read_one_newest split: option.split)
qed (simp split: option.split)

lemma find_spec: "spec \<in> set specs \<Longrightarrow> distinct (map sp_cli specs) \<Longrightarrow> find (\<lambda>s. sp_cli s = sp_cli spec) specs = Some spec"
  by (induction specs) auto

lemma discovered_newest:
  assumes "spec \<in> set SPECS"
  shows "map_of (di_newest (read_discovered c capture db now)) (sp_cli spec) = newest_of c capture db now spec"
proof -
  let ?known = "filter (\<lambda>s. sp_family s \<noteq> None) SPECS"
  have d: "distinct (map sp_cli ?known)" using specs_distinct by (rule distinct_map_filter)
  have "Option.bind (find (\<lambda>s. sp_cli s = sp_cli spec) ?known) (newest_of c capture db now) = newest_of c capture db now spec"
  proof (cases "sp_family spec = None")
    case True
    have same: "x = spec" if "x \<in> set SPECS" "sp_cli x = sp_cli spec" for x
    proof -
      have "Some x = Some spec"
        using find_spec [OF that(1) specs_distinct] unfolding that(2) find_spec [OF assms specs_distinct] by (rule sym)
      then show ?thesis by (rule option.inject [THEN iffD1])
    qed
    have "find (\<lambda>s. sp_cli s = sp_cli spec) ?known = None"
      unfolding find_None_iff
    proof
      assume "\<exists>x. x \<in> set ?known \<and> sp_cli x = sp_cli spec"
      then obtain x where "x \<in> set SPECS" "sp_family x \<noteq> None" "sp_cli x = sp_cli spec" by auto
      then show False using same [of x] True by simp
    qed
    moreover have "newest_of c capture db now spec = None"
      using True by (simp add: newest_of_def is_newer_than_pin_def split: option.split)
    ultimately show ?thesis by simp
  next
    case False
    then show ?thesis using find_spec [OF _ d] assms by simp
  qed
  then show ?thesis unfolding read_discovered_def read_newest [OF d] by simp
qed

text \<open>A ladder runs what the user named, or an id of the same tier numbered above the pin, or the pin.\<close>

lemma models_only_move_up:
  assumes "spec \<in> set SPECS" "choose_model spec overrides (read_discovered c capture db now) = (m, src)"
  shows "case src of From_config \<Rightarrow> map_of overrides (sp_cli spec) = Some m
    | Newest \<Rightarrow> \<exists>f v w. sp_family spec = Some f \<and> version_of capture (fa_pattern f) (sp_model spec) = Some v \<and>
        version_of capture (fa_pattern f) m = Some w \<and> v < w
    | Built_in \<Rightarrow> m = sp_model spec"
proof -
  have "\<exists>f v w. sp_family spec = Some f \<and> version_of capture (fa_pattern f) (sp_model spec) = Some v \<and>
      version_of capture (fa_pattern f) i = Some w \<and> v < w" if "newest_of c capture db now spec = Some i" for i
  proof -
    have "is_newer_than_pin capture spec i" using that by (auto simp: newest_of_def split: option.splits if_splits)
    then obtain f j where f: "sp_family spec = Some f" "pick_newest capture f (sp_model spec) [i] = Some j"
      by (auto simp: is_newer_than_pin_def split: option.splits)
    then show ?thesis using pick_newest_spec [OF f(2)] by auto
  qed
  then show ?thesis using assms(2) discovered_newest [OF assms(1)] by (auto simp: choose_model_def split: option.splits)
qed

lemma split_once_here: "32 \<notin> set a \<Longrightarrow> split_once [32] (a @ 32 # b) = Some (a, b)"
  by (induction a) (auto simp: strip_pre_def starts_with_def)

lemma model_key_not_bad: "model_key cli \<noteq> bad_key cli'"
  by (simp add: model_key_def bad_key_def lit_def)

text \<open>
  C40: a model that does not run is set aside for a week. Where a model found by listing fails a call
  that the tested pin then answers, the rest of the run uses the pin, and so does every ladder made
  within the week, whatever else it finds in the store; from the week's end on the found model gets
  its next chance.
\<close>
theorem a_failed_model_rests_a_week:
  assumes "clock_ok (le_clock E)" "spec \<in> set SPECS" "model_choice L spec S = (i, Newest)" "\<not> ld_advisory L"
    and "state_get (model_key (sp_cli spec)) (la_db S) = Some i" "is_newer_than_pin (le_capture E) spec i" "32 \<notin> set i"
    and "le_marks E (sp_cli spec)" "0 \<le> le_marked E (sp_cli spec)"
    and "attempt_of E usable (le_answer E spec i prompt) = \<lparr>at_result = r, at_good = False, at_content = False\<rparr>"
    and "at_good (attempt_of E usable (le_answer E spec (sp_model spec) prompt))"
  shows "\<exists>a S'. rung E L purpose session prompt usable spec S = (a, S') \<and> at_good a \<and>
    model_choice L spec S' = (sp_model spec, Built_in) \<and>
    (\<forall>now. choose_model spec (ld_models L) (read_discovered (le_clock E) (le_capture E) (la_db S') now) =
       (if as_second now - as_second (le_marked E (sp_cli spec)) < FAILED_FOR_SECS then (sp_model spec, Built_in) else (i, Newest)))"
proof -
  let ?cli = "sp_cli spec" and ?t = "le_marked E (sp_cli spec)"
  let ?mark = "i @ [32] @ show_ts (le_clock E) ?t"
  obtain a1 S1 where 1: "attempt_call E L purpose session spec i prompt usable S = (a1, S1)" by fastforce
  obtain a2 S2 where 2: "attempt_call E L purpose session spec (sp_model spec) prompt usable S1 = (a2, S2)" by fastforce
  note 11 = attempt_call_state [OF 1] and 22 = attempt_call_state [OF 2]
  let ?S' = "S2\<lparr>la_fell_back := List.insert ?cli (la_fell_back S2), la_db := set_state (bad_key ?cli) ?mark (la_db S2)\<rparr>"
  have run: "rung E L purpose session prompt usable spec S = (a2, ?S')"
    using 11 22 assms(4,8,10,11) unfolding rung_def assms(3) prod.case 1 2 Let_def by simp
  have free: "map_of (ld_models L) ?cli = None" and now_newest: "choose_model spec (ld_models L) (ld_discovered L) = (i, Newest)"
    using assms(3) by (auto simp: model_choice_def choose_model_def split: option.splits if_splits prod.splits)
  have db: "la_db S2 = la_db S" using 11 22 by simp
  have mark: "mark_holds (le_clock E) ?mark i now \<longleftrightarrow> as_second now - as_second ?t < FAILED_FOR_SECS" for now
    using assms(1,7,9) by (simp add: mark_holds_def split_once_here clock_ok_def)
  have "newest_of (le_clock E) (le_capture E) (la_db ?S') now spec =
      (if as_second now - as_second ?t < FAILED_FOR_SECS then None else Some i)" for now
    using assms(5,6) mark [of now] by (simp add: newest_of_def db model_key_not_bad del: append.simps append_Cons)
  then have later: "choose_model spec (ld_models L) (read_discovered (le_clock E) (le_capture E) (la_db ?S') now) =
      (if as_second now - as_second ?t < FAILED_FOR_SECS then (sp_model spec, Built_in) else (i, Newest))" for now
    by (simp add: choose_model_def free discovered_newest [OF assms(2)])
  have "model_choice L spec ?S' = (sp_model spec, Built_in)"
    by (simp add: model_choice_def now_newest)
  moreover have "at_good a2" using 22 assms(11) by simp
  ultimately show ?thesis using run later by blast
qed

definition sample_capture :: "rstr \<Rightarrow> rstr \<Rightarrow> rstr option" where
  "sample_capture pattern i =
     (if starts_with i (lit ''gpt-'') then Some (takeWhile (\<lambda>c. c \<noteq> 45) (drop 4 i)) else None)"

definition sample_model :: rstr where "sample_model = lit ''gpt-5.7-luna''"

definition sample_ladder_env :: ladder_env where
  "sample_ladder_env = \<lparr>le_clock = sample_clock, le_capture = sample_capture, le_json = (\<lambda>_. None), le_installed = (\<lambda>_. True),
     le_answer = (\<lambda>_ m _. if m = sample_model then Broke [] [] else Said [64]), le_ms = (\<lambda>_ _. 0), le_asked = (\<lambda>_. 0), le_logged = (\<lambda>_ _. 0),
     le_marked = (\<lambda>_. 0), le_failed = (\<lambda>_. 0), le_later = (\<lambda>_. 0), le_reads = (\<lambda>_. True), le_writes = (\<lambda>_. True), le_marks = (\<lambda>_. True),
     le_ledger = (\<lambda>_ _. True)\<rparr>"

definition sample_ladder :: ladder where
  "sample_ladder = \<lparr>ld_mode = lit ''auto'', ld_models = [], ld_discovered = \<lparr>di_newest = [(lit ''codex'', sample_model)], di_failed = []\<rparr>,
     ld_timeout = CALL_TIMEOUT, ld_advisory = False\<rparr>"

definition sample_ladder_state :: ladder_state where
  "sample_ladder_state = \<lparr>la_db = set_state (model_key (lit ''codex'')) sample_model empty_store, la_fell_back = [], la_calls = []\<rparr>"

theorem a_failed_model_rests_a_week_witness:
  "\<exists>a S'. rung sample_ladder_env sample_ladder [] [] [65] (\<lambda>_. True) (hd (tl SPECS)) sample_ladder_state = (a, S') \<and> at_good a \<and>
     choose_model (hd (tl SPECS)) [] (read_discovered sample_clock sample_capture (la_db S') (7 * 24 * 3600 * SEC)) = (sample_model, Newest)"
proof -
  have cli: "sp_cli (hd (tl SPECS)) = lit ''codex''" unfolding SPECS_def by simp
  have choice: "model_choice sample_ladder (hd (tl SPECS)) sample_ladder_state = (sample_model, Newest)"
    by (simp add: model_choice_def choose_model_def cli sample_ladder_def sample_ladder_state_def)
  have pin: "sp_model (hd (tl SPECS)) = lit ''gpt-5.6-luna''" unfolding SPECS_def by simp
  obtain f where family: "sp_family (hd (tl SPECS)) = Some f" unfolding SPECS_def by simp
  have versions: "version_of sample_capture p (lit ''gpt-5.6-luna'') = Some [5, 6]" "version_of sample_capture p sample_model = Some [5, 7]" for p
    by (simp_all add: version_of_def sample_capture_def sample_model_def lit_def starts_with_def split_on_def parse_u64_def
      parse_digits_def digits_value_def is_ascii_digit_def U64_MAX_def)
  have newer: "is_newer_than_pin sample_capture (hd (tl SPECS)) sample_model"
    by (simp add: is_newer_than_pin_def family pick_newest_def pin versions map_filter_simps)
  have kept: "state_get (model_key (lit ''codex'')) (la_db sample_ladder_state) = Some sample_model"
    by (simp add: sample_ladder_state_def)
  have other: "sp_model (hd (tl SPECS)) \<noteq> sample_model" unfolding pin by code_simp
  have visible: "32 \<notin> set sample_model" by code_simp
  have member: "hd (tl SPECS) \<in> set SPECS" unfolding SPECS_def by simp
  have "\<exists>a S'. rung sample_ladder_env sample_ladder [] [] [65] (\<lambda>_. True) (hd (tl SPECS)) sample_ladder_state = (a, S') \<and> at_good a \<and>
      model_choice sample_ladder (hd (tl SPECS)) S' = (sp_model (hd (tl SPECS)), Built_in) \<and>
      (\<forall>now. choose_model (hd (tl SPECS)) (ld_models sample_ladder) (read_discovered (le_clock sample_ladder_env) (le_capture sample_ladder_env) (la_db S') now) =
        (if as_second now - as_second (le_marked sample_ladder_env (sp_cli (hd (tl SPECS)))) < FAILED_FOR_SECS then (sp_model (hd (tl SPECS)), Built_in) else (sample_model, Newest)))"
    by (rule a_failed_model_rests_a_week [OF _ member choice])
      (use sample_clock_ok newer kept other visible in \<open>simp_all add: cli sample_ladder_env_def sample_ladder_def attempt_of_def\<close>)
  then obtain a S' where r: "rung sample_ladder_env sample_ladder [] [] [65] (\<lambda>_. True) (hd (tl SPECS)) sample_ladder_state = (a, S')" "at_good a"
    and later: "\<And>now. choose_model (hd (tl SPECS)) (ld_models sample_ladder) (read_discovered (le_clock sample_ladder_env) (le_capture sample_ladder_env) (la_db S') now) =
        (if as_second now - as_second (le_marked sample_ladder_env (sp_cli (hd (tl SPECS)))) < FAILED_FOR_SECS then (sp_model (hd (tl SPECS)), Built_in) else (sample_model, Newest))"
    by blast
  have "choose_model (hd (tl SPECS)) [] (read_discovered sample_clock sample_capture (la_db S') (7 * 24 * 3600 * SEC)) = (sample_model, Newest)"
    using later [of "7 * 24 * 3600 * SEC"]
    by (simp add: sample_ladder_env_def sample_ladder_def FAILED_FOR_SECS_def as_second_def SEC_def)
  then show ?thesis using r by blast
qed

end
