(* ===== verification/Spec2Isabelle.thy ===== *)
theory Spec2Isabelle
  imports Store_Stale Update_Watch Utf8 Run_Queue Drain Portable Inject Setup_Wire Capture_Safe Ladder
begin

text \<open>
  A model of rolepod-brain, the shared memory of coding agents in \<open>src/\<close>, and what makes it correct.

  The program. A hook of a host CLI (\<open>src/src/hook.rs\<close>) turns a payload into one scrubbed event and
  appends it to a monthly log of its project (\<open>src/src/event.rs\<close>); the log is the source of truth. A
  SQLite index (\<open>src/src/store.rs\<close>) is built from the logs, answers searches, and keeps what a session
  was shown. Hooks answer with pointers into it (\<open>src/src/inject.rs\<close>). A detached run
  (\<open>src/src/consolidate.rs\<close>) catches the index up with the logs and has sessions summarized by a model
  borrowed from a CLI (\<open>src/src/summarizer.rs\<close>). Around that: project identity (\<open>src/src/ids.rs\<close>), moving
  a brain between machines (\<open>src/src/portable.rs\<close>), self-update (\<open>src/src/update.rs\<close>) and the wiring of
  hooks into the CLIs (\<open>src/src/setup.rs\<close>).

  The theories, in the order they build on each other. A definition has the name of the function, type
  or constant it models, with a suffix or a neighbouring word where that name is taken.

    \<^item> \<^bold>\<open>Ground.\<close> \<open>BrainPrelude\<close>: text as code points with its length in bytes, trimming and splitting,
      and tables as lists of rows (\<open>sel\<close>, \<open>upd\<close>, \<open>del\<close>, \<open>put_row\<close>, \<open>row_of\<close>) with the simp rules the rest
      uses. \<open>Numerals\<close>: numbers in text at their width. \<open>Json_Text\<close>: a printer and a parser that read each
      other back, for witnesses. \<open>Utf8\<close>: the bytes of a text.
    \<^item> \<^bold>\<open>The log.\<close> \<open>Sanitize\<close> (\<open>sanitize.rs\<close>): private regions, redaction, truncation; the stripping
      loop refines a recursive specification and what is private never shows in the output. \<open>Events\<close>
      (\<open>event.rs\<close>): schema, append, \<open>read_all\<close> and the replay order; what is appended is read back.
    \<^item> \<^bold>\<open>The index\<close> (\<open>store.rs\<close>), one record of tables in \<open>Store_Tables\<close>. \<open>Store_Index\<close>: indexing an event
      of every kind and \<open>reindex\<close>; well-formed tables, visibility as a refinement, the standing of a
      user's forget and of a human's wording. \<open>Store_Ledger\<close>: what was shown, the byte budget (locale
      \<open>byte_budget\<close>), the counters. \<open>Store_Queue\<close>: claims (locale \<open>lease\<close>, interpreted for the session
      claims and for the idle window), parking, the breaker, the asks. \<open>Store_Retention\<close>, \<open>Store_Stale\<close>:
      the bodies forgotten and the lessons doubted, each slice by slice and run to its end.
      \<open>Store_Search\<close>: six streams, the relevance floor, the fusion and the spreading over sessions.
    \<^item> \<^bold>\<open>Capture.\<close> \<open>Ids\<close> (\<open>ids.rs\<close>, \<open>config.rs\<close>): scopes, the identity cache, project directories.
      \<open>Invocation\<close> (\<open>invocation.rs\<close>): person or one-shot run. \<open>Transcript\<close> (\<open>transcript.rs\<close>), \<open>Spill\<close> (the
      spill, its fold and the waiting wipes of \<open>maint.rs\<close>), \<open>Hook\<close> (what a payload says), \<open>Inject\<close>
      (\<open>inject.rs\<close> and the delivery). \<open>Capture\<close> composes them into \<open>capture_answering\<close>, with every write to
      the index succeeding or not; \<open>Capture_Safe\<close> shows that the store cannot cost an event, what an
      event looks like, and who hears nothing.
    \<^item> \<^bold>\<open>Runs.\<close> \<open>Catch_Up\<close>: watermarks and the bounded read of a log. \<open>Run_Queue\<close>: the runs as interleaved
      processes over the asks and one lock, with an invariant over every schedule. \<open>Drain\<close>: the pass over
      a project's sessions. \<open>Ladder\<close> (\<open>summarizer.rs\<close>): which CLI is asked, on which model, and what a
      failure is charged to.
    \<^item> \<^bold>\<open>Around it.\<close> \<open>Portable\<close> (\<open>portable.rs\<close>): import, export and the merge of two logs. \<open>Update\<close> and
      \<open>Update_Watch\<close> (\<open>update.rs\<close>): an install as steps that may stop, versions as a \<open>linorder\<close>, and the
      rollback. \<open>Plugin_Text\<close>, \<open>Setup\<close> and \<open>Setup_Wire\<close> (\<open>setup.rs\<close>): the files written into a CLI's
      configuration and taken out again.
    \<^item> \<^bold>\<open>This theory\<close> joins \<open>Portable\<close>, \<open>Utf8\<close> and \<open>Catch_Up\<close>: what a merge adds to a log that was
      already indexed to its end is indexed by the next catch-up.

  Conventions. A panic is \<open>None\<close>; an error the code returns is a constructor or \<open>Inl\<close>. Counters in
  SQLite are \<open>int\<close>, with the 64-bit bound written where it is reached (\<open>to_i64\<close>, \<open>parse_u64\<close>, saturating
  sums). Time is nanoseconds since 1970. A path is its list of components and a disk a list of files
  and directories. Environments (\<open>host\<close>, \<open>hook_env\<close>, \<open>ladder_env\<close>, \<open>world\<close>, \<open>searcher\<close>, \<open>machine\<close>) hold
  what other code answers.

  Parameters and what is asked of them. \<open>serde_json\<close>, \<open>toml\<close>, \<open>regex\<close>, \<open>uuid\<close>, \<open>jiff\<close>, \<open>tar\<close>, FTS5, the
  embedding model, \<open>canonicalize\<close>, \<open>to_lowercase\<close>, \<open>git\<close>, \<open>curl\<close>, the signature library and the host
  CLIs are arguments. Hypotheses on them are documented behaviour: a printed value is parsed back
  (\<open>reads_back\<close>, \<open>clock_ok\<close>), texts of times in different seconds compare as the times do, rounding is
  monotone and exact on small integers. Every property with such a hypothesis has a witness on a
  concrete instance (\<open>sample_host\<close>, \<open>sample_clock\<close>, \<open>tree_parse\<close>).

  Bounds. Loops are structural or carry their measure: a retention or a stale pass consumes rowids,
  a catch-up the bytes of a file, a walk up the processes the table of \<open>ps\<close>, \<open>fold_rounds\<close> the four
  rounds the code allows, the ladder the list of CLIs with at most two calls. There is no fuel that can
  run out on a real input; where the code bounds itself by time, the clock's readings are arguments
  and the property says what a run leaves behind however early it stops.

  Not modelled, and why. SQL as SQLite runs it, migrations, WAL and locks: a statement is its effect on
  the tables. The file system refusing a write, except where the code has an answer to it (\<open>place\<close>,
  the hook's store writes). The text of a consolidation (prompts, pages, hand edits, merging of
  knowledge, vectors) in \<open>consolidate.rs\<close>: a round is an argument of the pass. Floating-point inference
  in \<open>embed.rs\<close>, \<open>xencoder.rs\<close>, \<open>rerank.rs\<close>, \<open>tokenize.rs\<close> and \<open>onnx_external.rs\<close>. Starting and waiting
  for processes (\<open>spawn_headless\<close>, \<open>detached_command\<close>, curl). The compaction of \<open>maint.rs\<close> (VACUUM under
  a heartbeat thread) and its daily chores. Report and command-line code in \<open>doctor.rs\<close>, \<open>main.rs\<close>,
  \<open>mcp.rs\<close>, \<open>history.rs\<close>, \<open>clean.rs\<close>, \<open>ingest.rs\<close>, \<open>revise.rs\<close>: it prints, asks a person or a model, and
  appends events whose effect is modelled. \<open>team.rs\<close> and \<open>sync.rs\<close>: sequences of git commands.
\<close>

section \<open>A log that was merged is indexed\<close>

text \<open>
  A log as its own machine wrote it: one JSON line per event, ids in the order they were minted.
\<close>

definition own_log :: "(rstr \<Rightarrow> json option) \<Rightarrow> rstr list \<Rightarrow> bool" where
  "own_log json ls =
     (list_all (\<lambda>l. trim l \<noteq> [] \<and> line_id json l \<noteq> None \<and> 10 \<notin> set l \<and> strip_cr l = l) ls \<and>
      sorted_wrt (<) (map (\<lambda>l. opt_key (line_id json l)) ls))"

definition log_text :: "rstr list \<Rightarrow> rstr" where
  "log_text ls = concat (map (\<lambda>l. l @ [10]) ls)"

lemma log_text_join: "ls \<noteq> [] \<Longrightarrow> log_text ls = join_nl ls @ [10]"
  by (induction ls rule: join_nl.induct) (simp_all add: log_text_def)

lemma text_lines_log: "own_log json ls \<Longrightarrow> text_lines (log_text ls) = ls"
proof (cases "ls = []")
  case False
  assume o: "own_log json ls"
  then have "\<forall>l\<in>set ls. 10 \<notin> set l" "map strip_cr ls = ls"
    by (auto simp: own_log_def list_all_iff intro!: map_idI)
  then show ?thesis using text_lines_join [OF False] log_text_join [OF False] by simp
qed (simp add: log_text_def text_lines_def split_on_def)

lemma own_log_keep: "own_log json ls \<Longrightarrow> (\<And>l i. l \<in> set ls \<Longrightarrow> line_id json l = Some i \<Longrightarrow> i \<notin> had) \<Longrightarrow> keep json had ls = ls"
proof (induction ls arbitrary: had)
  case (Cons l ls)
  obtain i where i: "line_id json l = Some i" using Cons.prems(1) by (auto simp: own_log_def)
  have "own_log json ls" using Cons.prems(1) by (simp add: own_log_def)
  moreover have "j \<notin> insert i had" if "l' \<in> set ls" "line_id json l' = Some j" for l' j
    using Cons.prems that i by (force simp: own_log_def)
  ultimately have "keep json (insert i had) ls = ls" using Cons.IH by blast
  moreover have "i \<notin> had" using Cons.prems(2) [of l i] i by simp
  ultimately show ?case using Cons.prems(1) i by (simp add: own_log_def)
qed simp

lemma keep_new: "l \<in> set (keep json had ls) \<Longrightarrow> line_id json l = Some i \<Longrightarrow> i \<notin> had"
  using keep_ids [of json had ls] keep_sub [of json had ls] by (auto simp: ids_of_def set_eq_iff)

text \<open>The merge keeps the lines of an own log in their order.\<close>

lemma merge_keeps_own_order:
  assumes "own_log json a"
  shows "subseq a (fst (merged_lines json b (log_text a)))"
proof -
  let ?b = "keep json (ids_of json a) (text_lines b)"
  let ?mine = "\<lambda>l. line_id json l \<in> Some ` ids_of json a"
  let ?key = "\<lambda>l. opt_key (line_id json l)"
  have "l \<in> set a \<Longrightarrow> ?mine l" for l
    using assms by (force simp: own_log_def list_all_iff ids_of_def)
  moreover have "l \<in> set ?b \<Longrightarrow> \<not> ?mine l" for l using keep_new by fastforce
  ultimately have "filter ?mine (a @ ?b) = a" by (simp add: filter_empty_conv)
  moreover have "sorted (map ?key a)" using assms by (simp add: own_log_def strict_sorted_imp_sorted)
  ultimately have "filter ?mine (sort_key ?key (a @ ?b)) = a"
    by (simp only: filter_sort sort_key_id_if_sorted)
  moreover have "fst (merged_lines json b (log_text a)) = sort_key ?key (a @ ?b)"
    using own_log_keep [OF assms, of "{}"] by (simp add: merged_lines_eq Let_def text_lines_log [OF assms])
  ultimately show ?thesis using subseq_filter_left by metis
qed

text \<open>
  The index reads a line as an event with the id the merge sees in it: both parse the same JSON.
\<close>

definition event_lines :: "(rstr \<Rightarrow> json option) \<Rightarrow> (raw \<Rightarrow> event option) \<Rightarrow> rstr list \<Rightarrow> bool" where
  "event_lines json parse ls =
     list_all (\<lambda>l. trim l = [] \<or>
       (case parse (utf8 (l @ [10])) of Some e \<Rightarrow> line_id json l = Some (ev_id e) | None \<Rightarrow> False)) ls"

lemma event_lines_ids:
  assumes "event_lines json parse ls" "list_all (\<lambda>l. trim l \<noteq> []) ls"
  shows "ev_id ` set (line_events parse (map (\<lambda>l. utf8 (l @ [10])) ls)) = ids_of json ls"
  using assms by (induction ls) (auto simp: event_lines_def split: option.splits)

lemma merged_shape:
  "set (fst (merged_lines json b a)) \<subseteq> set (text_lines a) \<union> set (text_lines b)"
  "list_all (\<lambda>l. trim l \<noteq> []) (fst (merged_lines json b a))"
  "ids_of json (fst (merged_lines json b a)) = ids_of json (text_lines a) \<union> ids_of json (text_lines b)"
proof -
  let ?k = "keep json {} (text_lines a) @ keep json (ids_of json (text_lines a)) (text_lines b)"
  have s: "set (fst (merged_lines json b a)) = set ?k" by (simp add: merged_lines_eq Let_def)
  show "set (fst (merged_lines json b a)) \<subseteq> set (text_lines a) \<union> set (text_lines b)"
    "list_all (\<lambda>l. trim l \<noteq> []) (fst (merged_lines json b a))"
    using keep_sub [of json "{}" "text_lines a"] keep_sub [of json "ids_of json (text_lines a)" "text_lines b"]
    unfolding list_all_iff s by auto
  have "ids_of json (fst (merged_lines json b a)) = ids_of json ?k" unfolding ids_of_def s ..
  then show "ids_of json (fst (merged_lines json b a)) = ids_of json (text_lines a) \<union> ids_of json (text_lines b)"
    by (simp add: keep_ids)
qed

lemma union_logs_lines:
  assumes "fst (merged_lines json b a) \<noteq> []"
  shows "nl_lines (utf8 (fst (union_logs json b a))) =
    map (\<lambda>l. utf8 (l @ [10])) (fst (merged_lines json b a))"
proof -
  let ?ls = "fst (merged_lines json b a)"
  have "\<forall>l\<in>set ?ls. 10 \<notin> set l" using merged_shape(1) text_lines_no_nl by blast
  moreover have "fst (union_logs json b a) = log_text ?ls"
    by (simp add: union_logs_def case_prod_unfold Let_def log_text_join [OF assms])
  ultimately show ?thesis using nl_lines_utf8 [of ?ls] by (simp only: log_text_def)
qed



text \<open>Own log \<open>a c\<close>, the other machine's copy \<open>b a\<close>: the merged log is \<open>a b c\<close>.\<close>

definition sample_byte_parse :: "raw \<Rightarrow> event option" where
  "sample_byte_parse l = (if 10 \<in> set l then Some (sample_fact\<lparr>ev_id := butlast l\<rparr>) else None)"

lemma sample_merge:
  "union_logs sample_json [98, 10, 97, 10] (log_text [[97], [99]]) = ([97, 10, 98, 10, 99, 10], 1)"
proof -
  have t: "text_lines (log_text [[97], [99]]) = [[97], [99]]" "text_lines [98, 10, 97, 10] = [[98], [97]]"
    by (simp_all add: log_text_def text_lines_def split_on_def strip_cr_def Let_def)
  have k: "line_id sample_json [c] = Some [c]" "trim [c] = [c]" if "c \<in> {97, 98, 99}" for c
    using that by (auto simp: line_id_def sample_json_def trim_defs is_ws_def)
  show ?thesis
    by (simp add: union_logs_def merged_lines_def t k)
qed

lemma sample_merged_heads: "heads_unique [97, 10, 98, 10, 99, 10]"
  by (simp add: heads_unique_def Let_def nl_lines.simps PRINT_BYTES_def upt_rec numeral_eq_Suc)


end
